(* ===== verification/Prelude.thy ===== *)
theory Prelude
  imports Main "HOL-Library.Word" "HOL-Library.AList"
begin

text \<open>
  Shared vocabulary of the development.

  \<^item> Names for the C++ types the program uses: octets, \<open>std::size_t\<close> counters, stream
    identifiers, header lists and error codes. An \<open>io_result\<close> is the pair of an optional
    error code and a payload, as the coroutines of the program return it.
  \<^item> The parts of the C++ standard library the program relies on for text:
    \<open>std::to_string\<close> and \<open>std::from_chars\<close> in base ten, with the three outcomes
    \<open>from_chars\<close> has (a value, no digits, a value that is out of range).
  \<^item> Two interfaces as locales: \<open>codec\<close> (a printer and a parser that undo each other) and
    \<open>step_invariant\<close> (an initial predicate, a step relation and an invariant), each with the
    lemmas its clients use.
  \<^item> Lemmas about lists that several components share.
\<close>

named_theorems model_defs \<open>definitions that the functional lemmas of the components unfold\<close>
named_theorems inv_defs \<open>invariants and their parts\<close>

section \<open>Names for the types of the program\<close>

type_synonym byte = "8 word"
type_synonym size_t = "64 word"
type_synonym stream_id = int
type_synonym headers = "(string \<times> string) list"

text \<open>
  \<open>std::error_code\<close> values the program creates or passes on. \<open>Transport_error\<close> stands for
  any error a socket, a TLS layer or an acceptor reports.
\<close>

datatype error_code =
    Error_eof
  | Error_stream_truncated
  | Error_canceled
  | Errc_invalid_argument
  | Errc_result_out_of_range
  | Errc_operation_not_permitted
  | Errc_protocol_not_supported
  | Transport_error nat

type_synonym ec = "error_code option"
type_synonym 'a io_result = "ec \<times> 'a"

section \<open>Decimal text: std::to_string and std::from_chars\<close>

definition is_digit :: "char \<Rightarrow> bool" where
  "is_digit c \<longleftrightarrow> 48 \<le> (of_char c :: nat) \<and> (of_char c :: nat) \<le> 57"

definition digit_value :: "char \<Rightarrow> nat" where
  "digit_value c = of_char c - 48"

definition digit_char :: "nat \<Rightarrow> char" where
  "digit_char d = char_of (48 + d)"

fun to_string :: "nat \<Rightarrow> string" where
  "to_string n = (if n < 10 then [digit_char n] else to_string (n div 10) @ [digit_char (n mod 10)])"

declare to_string.simps [simp del]

definition int_to_string :: "int \<Rightarrow> string" where
  "int_to_string i = (if i < 0 then CHR ''-'' # to_string (nat (- i)) else to_string (nat i))"

definition decimal_value :: "string \<Rightarrow> nat" where
  "decimal_value ds = foldl (\<lambda>acc c. acc * 10 + digit_value c) 0 ds"

text \<open>
  The result of \<open>std::from_chars(first, last, value)\<close> for an unsigned type: the error code, the
  text from the returned pointer to \<open>last\<close>, and the value stored (\<open>None\<close> when the variable is
  left unmodified).
\<close>

record from_chars_result =
  fc_ec :: ec
  fc_rest :: string
  fc_value :: "nat option"

definition from_chars :: "nat \<Rightarrow> string \<Rightarrow> from_chars_result" where
  "from_chars width s =
     (let ds = takeWhile is_digit s; rest = dropWhile is_digit s; v = decimal_value ds in
      if ds = [] then \<lparr>fc_ec = Some Errc_invalid_argument, fc_rest = s, fc_value = None\<rparr>
      else if 2 ^ width \<le> v
      then \<lparr>fc_ec = Some Errc_result_out_of_range, fc_rest = rest, fc_value = None\<rparr>
      else \<lparr>fc_ec = None, fc_rest = rest, fc_value = Some v\<rparr>)"

section \<open>Reachable states of a step relation\<close>

inductive reachable :: "('s \<Rightarrow> bool) \<Rightarrow> ('s \<Rightarrow> 's \<Rightarrow> bool) \<Rightarrow> 's \<Rightarrow> bool"
  for init :: "'s \<Rightarrow> bool" and step :: "'s \<Rightarrow> 's \<Rightarrow> bool" where
  reachable_init: "init s \<Longrightarrow> reachable init step s"
| reachable_step: "reachable init step s \<Longrightarrow> step s t \<Longrightarrow> reachable init step t"

text \<open>
  The interface of a component with an inductive invariant: what its lemmas promise about the
  initial states and about one step is enough for every reachable state.
\<close>

locale step_invariant =
  fixes init :: "'s \<Rightarrow> bool"
    and step :: "'s \<Rightarrow> 's \<Rightarrow> bool"
    and inv :: "'s \<Rightarrow> bool"
  assumes inv_init: "init s \<Longrightarrow> inv s"
    and inv_step: "inv s \<Longrightarrow> step s t \<Longrightarrow> inv t"
begin

lemma inv_reachable: "reachable init step s \<Longrightarrow> inv s"
  by (induction rule: reachable.induct) (auto intro: inv_init inv_step)

lemma inv_star: "step\<^sup>*\<^sup>* s t \<Longrightarrow> inv s \<Longrightarrow> inv t"
  by (induction rule: rtranclp_induct) (auto intro: inv_step)

end

text \<open>
  The interface of a textual encoding: \<open>valid\<close> says which values it covers.
\<close>

locale codec =
  fixes encode :: "'a \<Rightarrow> 'b"
    and decode :: "'b \<Rightarrow> 'a option"
    and valid :: "'a \<Rightarrow> bool"
  assumes decode_encode: "valid x \<Longrightarrow> decode (encode x) = Some x"
begin

lemma encode_inject: "valid x \<Longrightarrow> valid y \<Longrightarrow> encode x = encode y \<longleftrightarrow> x = y"
  by (metis decode_encode option.inject)

lemma encode_inj_on: "inj_on encode {x. valid x}"
  by (rule inj_onI) (simp add: encode_inject)

end

section \<open>Lemmas on decimal text\<close>

lemma of_char_digit_char [simp]: "d < 10 \<Longrightarrow> (of_char (digit_char d) :: nat) = 48 + d"
  by (simp add: digit_char_def)

lemma is_digit_digit_char [simp]: "d < 10 \<Longrightarrow> is_digit (digit_char d)"
  by (simp add: is_digit_def)

lemma digit_value_digit_char [simp]: "d < 10 \<Longrightarrow> digit_value (digit_char d) = d"
  by (simp add: digit_value_def)

lemma decimal_value_snoc [simp]:
  "decimal_value (ds @ [c]) = decimal_value ds * 10 + digit_value c"
  by (simp add: decimal_value_def)

lemma decimal_value_single [simp]: "decimal_value [c] = digit_value c"
  by (simp add: decimal_value_def)

lemma to_string_not_Nil [simp]: "to_string n \<noteq> []"
  by (subst to_string.simps) simp

lemma to_string_digits: "c \<in> set (to_string n) \<Longrightarrow> is_digit c"
proof (induction n rule: to_string.induct)
  case (1 n)
  then show ?case
    by (subst (asm) (2) to_string.simps) (auto split: if_splits)
qed

lemma decimal_value_to_string [simp]: "decimal_value (to_string n) = n"
proof (induction n rule: to_string.induct)
  case (1 n)
  then show ?case
    by (subst to_string.simps) simp
qed

lemma takeWhile_to_string:
  assumes "rest = [] \<or> \<not> is_digit (hd rest)"
  shows "takeWhile is_digit (to_string n @ rest) = to_string n"
    and "dropWhile is_digit (to_string n @ rest) = rest"
  using assms
  by (cases rest; simp add: takeWhile_append dropWhile_append to_string_digits)+

lemma from_chars_to_string:
  assumes "n < 2 ^ width" and "rest = [] \<or> \<not> is_digit (hd rest)"
  shows "from_chars width (to_string n @ rest) =
    \<lparr>fc_ec = None, fc_rest = rest, fc_value = Some n\<rparr>"
  using assms by (simp add: from_chars_def Let_def takeWhile_to_string)

interpretation decimal: codec to_string "\<lambda>s. fc_value (from_chars 64 s)" "\<lambda>n. n < 2 ^ 64"
proof unfold_locales
  fix n :: nat
  assume "n < 2 ^ 64"
  then show "fc_value (from_chars 64 (to_string n)) = Some n"
    using from_chars_to_string [of n 64 "[]"] by simp
qed

lemma from_chars_value_bound: "fc_value (from_chars width s) = Some v \<Longrightarrow> v < 2 ^ width"
  by (auto simp: from_chars_def Let_def split: if_splits)

section \<open>Lemmas on lists\<close>

lemma drop_concat_Cons:
  "n \<le> length c \<Longrightarrow> drop n (concat (c # cs)) = drop n c @ concat cs"
  by simp

lemma concat_non_empty: "xs \<noteq> [] \<Longrightarrow> (\<forall>x\<in>set xs. x \<noteq> []) \<Longrightarrow> concat xs \<noteq> []"
  by (cases xs) auto

lemma concat_snoc [simp]: "concat (xs @ [x]) = concat xs @ x"
  by simp

lemma take_length_take: "take (length (take n xs)) xs = take n xs"
  by (simp add: min_def)

lemma take_extend:
  "take (i + length (take n (drop i xs))) xs = take i xs @ take n (drop i xs)"
  by (simp only: take_add take_length_take)

lemma drop_extend:
  "drop (length (take n (drop i xs))) (drop i xs) = drop (i + length (take n (drop i xs))) xs"
  by (simp add: add.commute)

end
