(* ===== verification/Http2_Stream.thy ===== *)
theory Http2_Stream
  imports Prelude
begin

text \<open>
  The per-stream bridge of \<open>src/stream_impl.hpp\<close> and \<open>src/stream.cpp\<close>: class \<open>Stream\<close>, its
  read side (\<open>on_data\<close>, \<open>on_read_eof\<close>, \<open>read_some\<close>), its write side (\<open>write_impl\<close>,
  \<open>producer_callback\<close>), its status (\<open>set_status\<close>, \<open>status\<close>) and \<open>on_close\<close>.

  A coroutine is cut at its suspension points. A function named after the coroutine runs it from
  its start to its first \<open>co_await\<close>; the function with the suffix \<open>_resume\<close> runs it from there,
  given the error code the wait ended with. The outcome says whether the coroutine returned or is
  parked (again). What a member function asks of its session (\<open>nghttp2_session_consume_stream\<close>,
  \<open>nghttp2_session_resume_data\<close>, \<open>start_write\<close>) is a list of effects in call order; the
  session model of theory \<open>Session\<close> carries them out.

  The capy library is not part of the repository. The record \<open>capy\<close> is the parameter that stands
  for it, and the predicates after it are the documented behaviour that theorems may assume.
\<close>

section \<open>The capy library as a parameter\<close>

text \<open>
  \<open>'e\<close> is an \<open>async_event\<close>. \<open>'b\<close> is a \<open>buffer_param\<close> over a caller's mutable buffers, the
  memory included: \<open>bp_copy\<close> is \<open>buffer_copy(bp.data(), src)\<close>, which returns the number of bytes
  copied, and \<open>bp_consume\<close> is \<open>bp.consume(n)\<close>. \<open>'c\<close> is a \<open>const_buffer_array\<close> together with
  the \<open>consuming_buffers\<close> cursor seated on it: \<open>cb_copy\<close> gives the bytes that
  \<open>buffer_copy(mutable_buffer(buf, length), cursor.data())\<close> puts into \<open>buf\<close>.
\<close>

record ('e, 'b, 'c) capy =
  ev_new :: 'e
  ev_set :: "'e \<Rightarrow> 'e"
  ev_clear :: "'e \<Rightarrow> 'e"
  ev_is_set :: "'e \<Rightarrow> bool"
  bp_data_empty :: "'b \<Rightarrow> bool"
  bp_copy :: "'b \<Rightarrow> byte list \<Rightarrow> nat \<times> 'b"
  bp_consume :: "'b \<Rightarrow> nat \<Rightarrow> 'b"
  max_iovec :: nat
  cb_array :: "byte list list \<Rightarrow> 'c"
  cb_byte_size :: "'c \<Rightarrow> nat"
  cb_copy :: "'c \<Rightarrow> nat \<Rightarrow> byte list"
  cb_consume :: "'c \<Rightarrow> nat \<Rightarrow> 'c"

text \<open>An event is set after \<open>set()\<close> and not set when new and after \<open>clear()\<close>.\<close>

definition event_ok :: "('e, 'b, 'c) capy \<Rightarrow> bool" where
  "event_ok K \<longleftrightarrow>
     \<not> ev_is_set K (ev_new K) \<and> (\<forall>e. ev_is_set K (ev_set K e)) \<and> (\<forall>e. \<not> ev_is_set K (ev_clear K e))"

text \<open>
  The destination buffers. \<open>written b\<close> is what has been placed before the cursor, \<open>room b\<close> the
  number of bytes after it. A copy moves at least one byte when there is room and something to
  copy (\<open>sink_ok\<close>); it moves as much as fits when the window shows the whole sequence
  (\<open>sink_full\<close>), which is the case for up to \<open>max_iovec_\<close> buffers.
\<close>

definition sink_ok ::
  "('e, 'b, 'c) capy \<Rightarrow> ('b \<Rightarrow> byte list) \<Rightarrow> ('b \<Rightarrow> nat) \<Rightarrow> bool" where
  "sink_ok K written room \<longleftrightarrow>
     (\<forall>b. bp_data_empty K b \<longleftrightarrow> room b = 0) \<and>
     (\<forall>b src n b'. bp_copy K b src = (n, b') \<longrightarrow>
        n \<le> min (room b) (length src) \<and> (0 < min (room b) (length src) \<longrightarrow> 0 < n) \<and>
        written (bp_consume K b' n) = written b @ take n src \<and>
        room (bp_consume K b' n) = room b - n)"

definition sink_full :: "('e, 'b, 'c) capy \<Rightarrow> ('b \<Rightarrow> nat) \<Rightarrow> bool" where
  "sink_full K room \<longleftrightarrow> (\<forall>b src. fst (bp_copy K b src) = min (room b) (length src))"

text \<open>
  The source buffers: \<open>rest c\<close> are the bytes from the cursor on. An array made from at most
  \<open>max_iovec_\<close> buffers holds all of them, its size is that of the array and not of the cursor, and
  a copy takes as much as the destination of \<open>length\<close> bytes has room for.
\<close>

definition source_ok :: "('e, 'b, 'c) capy \<Rightarrow> ('c \<Rightarrow> byte list) \<Rightarrow> bool" where
  "source_ok K rest \<longleftrightarrow>
     (\<forall>bufs. length bufs \<le> max_iovec K \<longrightarrow> rest (cb_array K bufs) = concat bufs) \<and>
     (\<forall>bufs. cb_byte_size K (cb_array K bufs) = length (rest (cb_array K bufs))) \<and>
     (\<forall>c n. cb_byte_size K (cb_consume K c n) = cb_byte_size K c) \<and>
     (\<forall>c n. rest (cb_consume K c n) = drop n (rest c)) \<and>
     (\<forall>c n. cb_copy K c n = take n (rest c))"

section \<open>State\<close>

text \<open>
  \<open>Sink\<close> is the local type of \<open>read_some\<close>: the destination and the number of bytes \<open>put\<close> copied.
  \<open>read_sink_\<close> points to the sink of the one parked \<open>read_some\<close>, so the field holds that
  object while it is published.
\<close>

record 'b sink =
  sink_bp :: 'b
  sink_copied :: nat

record ('e, 'b, 'c) stream =
  st_id :: stream_id
  st_closed :: bool
  st_path :: string
  st_content_length :: "size_t option"
  st_headers :: headers
  st_log_prefix :: string
  st_status :: int
  st_status_ready :: 'e
  st_chunks :: "byte list list"
  st_front_offset :: nat
  st_read_sink :: "'b sink option"
  st_read_eof :: bool
  st_read_ready :: 'e
  st_pending :: 'c
  st_write_offset :: nat
  st_write_pending :: bool
  st_write_eof_requested :: bool
  st_write_deferred :: bool
  st_write_progress :: 'e

text \<open>What a stream asks of its session, in call order.\<close>

datatype stream_effect =
    Consume_stream stream_id nat
  | Resume_data stream_id
  | Start_write

text \<open>The constructor: \<open>prefix\<close> is \<open>session_->log_prefix(id)\<close>.\<close>

definition new_stream :: "('e, 'b, 'c) capy \<Rightarrow> stream_id \<Rightarrow> string \<Rightarrow> ('e, 'b, 'c) stream" where
  "new_stream K sid prefix =
     \<lparr>st_id = sid, st_closed = False, st_path = [], st_content_length = None, st_headers = [],
      st_log_prefix = prefix, st_status = -1, st_status_ready = ev_new K, st_chunks = [],
      st_front_offset = 0, st_read_sink = None, st_read_eof = False, st_read_ready = ev_new K,
      st_pending = cb_array K [], st_write_offset = 0, st_write_pending = False,
      st_write_eof_requested = False, st_write_deferred = False, st_write_progress = ev_new K\<rparr>"

definition set_id ::
  "(stream_id \<Rightarrow> string) \<Rightarrow> stream_id \<Rightarrow> ('e, 'b, 'c) stream \<Rightarrow> ('e, 'b, 'c) stream" where
  "set_id log_prefix sid st = st\<lparr>st_id := sid, st_log_prefix := log_prefix sid\<rparr>"

definition set_path :: "string \<Rightarrow> ('e, 'b, 'c) stream \<Rightarrow> ('e, 'b, 'c) stream" where
  "set_path p st = st\<lparr>st_path := p\<rparr>"

definition set_content_length :: "size_t \<Rightarrow> ('e, 'b, 'c) stream \<Rightarrow> ('e, 'b, 'c) stream" where
  "set_content_length n st = st\<lparr>st_content_length := Some n\<rparr>"

definition add_header :: "string \<Rightarrow> string \<Rightarrow> ('e, 'b, 'c) stream \<Rightarrow> ('e, 'b, 'c) stream" where
  "add_header name value st = st\<lparr>st_headers := st_headers st @ [(name, value)]\<rparr>"

section \<open>Status\<close>

text \<open>\<open>status_ = static_cast<int>(status)\<close> reinterprets the 32 bits as a signed number.\<close>

definition set_status ::
  "('e, 'b, 'c) capy \<Rightarrow> 32 word \<Rightarrow> ('e, 'b, 'c) stream \<Rightarrow> ('e, 'b, 'c) stream" where
  "set_status K status st =
     st\<lparr>st_status := sint status, st_status_ready := ev_set K (st_status_ready st)\<rparr>"

definition eof_error :: "('e, 'b, 'c) stream \<Rightarrow> ec" where
  "eof_error st = Some (if st_read_eof st then Error_eof else Error_stream_truncated)"

datatype status_outcome = Status_done "32 word io_result" | Status_parked

definition status_co ::
  "('e, 'b, 'c) capy \<Rightarrow> ('e, 'b, 'c) stream \<Rightarrow> status_outcome \<times> ('e, 'b, 'c) stream" where
  "status_co K st =
     (if st_status st < 0
      then (Status_parked, st\<lparr>st_status_ready := ev_clear K (st_status_ready st)\<rparr>)
      else (Status_done (None, word_of_int (st_status st)), st))"

definition status_resume :: "ec \<Rightarrow> ('e, 'b, 'c) stream \<Rightarrow> status_outcome" where
  "status_resume e st =
     (if e \<noteq> None then Status_done (e, 0)
      else if st_status st < 0 then Status_done (eof_error st, 0)
      else Status_done (None, word_of_int (st_status st)))"

section \<open>Read side\<close>

definition sink_put ::
  "('e, 'b, 'c) capy \<Rightarrow> byte list \<Rightarrow> 'b sink \<Rightarrow> nat \<times> 'b sink" where
  "sink_put K data sink =
     (let (n, bp) = bp_copy K (sink_bp sink) data in
      (n, \<lparr>sink_bp = bp_consume K bp n, sink_copied = sink_copied sink + n\<rparr>))"

definition on_data ::
  "('e, 'b, 'c) capy \<Rightarrow> byte list \<Rightarrow> ('e, 'b, 'c) stream \<Rightarrow> ('e, 'b, 'c) stream" where
  "on_data K data st =
     (let (data', st1) =
        (case st_read_sink st of
           None \<Rightarrow> (data, st)
         | Some sink \<Rightarrow>
             (let (n, sink') = sink_put K data sink
              in (drop n data, st\<lparr>st_read_sink := Some sink'\<rparr>)));
        st2 = (if data' \<noteq> [] then st1\<lparr>st_chunks := st_chunks st1 @ [data']\<rparr> else st1)
      in st2\<lparr>st_read_ready := ev_set K (st_read_ready st2)\<rparr>)"

definition on_read_eof ::
  "('e, 'b, 'c) capy \<Rightarrow> ('e, 'b, 'c) stream \<Rightarrow> ('e, 'b, 'c) stream" where
  "on_read_eof K st = st\<lparr>st_read_eof := True, st_read_ready := ev_set K (st_read_ready st)\<rparr>"

definition on_close ::
  "('e, 'b, 'c) capy \<Rightarrow> ('e, 'b, 'c) stream \<Rightarrow> ('e, 'b, 'c) stream" where
  "on_close K st =
     st\<lparr>st_closed := True,
        st_read_ready := ev_set K (st_read_ready st),
        st_write_progress := ev_set K (st_write_progress st),
        st_status_ready := ev_set K (st_status_ready st)\<rparr>"

definition consume :: "nat \<Rightarrow> ('e, 'b, 'c) stream \<Rightarrow> stream_effect list" where
  "consume n st = [Consume_stream (st_id st) n, Start_write]"

text \<open>
  The drain loop of \<open>read_some\<close>. It is a partial function: a library whose copy moved nothing
  although the window is not empty would keep it running forever.
\<close>

partial_function (option) drain_chunks ::
  "('e, 'b, 'c) capy \<Rightarrow> byte list list \<Rightarrow> nat \<Rightarrow> 'b \<Rightarrow> nat
    \<Rightarrow> (byte list list \<times> nat \<times> 'b \<times> nat) option" where
  "drain_chunks K chunks front bp tot =
     (case chunks of
        [] \<Rightarrow> Some (chunks, front, bp, tot)
      | chunk # rest \<Rightarrow>
          if bp_data_empty K bp then Some (chunks, front, bp, tot)
          else
            (case bp_copy K bp (drop front chunk) of
               (n, bp') \<Rightarrow>
                 if front + n = length chunk
                 then drain_chunks K rest 0 (bp_consume K bp' n) (tot + n)
                 else drain_chunks K chunks (front + n) (bp_consume K bp' n) (tot + n)))"

datatype 'b read_outcome = Read_done "nat io_result" 'b | Read_parked

definition read_park ::
  "('e, 'b, 'c) capy \<Rightarrow> 'b sink \<Rightarrow> ('e, 'b, 'c) stream \<Rightarrow> ('e, 'b, 'c) stream" where
  "read_park K sink st =
     st\<lparr>st_read_sink := Some sink, st_read_ready := ev_clear K (st_read_ready st)\<rparr>"

definition read_some ::
  "('e, 'b, 'c) capy \<Rightarrow> 'b \<Rightarrow> ('e, 'b, 'c) stream
    \<Rightarrow> ('b read_outcome \<times> ('e, 'b, 'c) stream \<times> stream_effect list) option" where
  "read_some K bp st =
     (case drain_chunks K (st_chunks st) (st_front_offset st) bp 0 of
        None \<Rightarrow> None
      | Some (chunks, front, bp', tot) \<Rightarrow>
          (let st1 = st\<lparr>st_chunks := chunks, st_front_offset := front\<rparr> in
           Some
             (if 0 < tot then (Read_done (None, tot) bp', st1, consume tot st1)
              else if st_read_eof st1 \<or> st_closed st1
              then (Read_done (eof_error st1, 0) bp', st1, [])
              else (Read_parked, read_park K \<lparr>sink_bp = bp', sink_copied = 0\<rparr> st1, []))))"

definition read_some_resume ::
  "('e, 'b, 'c) capy \<Rightarrow> ec \<Rightarrow> 'b sink \<Rightarrow> ('e, 'b, 'c) stream
    \<Rightarrow> 'b read_outcome \<times> ('e, 'b, 'c) stream \<times> stream_effect list" where
  "read_some_resume K e sink st =
     (let st1 = st\<lparr>st_read_sink := None\<rparr> in
      if 0 < sink_copied sink
      then (Read_done (None, sink_copied sink) (sink_bp sink), st1, consume (sink_copied sink) st1)
      else if e \<noteq> None then (Read_done (e, 0) (sink_bp sink), st1, [])
      else if st_read_eof st1 \<or> st_closed st1
      then (Read_done (eof_error st1, 0) (sink_bp sink), st1, [])
      else (Read_parked, read_park K sink st1, []))"

section \<open>Write side\<close>

text \<open>
  \<open>Deferred\<close> is the return value \<open>NGHTTP2_ERR_DEFERRED\<close>; \<open>Copied bs\<close> is the return value
  \<open>length bs\<close> with \<open>bs\<close> placed in \<open>buf\<close>. The Boolean says whether \<open>NGHTTP2_DATA_FLAG_EOF\<close>
  was added to \<open>data_flags\<close>.
\<close>

datatype producer_result = Deferred | Copied "byte list"

definition producer_callback ::
  "('e, 'b, 'c) capy \<Rightarrow> nat \<Rightarrow> ('e, 'b, 'c) stream
    \<Rightarrow> producer_result \<times> bool \<times> ('e, 'b, 'c) stream" where
  "producer_callback K len st =
     (if \<not> st_write_pending st then (Deferred, False, st\<lparr>st_write_deferred := True\<rparr>)
      else
        (let bs = cb_copy K (st_pending st) len;
             st1 = st\<lparr>st_pending := cb_consume K (st_pending st) (length bs),
                      st_write_offset := st_write_offset st + length bs\<rparr>;
             fully_drained = (st_write_offset st1 = cb_byte_size K (st_pending st1))
         in if fully_drained \<or> \<not> st_write_eof_requested st1
            then (Copied bs, st_write_eof_requested st1,
                  st1\<lparr>st_write_pending := False,
                      st_write_progress := ev_set K (st_write_progress st1)\<rparr>)
            else (Copied bs, False, st1)))"

datatype write_outcome = Write_done "nat io_result" | Write_parked

definition write_impl ::
  "('e, 'b, 'c) capy \<Rightarrow> byte list list \<Rightarrow> bool \<Rightarrow> ('e, 'b, 'c) stream
    \<Rightarrow> write_outcome \<times> ('e, 'b, 'c) stream \<times> stream_effect list" where
  "write_impl K buffers eof st =
     (if st_closed st then (Write_done (Some Error_eof, 0), st, [])
      else
        (let st1 = st\<lparr>st_pending := cb_array K buffers, st_write_offset := 0,
                      st_write_eof_requested := eof, st_write_pending := True\<rparr>;
             effects = (if st_write_deferred st1 then [Resume_data (st_id st1)] else []) @ [Start_write];
             st2 = st1\<lparr>st_write_deferred := False,
                       st_write_progress := ev_clear K (st_write_progress st1)\<rparr>
         in (Write_parked, st2, effects)))"

definition write_impl_resume ::
  "ec \<Rightarrow> ('e, 'b, 'c) stream \<Rightarrow> nat io_result \<times> ('e, 'b, 'c) stream" where
  "write_impl_resume e st = ((e, st_write_offset st), st\<lparr>st_write_pending := False\<rparr>)"

definition write_some ::
  "('e, 'b, 'c) capy \<Rightarrow> byte list list \<Rightarrow> ('e, 'b, 'c) stream
    \<Rightarrow> write_outcome \<times> ('e, 'b, 'c) stream \<times> stream_effect list" where
  "write_some K buffers st = write_impl K buffers False st"

definition write_eof ::
  "('e, 'b, 'c) capy \<Rightarrow> byte list list \<Rightarrow> ('e, 'b, 'c) stream
    \<Rightarrow> write_outcome \<times> ('e, 'b, 'c) stream \<times> stream_effect list" where
  "write_eof K buffers st = write_impl K buffers True st"

end
