(* ===== verification/Nghttp2.thy ===== *)
theory Nghttp2
  imports Http2_Stream
begin

text \<open>
  The nghttp2 library, which is not part of the repository, as a parameter of the session model.

  \<open>nghttp2_session_mem_recv2\<close> and \<open>nghttp2_session_mem_send2\<close> call back into the program while
  they run, and the callbacks may call other library functions on the same session. A call is
  therefore a tree: it either returns, or invokes one of the callbacks the program registered and
  goes on depending on the library state and the reply it finds afterwards. A tree is finite, as a
  library call that returns is; apart from that a theorem that quantifies over the record
  \<open>nghttp2\<close> holds for every behaviour of the library and of the remote peer.
\<close>

section \<open>Frames and callbacks\<close>

datatype frame_type =
    NGHTTP2_DATA | NGHTTP2_HEADERS | NGHTTP2_PRIORITY | NGHTTP2_RST_STREAM | NGHTTP2_SETTINGS
  | NGHTTP2_PUSH_PROMISE | NGHTTP2_PING | NGHTTP2_GOAWAY | NGHTTP2_WINDOW_UPDATE
  | NGHTTP2_CONTINUATION | NGHTTP2_ALTSVC | NGHTTP2_ORIGIN | NGHTTP2_UNKNOWN "8 word"

datatype headers_category = HCAT_REQUEST | HCAT_RESPONSE | HCAT_PUSH_RESPONSE | HCAT_HEADERS

text \<open>
  The parts of \<open>nghttp2_frame\<close> that the program looks at: \<open>hd.type\<close>, \<open>hd.stream_id\<close>, the flag
  \<open>NGHTTP2_FLAG_END_STREAM\<close> of \<open>hd.flags\<close>, and \<open>headers.cat\<close>.
\<close>

record frame =
  fr_type :: frame_type
  fr_stream_id :: stream_id
  fr_end_stream :: bool
  fr_cat :: headers_category

text \<open>
  A data provider's \<open>source->ptr\<close> is the address of a \<open>Stream\<close> object.
\<close>

type_synonym addr = nat

datatype callback =
    Cb_begin_headers frame
  | Cb_header frame string string
  | Cb_frame_not_send frame int
  | Cb_error string
  | Cb_invalid_header frame string string
  | Cb_frame_recv frame
  | Cb_data_chunk_recv stream_id "byte list"
  | Cb_frame_send frame
  | Cb_stream_close stream_id "32 word"
  | Cb_data_source_read addr nat

text \<open>Every callback returns zero, except the data provider.\<close>

datatype reply = Reply_zero | Reply_data producer_result bool

datatype ('ng, 'r) ng_call =
    Ng_return 'r 'ng
  | Ng_callback callback 'ng "'ng \<Rightarrow> reply \<Rightarrow> ('ng, 'r) ng_call"

section \<open>The library\<close>

type_synonym nv = "string \<times> string"

datatype role = Role_server | Role_client

datatype settings_id = SETTINGS_MAX_CONCURRENT_STREAMS | SETTINGS_INITIAL_WINDOW_SIZE

datatype terminate_code = NGHTTP2_NO_ERROR | NGHTTP2_PROTOCOL_ERROR

text \<open>
  \<open>ng_option_new\<close>, \<open>ng_callbacks_new\<close> and \<open>ng_session_new\<close> return the library's error code.
  \<open>ng_mem_send2\<close> returns a negative code or the bytes to send; \<open>ng_mem_recv2\<close> returns a code
  that is negative on failure; \<open>ng_submit_request2\<close> returns the new stream identifier or a
  negative code.
\<close>

record 'ng nghttp2 =
  ng_option_new :: int
  ng_callbacks_new :: int
  ng_session_new :: "role \<Rightarrow> int \<times> 'ng"
  ng_submit_settings :: "'ng \<Rightarrow> (settings_id \<times> 32 word) list \<Rightarrow> 'ng"
  ng_set_local_window_size :: "'ng \<Rightarrow> stream_id \<Rightarrow> 32 word \<Rightarrow> 'ng"
  ng_mem_recv2 :: "'ng \<Rightarrow> byte list \<Rightarrow> ('ng, int) ng_call"
  ng_mem_send2 :: "'ng \<Rightarrow> ('ng, int + byte list) ng_call"
  ng_want_read :: "'ng \<Rightarrow> bool"
  ng_want_write :: "'ng \<Rightarrow> bool"
  ng_consume_connection :: "'ng \<Rightarrow> nat \<Rightarrow> 'ng"
  ng_consume_stream :: "'ng \<Rightarrow> stream_id \<Rightarrow> nat \<Rightarrow> 'ng"
  ng_resume_data :: "'ng \<Rightarrow> stream_id \<Rightarrow> 'ng"
  ng_terminate_session :: "'ng \<Rightarrow> terminate_code \<Rightarrow> 'ng"
  ng_submit_response2 :: "'ng \<Rightarrow> stream_id \<Rightarrow> nv list \<Rightarrow> addr \<Rightarrow> int \<times> 'ng"
  ng_submit_request2 :: "'ng \<Rightarrow> nv list \<Rightarrow> addr \<Rightarrow> int \<times> 'ng"

end
