(* ===== verification/Session.thy ===== *)
theory Session
  imports Nghttp2
begin

text \<open>
  The session of \<open>src/session.cpp\<close> and \<open>src/session_impl.hpp\<close>: class \<open>Session::Impl\<close> with its
  stream table, the nghttp2 callbacks, the submission of requests and responses, the dispatch of
  requests, and the setup and teardown of \<open>run\<close>. The two loops are in theory \<open>Session_Loops\<close>.

  Streams are shared objects: the table, the readers and writers handed to user code and nghttp2's
  data providers all refer to the same \<open>Stream\<close>. The session state therefore holds the objects
  in a list, an address is an index, and the table maps stream identifiers to addresses. An object
  stays in the list when it leaves the table, as it does in the program for as long as somebody
  holds a \<open>shared_ptr\<close> to it.
\<close>

section \<open>State\<close>

record ('ng, 'e, 'b, 'c) session =
  ss_role :: role
  ss_handler :: bool
  ss_native :: "'ng option"
  ss_write_ready :: 'e
  ss_streams :: "(stream_id \<times> addr) list"
  ss_request_counter :: size_t
  ss_objects :: "('e, 'b, 'c) stream list"
  ss_spawned :: "addr list"

definition esc :: "string \<Rightarrow> string" where
  "esc s = CHR 0x1B # ''['' @ s @ ''m''"

text \<open>\<open>log_prefix()\<close> and \<open>log_prefix(stream_id)\<close>.\<close>

definition role_log_prefix :: "role \<Rightarrow> string" where
  "role_log_prefix r =
     (case r of
        Role_server \<Rightarrow> esc ''1;31'' @ ''server'' @ esc ''0''
      | Role_client \<Rightarrow> esc ''1;32'' @ ''client'' @ esc ''0'')"

definition log_prefix :: "role \<Rightarrow> stream_id \<Rightarrow> string" where
  "log_prefix r sid =
     (if sid \<noteq> 0 then role_log_prefix r @ ''.'' @ int_to_string sid else role_log_prefix r)"

definition new_session ::
  "('e, 'b, 'c) capy \<Rightarrow> role \<Rightarrow> bool \<Rightarrow> ('ng, 'e, 'b, 'c) session" where
  "new_session K r handler =
     \<lparr>ss_role = r, ss_handler = handler, ss_native = None, ss_write_ready = ev_new K,
      ss_streams = [], ss_request_counter = 0, ss_objects = [], ss_spawned = []\<rparr>"

section \<open>The stream table\<close>

text \<open>\<open>emplace\<close> of \<open>std::unordered_map\<close> leaves an existing entry alone.\<close>

definition emplace :: "'k \<Rightarrow> 'v \<Rightarrow> ('k \<times> 'v) list \<Rightarrow> ('k \<times> 'v) list" where
  "emplace k v m = (case map_of m k of None \<Rightarrow> (k, v) # m | Some _ \<Rightarrow> m)"

definition update_object ::
  "addr \<Rightarrow> (('e, 'b, 'c) stream \<Rightarrow> ('e, 'b, 'c) stream)
    \<Rightarrow> ('ng, 'e, 'b, 'c) session \<Rightarrow> ('ng, 'e, 'b, 'c) session" where
  "update_object a f s =
     (if a < length (ss_objects s)
      then s\<lparr>ss_objects := (ss_objects s)[a := f (ss_objects s ! a)]\<rparr> else s)"

definition start_write ::
  "('e, 'b, 'c) capy \<Rightarrow> ('ng, 'e, 'b, 'c) session \<Rightarrow> ('ng, 'e, 'b, 'c) session" where
  "start_write K s = s\<lparr>ss_write_ready := ev_set K (ss_write_ready s)\<rparr>"

definition create_stream ::
  "('e, 'b, 'c) capy \<Rightarrow> stream_id \<Rightarrow> ('ng, 'e, 'b, 'c) session
    \<Rightarrow> addr \<times> ('ng, 'e, 'b, 'c) session" where
  "create_stream K sid s =
     (let a = length (ss_objects s) in
      (a, s\<lparr>ss_objects := ss_objects s @ [new_stream K sid (log_prefix (ss_role s) sid)],
            ss_streams := emplace sid a (ss_streams s),
            ss_request_counter := ss_request_counter s + 1\<rparr>))"

definition find_stream :: "('ng, 'e, 'b, 'c) session \<Rightarrow> stream_id \<Rightarrow> addr option" where
  "find_stream s sid = map_of (ss_streams s) sid"

definition close_stream ::
  "('e, 'b, 'c) capy \<Rightarrow> stream_id \<Rightarrow> ('ng, 'e, 'b, 'c) session \<Rightarrow> ('ng, 'e, 'b, 'c) session" where
  "close_stream K sid s =
     (case find_stream s sid of
        None \<Rightarrow> s
      | Some a \<Rightarrow>
          (let s1 = update_object a (on_close K) s
           in s1\<lparr>ss_streams := AList.delete sid (ss_streams s1)\<rparr>))"

definition dispatch_request :: "addr \<Rightarrow> ('ng, 'e, 'b, 'c) session \<Rightarrow> ('ng, 'e, 'b, 'c) session" where
  "dispatch_request a s = s\<lparr>ss_spawned := ss_spawned s @ [a]\<rparr>"

text \<open>\<open>if (auto stream = find_stream(id)) stream->f()\<close>.\<close>

definition with_stream ::
  "stream_id \<Rightarrow> (('e, 'b, 'c) stream \<Rightarrow> ('e, 'b, 'c) stream)
    \<Rightarrow> ('ng, 'e, 'b, 'c) session \<Rightarrow> ('ng, 'e, 'b, 'c) session" where
  "with_stream sid f s = (case find_stream s sid of None \<Rightarrow> s | Some a \<Rightarrow> update_object a f s)"

text \<open>What a stream asks of its session, carried out.\<close>

definition with_native ::
  "('ng \<Rightarrow> 'ng) \<Rightarrow> ('ng, 'e, 'b, 'c) session \<Rightarrow> ('ng, 'e, 'b, 'c) session" where
  "with_native f s = s\<lparr>ss_native := map_option f (ss_native s)\<rparr>"

fun apply_effect ::
  "('e, 'b, 'c) capy \<Rightarrow> 'ng nghttp2 \<Rightarrow> stream_effect
    \<Rightarrow> ('ng, 'e, 'b, 'c) session \<Rightarrow> ('ng, 'e, 'b, 'c) session" where
  "apply_effect K N (Consume_stream sid n) s = with_native (\<lambda>g. ng_consume_stream N g sid n) s"
| "apply_effect K N (Resume_data sid) s = with_native (\<lambda>g. ng_resume_data N g sid) s"
| "apply_effect K N Start_write s = start_write K s"

definition apply_effects ::
  "('e, 'b, 'c) capy \<Rightarrow> 'ng nghttp2 \<Rightarrow> stream_effect list
    \<Rightarrow> ('ng, 'e, 'b, 'c) session \<Rightarrow> ('ng, 'e, 'b, 'c) session" where
  "apply_effects K N es s = foldl (\<lambda>s e. apply_effect K N e s) s es"

section \<open>The nghttp2 callbacks\<close>

fun frame_type_name :: "frame_type \<Rightarrow> string" where
  "frame_type_name NGHTTP2_DATA = ''DATA''"
| "frame_type_name NGHTTP2_HEADERS = ''HEADERS''"
| "frame_type_name NGHTTP2_PRIORITY = ''PRIORITY''"
| "frame_type_name NGHTTP2_RST_STREAM = ''RST_STREAM''"
| "frame_type_name NGHTTP2_SETTINGS = ''SETTINGS''"
| "frame_type_name NGHTTP2_PUSH_PROMISE = ''PUSH_PROMISE''"
| "frame_type_name NGHTTP2_PING = ''PING''"
| "frame_type_name NGHTTP2_GOAWAY = ''GOAWAY''"
| "frame_type_name NGHTTP2_WINDOW_UPDATE = ''WINDOW_UPDATE''"
| "frame_type_name NGHTTP2_CONTINUATION = ''CONTINUATION''"
| "frame_type_name NGHTTP2_ALTSVC = ''ALTSVC''"
| "frame_type_name NGHTTP2_ORIGIN = ''ORIGIN''"
| "frame_type_name (NGHTTP2_UNKNOWN _) = ''UNKNOWN''"

definition is_request_headers :: "frame \<Rightarrow> bool" where
  "is_request_headers f \<longleftrightarrow> fr_type f = NGHTTP2_HEADERS \<and> fr_cat f = HCAT_REQUEST"

definition on_begin_headers_callback ::
  "('e, 'b, 'c) capy \<Rightarrow> frame \<Rightarrow> ('ng, 'e, 'b, 'c) session \<Rightarrow> ('ng, 'e, 'b, 'c) session" where
  "on_begin_headers_callback K f s =
     (if is_request_headers f then snd (create_stream K (fr_stream_id f) s) else s)"

text \<open>
  \<open>:status\<close> is parsed into a variable that starts as zero and keeps that value when
  \<open>from_chars\<close> fails; \<open>content-length\<close> is used only when it is a number from the first to the
  last character.
\<close>

definition parse_status :: "string \<Rightarrow> 32 word" where
  "parse_status v = (case fc_value (from_chars 32 v) of None \<Rightarrow> 0 | Some n \<Rightarrow> word_of_nat n)"

definition parse_content_length :: "string \<Rightarrow> size_t option" where
  "parse_content_length v =
     (let r = from_chars 64 v in
      if fc_ec r \<noteq> None \<or> fc_rest r \<noteq> [] then None else map_option word_of_nat (fc_value r))"

definition on_header_callback ::
  "('e, 'b, 'c) capy \<Rightarrow> frame \<Rightarrow> string \<Rightarrow> string
    \<Rightarrow> ('ng, 'e, 'b, 'c) session \<Rightarrow> ('ng, 'e, 'b, 'c) session" where
  "on_header_callback K f name value s =
     (if name = '':path'' then with_stream (fr_stream_id f) (set_path value) s
      else if name = '':status''
      then with_stream (fr_stream_id f) (set_status K (parse_status value)) s
      else if name \<noteq> [] \<and> hd name = CHR '':'' then s
      else
        (let s1 =
           (if name = ''content-length''
            then (case parse_content_length value of
                    None \<Rightarrow> s
                  | Some n \<Rightarrow> with_stream (fr_stream_id f) (set_content_length n) s)
            else s)
         in with_stream (fr_stream_id f) (add_header name value) s1))"

definition on_frame_recv_callback ::
  "('e, 'b, 'c) capy \<Rightarrow> frame \<Rightarrow> ('ng, 'e, 'b, 'c) session \<Rightarrow> ('ng, 'e, 'b, 'c) session" where
  "on_frame_recv_callback K f s =
     (let s1 =
        (if is_request_headers f
         then (case find_stream s (fr_stream_id f) of None \<Rightarrow> s | Some a \<Rightarrow> dispatch_request a s)
         else s)
      in if (fr_type f = NGHTTP2_HEADERS \<or> fr_type f = NGHTTP2_DATA) \<and> fr_end_stream f
         then with_stream (fr_stream_id f) (on_read_eof K) s1
         else s1)"

definition on_data_chunk_recv_callback ::
  "('e, 'b, 'c) capy \<Rightarrow> 'ng nghttp2 \<Rightarrow> stream_id \<Rightarrow> byte list
    \<Rightarrow> ('ng, 'e, 'b, 'c) session \<Rightarrow> ('ng, 'e, 'b, 'c) session" where
  "on_data_chunk_recv_callback K N sid data s =
     with_stream sid (on_data K data)
       (with_native (\<lambda>g. ng_consume_connection N g (length data)) s)"

definition on_stream_close_callback ::
  "('e, 'b, 'c) capy \<Rightarrow> stream_id \<Rightarrow> ('ng, 'e, 'b, 'c) session \<Rightarrow> ('ng, 'e, 'b, 'c) session" where
  "on_stream_close_callback K sid s = close_stream K sid s"

text \<open>A data provider always refers to an object; the second case does not arise.\<close>

definition data_source_read_callback ::
  "('e, 'b, 'c) capy \<Rightarrow> addr \<Rightarrow> nat \<Rightarrow> ('ng, 'e, 'b, 'c) session
    \<Rightarrow> reply \<times> ('ng, 'e, 'b, 'c) session" where
  "data_source_read_callback K a len s =
     (if a < length (ss_objects s)
      then (case producer_callback K len (ss_objects s ! a) of
              (res, eof, st) \<Rightarrow> (Reply_data res eof, update_object a (\<lambda>_. st) s))
      else (Reply_data Deferred False, s))"

text \<open>The table of \<open>setup_callbacks\<close>; callbacks that only log leave the session as it is.\<close>

fun run_callback ::
  "('e, 'b, 'c) capy \<Rightarrow> 'ng nghttp2 \<Rightarrow> callback \<Rightarrow> ('ng, 'e, 'b, 'c) session
    \<Rightarrow> reply \<times> ('ng, 'e, 'b, 'c) session" where
  "run_callback K N (Cb_begin_headers f) s = (Reply_zero, on_begin_headers_callback K f s)"
| "run_callback K N (Cb_header f name value) s = (Reply_zero, on_header_callback K f name value s)"
| "run_callback K N (Cb_frame_not_send f e) s = (Reply_zero, s)"
| "run_callback K N (Cb_error msg) s = (Reply_zero, s)"
| "run_callback K N (Cb_invalid_header f name value) s = (Reply_zero, s)"
| "run_callback K N (Cb_frame_recv f) s = (Reply_zero, on_frame_recv_callback K f s)"
| "run_callback K N (Cb_data_chunk_recv sid data) s =
     (Reply_zero, on_data_chunk_recv_callback K N sid data s)"
| "run_callback K N (Cb_frame_send f) s = (Reply_zero, s)"
| "run_callback K N (Cb_stream_close sid e) s = (Reply_zero, on_stream_close_callback K sid s)"
| "run_callback K N (Cb_data_source_read a len) s = data_source_read_callback K a len s"

text \<open>A library call carried out on the session: the callbacks run as the library asks for them.\<close>

primrec run_ng_call ::
  "('e, 'b, 'c) capy \<Rightarrow> 'ng nghttp2 \<Rightarrow> ('ng, 'r) ng_call \<Rightarrow> ('ng, 'e, 'b, 'c) session
    \<Rightarrow> 'r \<times> ('ng, 'e, 'b, 'c) session" where
  "run_ng_call K N (Ng_return r g) = (\<lambda>s. (r, s\<lparr>ss_native := Some g\<rparr>))"
| "run_ng_call K N (Ng_callback cb g k) =
     (\<lambda>s. case run_callback K N cb (s\<lparr>ss_native := Some g\<rparr>) of
        (rep, s1) \<Rightarrow>
          run_ng_call K N (k (case ss_native s1 of None \<Rightarrow> g | Some g1 \<Rightarrow> g1) rep) s1)"

section \<open>Submitting responses and requests\<close>

definition make_nv :: "string \<Rightarrow> string \<Rightarrow> nv" where
  "make_nv name value = (name, value)"

text \<open>
  The functions below call nghttp2 on \<open>session_\<close>. \<open>None\<close> is the case of a null \<open>session_\<close>, for
  which the C library has no defined behaviour.
\<close>

definition response_nva :: "32 word \<Rightarrow> headers \<Rightarrow> nv list" where
  "response_nva status headers =
     make_nv '':status'' (to_string (unat status)) # map (\<lambda>(name, value). make_nv name value) headers"

definition submit_response ::
  "('e, 'b, 'c) capy \<Rightarrow> 'ng nghttp2 \<Rightarrow> addr \<Rightarrow> 32 word \<Rightarrow> headers \<Rightarrow> ('ng, 'e, 'b, 'c) session
    \<Rightarrow> (ec \<times> ('ng, 'e, 'b, 'c) session) option" where
  "submit_response K N a status headers s =
     (case ss_native s of
        None \<Rightarrow> None
      | Some g \<Rightarrow>
          (case ng_submit_response2 N g (st_id (ss_objects s ! a)) (response_nva status headers) a of
             (rv, g1) \<Rightarrow>
               (let s1 = s\<lparr>ss_native := Some g1\<rparr> in
                Some (if rv \<noteq> 0 then (Some Errc_invalid_argument, s1) else (None, start_write K s1)))))"

definition request_nva :: "string \<Rightarrow> size_t option \<Rightarrow> headers \<Rightarrow> nv list" where
  "request_nva path content_length headers =
     [make_nv '':method'' ''POST'', make_nv '':scheme'' ''http'', make_nv '':path'' path,
      make_nv '':authority'' ''localhost'']
     @ (case content_length of
          None \<Rightarrow> [] | Some n \<Rightarrow> [make_nv ''content-length'' (to_string (unat n))])
     @ map (\<lambda>(name, value). make_nv name value) headers"

text \<open>
  The result is the error code with the address of the new stream, if there is one. The stream
  object is created with the placeholder identifier zero before nghttp2 assigns the real one.
\<close>

definition submit_request ::
  "('e, 'b, 'c) capy \<Rightarrow> 'ng nghttp2 \<Rightarrow> string \<Rightarrow> size_t option \<Rightarrow> headers
    \<Rightarrow> ('ng, 'e, 'b, 'c) session \<Rightarrow> ((ec \<times> addr option) \<times> ('ng, 'e, 'b, 'c) session) option" where
  "submit_request K N path content_length headers s =
     (if ss_role s \<noteq> Role_client then Some ((Some Errc_operation_not_permitted, None), s)
      else
        (case ss_native s of
           None \<Rightarrow> None
         | Some g \<Rightarrow>
             (let a = length (ss_objects s);
                  s1 = s\<lparr>ss_objects := ss_objects s @ [new_stream K 0 (log_prefix (ss_role s) 0)]\<rparr>
              in case ng_submit_request2 N g (request_nva path content_length headers) a of
                   (sid, g1) \<Rightarrow>
                     (let s2 = s1\<lparr>ss_native := Some g1\<rparr> in
                      if sid < 0 then Some ((Some Errc_invalid_argument, None), s2)
                      else
                        (let s3 = update_object a (set_id (log_prefix (ss_role s)) sid) s2;
                             s4 = s3\<lparr>ss_streams := emplace sid a (ss_streams s3)\<rparr>
                         in Some ((None, Some a), start_write K s4))))))"

section \<open>Requests\<close>

text \<open>What a handler is given: the request's metadata, and the stream as reader and writer.\<close>

record request =
  rq_path :: string
  rq_content_length :: "size_t option"
  rq_headers :: headers
  rq_reader :: addr

datatype handled = Handler_called request addr | Closed_empty "ec" write_outcome

definition handle_request ::
  "('e, 'b, 'c) capy \<Rightarrow> 'ng nghttp2 \<Rightarrow> addr \<Rightarrow> ('ng, 'e, 'b, 'c) session
    \<Rightarrow> (handled \<times> ('ng, 'e, 'b, 'c) session) option" where
  "handle_request K N a s =
     (let st = ss_objects s ! a;
          request = \<lparr>rq_path = st_path st, rq_content_length = st_content_length st,
                     rq_headers = st_headers st, rq_reader = a\<rparr>
      in if ss_handler s then Some (Handler_called request a, s)
         else
           (case submit_response K N a 200 [] s of
              None \<Rightarrow> None
            | Some (e, s1) \<Rightarrow>
                (case write_eof K [] (ss_objects s1 ! a) of
                   (out, st', effs) \<Rightarrow>
                     Some (Closed_empty e out,
                           apply_effects K N effs (update_object a (\<lambda>_. st') s1)))))"

section \<open>Setup and teardown of run\<close>

datatype run_error = Nghttp2_option_new_failed | Callbacks_new_failed | Session_new_failed role

definition window_size :: "32 word" where
  "window_size = 1024 * 1024"

definition run_setup ::
  "'ng nghttp2 \<Rightarrow> ('ng, 'e, 'b, 'c) session \<Rightarrow> run_error + ('ng, 'e, 'b, 'c) session" where
  "run_setup N s =
     (if ng_option_new N \<noteq> 0 then Inl Nghttp2_option_new_failed
      else if ng_callbacks_new N \<noteq> 0 then Inl Callbacks_new_failed
      else
        (case ng_session_new N (ss_role s) of
           (rv, g) \<Rightarrow>
             if rv \<noteq> 0 then Inl (Session_new_failed (ss_role s))
             else
               (let g1 = ng_submit_settings N g
                      [(SETTINGS_MAX_CONCURRENT_STREAMS, 100), (SETTINGS_INITIAL_WINDOW_SIZE, window_size)];
                    g2 = ng_set_local_window_size N g1 0 window_size
                in Inr (s\<lparr>ss_native := Some g2\<rparr>))))"

definition run_teardown ::
  "('e, 'b, 'c) capy \<Rightarrow> ('ng, 'e, 'b, 'c) session \<Rightarrow> ('ng, 'e, 'b, 'c) session" where
  "run_teardown K s =
     foldl (\<lambda>s (sid, a). update_object a (on_close K) s) (s\<lparr>ss_streams := []\<rparr>) (ss_streams s)"

end
