(* ===== verification/Stream_Read.thy ===== *)
theory Stream_Read
  imports Http2_Stream
begin

text \<open>
  The read side of a stream. \<open>chunks_\<close> and \<open>front_offset_\<close> together are a queue of bytes; the
  locale \<open>byte_queue\<close> states what a reader of such a queue relies on, and is interpreted on the
  chunk list of the stream with the drain loop as its removal operation. On top of it stand the
  contract of \<open>read_some\<close> on each of its branches and the effect of a delivery on a stream with
  and without a parked reader.
\<close>

section \<open>The buffered bytes\<close>

definition buffered :: "byte list list \<Rightarrow> nat \<Rightarrow> byte list" where
  "buffered chunks front = drop front (concat chunks)"

definition chunks_wf :: "byte list list \<Rightarrow> nat \<Rightarrow> bool" where
  "chunks_wf chunks front \<longleftrightarrow>
     (\<forall>c\<in>set chunks. c \<noteq> []) \<and> (case chunks of [] \<Rightarrow> front = 0 | c # _ \<Rightarrow> front < length c)"

text \<open>The bytes a parked reader has already been given.\<close>

definition in_flight :: "('b \<Rightarrow> byte list) \<Rightarrow> ('e, 'b, 'c) stream \<Rightarrow> byte list" where
  "in_flight written st =
     (case st_read_sink st of None \<Rightarrow> [] | Some sink \<Rightarrow> written (sink_bp sink))"

text \<open>All bytes that arrived and that no completed read has returned, oldest first.\<close>

definition unread :: "('b \<Rightarrow> byte list) \<Rightarrow> ('e, 'b, 'c) stream \<Rightarrow> byte list" where
  "unread written st = in_flight written st @ buffered (st_chunks st) (st_front_offset st)"

text \<open>
  The invariant of the read side: a well-formed chunk queue, and a published sink that counts
  what it received and is full before anything is queued behind it.
\<close>

definition read_inv ::
  "('b \<Rightarrow> byte list) \<Rightarrow> ('b \<Rightarrow> nat) \<Rightarrow> ('e, 'b, 'c) stream \<Rightarrow> bool" where
  "read_inv written room st \<longleftrightarrow>
     chunks_wf (st_chunks st) (st_front_offset st) \<and>
     (case st_read_sink st of
        None \<Rightarrow> True
      | Some sink \<Rightarrow>
          sink_copied sink = length (written (sink_bp sink)) \<and>
          (st_chunks st \<noteq> [] \<longrightarrow> room (sink_bp sink) = 0))"

text \<open>No wakeup is lost: a reader waiting on a cleared event has nothing to report.\<close>

definition read_awake :: "('e, 'b, 'c) capy \<Rightarrow> ('e, 'b, 'c) stream \<Rightarrow> bool" where
  "read_awake K st \<longleftrightarrow>
     (case st_read_sink st of
        None \<Rightarrow> True
      | Some sink \<Rightarrow>
          ev_is_set K (st_read_ready st) \<or>
          (sink_copied sink = 0 \<and> \<not> st_read_eof st \<and> \<not> st_closed st))"

declare buffered_def [model_defs] chunks_wf_def [inv_defs]

lemma buffered_Nil [simp]: "buffered [] front = []"
  by (simp add: buffered_def)

lemma buffered_Cons:
  "front \<le> length c \<Longrightarrow> buffered (c # cs) front = drop front c @ concat cs"
  by (simp add: buffered_def)

lemma chunks_wf_Nil [simp]: "chunks_wf [] front \<longleftrightarrow> front = 0"
  by (simp add: chunks_wf_def)

lemma chunks_wf_Cons:
  "chunks_wf (c # cs) front \<longleftrightarrow> front < length c \<and> (\<forall>d\<in>set cs. d \<noteq> [])"
  by (auto simp: chunks_wf_def)

lemma chunks_wf_0: "chunks_wf cs 0 \<longleftrightarrow> (\<forall>d\<in>set cs. d \<noteq> [])"
  by (cases cs) (auto simp: chunks_wf_def)

lemma chunks_wf_snoc:
  "chunks_wf cs front \<Longrightarrow> d \<noteq> [] \<Longrightarrow> chunks_wf (cs @ [d]) front"
  by (cases cs) (auto simp: chunks_wf_def)

lemma buffered_snoc:
  "chunks_wf cs front \<Longrightarrow> buffered (cs @ [d]) front = buffered cs front @ d"
  by (cases cs) (auto simp: buffered_def chunks_wf_def)

lemma buffered_eq_Nil_iff: "chunks_wf cs front \<Longrightarrow> buffered cs front = [] \<longleftrightarrow> cs = []"
  by (cases cs) (auto simp: buffered_Cons chunks_wf_Cons)

section \<open>A queue of bytes\<close>

text \<open>
  What a reader relies on. \<open>push\<close> appends a non-empty piece; \<open>pull\<close> moves bytes into a
  destination with \<open>written\<close> and \<open>room\<close>, and gives back the queue, the destination and the
  number of bytes moved. It moves everything that fits.
\<close>

locale byte_queue =
  fixes contents :: "'q \<Rightarrow> byte list"
    and queue_ok :: "'q \<Rightarrow> bool"
    and push :: "byte list \<Rightarrow> 'q \<Rightarrow> 'q"
    and pull :: "'q \<Rightarrow> 'b \<Rightarrow> ('q \<times> 'b \<times> nat) option"
    and written :: "'b \<Rightarrow> byte list"
    and room :: "'b \<Rightarrow> nat"
  assumes queue_ok_push: "queue_ok q \<Longrightarrow> d \<noteq> [] \<Longrightarrow> queue_ok (push d q)"
    and contents_push: "queue_ok q \<Longrightarrow> contents (push d q) = contents q @ d"
    and pull_total: "queue_ok q \<Longrightarrow> \<exists>q' b' n. pull q b = Some (q', b', n)"
    and pull_count: "queue_ok q \<Longrightarrow> pull q b = Some (q', b', n)
          \<Longrightarrow> n = min (room b) (length (contents q))"
    and pull_contents: "queue_ok q \<Longrightarrow> pull q b = Some (q', b', n) \<Longrightarrow> contents q' = drop n (contents q)"
    and pull_written: "queue_ok q \<Longrightarrow> pull q b = Some (q', b', n)
          \<Longrightarrow> written b' = written b @ take n (contents q)"
    and pull_ok: "queue_ok q \<Longrightarrow> pull q b = Some (q', b', n) \<Longrightarrow> queue_ok q'"
begin

lemma pull_conserves:
  "queue_ok q \<Longrightarrow> pull q b = Some (q', b', n)
    \<Longrightarrow> written b' @ contents q' = written b @ contents q"
  by (simp add: pull_contents pull_written)

lemma pull_empty_iff:
  "queue_ok q \<Longrightarrow> pull q b = Some (q', b', n) \<Longrightarrow> n = 0 \<longleftrightarrow> room b = 0 \<or> contents q = []"
  by (frule (1) pull_count) (auto simp: min_def)

lemma pull_exhausts:
  "queue_ok q \<Longrightarrow> pull q b = Some (q', b', n) \<Longrightarrow> length (contents q) \<le> room b
    \<Longrightarrow> contents q' = []"
  by (frule (1) pull_count, drule (1) pull_contents) simp

lemma pull_pushed:
  assumes "queue_ok q" and "d \<noteq> []" and "pull (push d q) b = Some (q', b', n)"
  shows "written b' @ contents q' = written b @ contents q @ d"
  using assms pull_conserves [of "push d q" b q' b' n]
  by (simp add: contents_push queue_ok_push)

end

lemma sink_okD:
  assumes "sink_ok K written room" and "bp_copy K b src = (n, b')"
  shows "n \<le> room b" "n \<le> length src" "0 < room b \<Longrightarrow> src \<noteq> [] \<Longrightarrow> 0 < n"
    "written (bp_consume K b' n) = written b @ take n src"
    "room (bp_consume K b' n) = room b - n"
  using assms by (auto simp: sink_ok_def)

lemma sink_ok_empty: "sink_ok K written room \<Longrightarrow> bp_data_empty K b \<longleftrightarrow> room b = 0"
  by (simp add: sink_ok_def)

text \<open>One round of the drain loop: it takes at least one byte and keeps the rest in order.\<close>

lemma drain_chunks_round:
  assumes ok: "sink_ok K written room" and wf: "chunks_wf (c # cs) front" and rm: "room bp \<noteq> 0"
  shows "\<exists>n bp2 rest front2.
    drain_chunks K (c # cs) front bp tot = drain_chunks K rest front2 bp2 (tot + n) \<and>
    0 < n \<and> n \<le> min (room bp) (length (buffered (c # cs) front)) \<and>
    written bp2 = written bp @ take n (buffered (c # cs) front) \<and> room bp2 = room bp - n \<and>
    buffered rest front2 = drop n (buffered (c # cs) front) \<and> chunks_wf rest front2"
proof -
  obtain n bp1 where cp: "bp_copy K bp (drop front c) = (n, bp1)" by fastforce
  note D = sink_okD [OF ok cp]
  define rest where "rest = (if front + n = length c then cs else c # cs)"
  define front2 where "front2 = (if front + n = length c then 0 else front + n)"
  from wf have fr: "front < length c" by (simp add: chunks_wf_Cons)
  with D(1-3) rm have n: "0 < n" "n \<le> length c - front" by auto
  have all: "buffered (c # cs) front = drop front c @ concat cs"
    using fr by (simp add: buffered_Cons)
  have "chunks_wf rest front2"
    using wf n by (auto simp: rest_def front2_def chunks_wf_Cons chunks_wf_0)
  moreover have "buffered rest front2 = drop n (buffered (c # cs) front)"
    using all fr n by (auto simp: rest_def front2_def buffered_def add.commute)
  moreover have "drain_chunks K (c # cs) front bp tot
      = drain_chunks K rest front2 (bp_consume K bp1 n) (tot + n)"
    using rm ok cp by (subst drain_chunks.simps) (simp add: sink_ok_empty rest_def front2_def)
  moreover have "written (bp_consume K bp1 n) = written bp @ take n (buffered (c # cs) front)"
    using n by (simp add: D(4) all)
  moreover have "n \<le> min (room bp) (length (buffered (c # cs) front))"
    using n D(1) by (simp add: all)
  ultimately show ?thesis
    using n(1) D(5) by blast
qed

text \<open>The drain loop returns, whatever share of its window each copy fills.\<close>

lemma drain_chunks_spec:
  assumes ok: "sink_ok K written room" and wf: "chunks_wf chunks front"
  shows "\<exists>chunks' front' bp' n.
    drain_chunks K chunks front bp tot = Some (chunks', front', bp', tot + n) \<and>
    n = min (room bp) (length (buffered chunks front)) \<and>
    written bp' = written bp @ take n (buffered chunks front) \<and>
    buffered chunks' front' = drop n (buffered chunks front) \<and> chunks_wf chunks' front'"
  using wf
proof (induction "length (buffered chunks front)" arbitrary: chunks front bp tot rule: less_induct)
  case less
  show ?case
  proof (cases "chunks = [] \<or> room bp = 0")
    case True
    with less.prems ok show ?thesis
      by (cases chunks) (auto simp: drain_chunks.simps sink_ok_empty)
  next
    case False
    then obtain c cs where cs: "chunks = c # cs" by (cases chunks) auto
    from drain_chunks_round [OF ok less.prems [unfolded cs], of bp tot] False obtain n bp2 rest front2 where
      eq: "drain_chunks K chunks front bp tot = drain_chunks K rest front2 bp2 (tot + n)"
      and n: "0 < n" "n \<le> min (room bp) (length (buffered chunks front))"
      and wr: "written bp2 = written bp @ take n (buffered chunks front)" "room bp2 = room bp - n"
      and bu: "buffered rest front2 = drop n (buffered chunks front)" and wf2: "chunks_wf rest front2"
      unfolding cs by blast
    have "length (buffered rest front2) < length (buffered chunks front)"
      using n by (simp add: bu) linarith
    from less.hyps [OF this wf2, of bp2 "tot + n"] obtain chunks' front' bp' m where
      IH: "drain_chunks K rest front2 bp2 (tot + n) = Some (chunks', front', bp', tot + n + m)"
        "m = min (room bp2) (length (buffered rest front2))"
        "written bp' = written bp2 @ take m (buffered rest front2)"
        "buffered chunks' front' = drop m (buffered rest front2)" "chunks_wf chunks' front'" by blast
    have "n + m = min (room bp) (length (buffered chunks front))"
      using IH(2) n by (auto simp: bu wr)
    moreover have "drain_chunks K chunks front bp tot = Some (chunks', front', bp', tot + (n + m))"
      by (simp add: eq IH(1) add.assoc)
    moreover have "written bp' = written bp @ take (n + m) (buffered chunks front)"
      by (simp add: IH(3) wr bu take_add)
    moreover have "buffered chunks' front' = drop (n + m) (buffered chunks front)"
      by (simp add: IH(4) bu add.commute)
    ultimately show ?thesis using IH(5) by blast
  qed
qed

definition drain_queue ::
  "('e, 'b, 'c) capy \<Rightarrow> byte list list \<times> nat \<Rightarrow> 'b \<Rightarrow> ((byte list list \<times> nat) \<times> 'b \<times> nat) option"
  where
  "drain_queue K q b =
     map_option (\<lambda>(chunks, front, b', n). ((chunks, front), b', n)) (drain_chunks K (fst q) (snd q) b 0)"

definition push_chunk :: "byte list \<Rightarrow> byte list list \<times> nat \<Rightarrow> byte list list \<times> nat" where
  "push_chunk d q = (fst q @ [d], snd q)"

lemma drain_queue_spec:
  assumes "sink_ok K written room" and "chunks_wf (fst q) (snd q)"
  shows "\<exists>q' b' n. drain_queue K q b = Some (q', b', n) \<and>
    n = min (room b) (length (buffered (fst q) (snd q))) \<and>
    written b' = written b @ take n (buffered (fst q) (snd q)) \<and>
    buffered (fst q') (snd q') = drop n (buffered (fst q) (snd q)) \<and> chunks_wf (fst q') (snd q')"
  using drain_chunks_spec [OF assms, of b 0] by (fastforce simp: drain_queue_def)

text \<open>
  The chunk list of a stream is such a queue, for every library whose destination buffers
  behave as documented.
\<close>

interpretation chunk_queue: byte_queue "\<lambda>q. buffered (fst q) (snd q)"
  "\<lambda>q. sink_ok K written room \<and> chunks_wf (fst q) (snd q)" push_chunk "drain_queue K" written room
  for K :: "('e, 'b, 'c) capy" and written room
proof (unfold_locales, goal_cases)
  case (1 q d) then show ?case by (simp add: push_chunk_def chunks_wf_snoc)
next
  case (2 q d) then show ?case by (simp add: push_chunk_def buffered_snoc)
next
  case (3 q b) then show ?case using drain_queue_spec [of K written room q b] by blast
next
  case (4 q b q' b' n) then show ?case using drain_queue_spec [of K written room q b] by auto
next
  case (5 q b q' b' n) then show ?case using drain_queue_spec [of K written room q b] by auto
next
  case (6 q b q' b' n) then show ?case using drain_queue_spec [of K written room q b] by auto
next
  case (7 q b q' b' n) then show ?case using drain_queue_spec [of K written room q b] by auto
qed

section \<open>Reading\<close>

lemma drain_chunks_idle:
  "sink_ok K written room \<Longrightarrow> room bp = 0 \<or> chunks = []
    \<Longrightarrow> drain_chunks K chunks front bp tot = Some (chunks, front, bp, tot)"
  by (cases chunks) (auto simp: drain_chunks.simps sink_ok_empty)

text \<open>
  The three ways \<open>read_some\<close> leaves its first part: it returns queued bytes, it reports the end
  of the stream, or it parks with its destination published.
\<close>

lemma read_some_data:
  assumes ok: "sink_ok K written room" and wf: "chunks_wf (st_chunks st) (st_front_offset st)"
    and n: "n = min (room bp) (length (buffered (st_chunks st) (st_front_offset st)))" "0 < n"
  obtains chunks front bp' where
    "read_some K bp st = Some (Read_done (None, n) bp',
       st\<lparr>st_chunks := chunks, st_front_offset := front\<rparr>, [Consume_stream (st_id st) n, Start_write])"
    "written bp' = written bp @ take n (buffered (st_chunks st) (st_front_offset st))"
    "buffered chunks front = drop n (buffered (st_chunks st) (st_front_offset st))"
    "chunks_wf chunks front"
proof -
  from drain_chunks_spec [OF ok wf, of bp 0] n obtain chunks front bp' where
    dr: "drain_chunks K (st_chunks st) (st_front_offset st) bp 0 = Some (chunks, front, bp', n)"
    and r: "written bp' = written bp @ take n (buffered (st_chunks st) (st_front_offset st))"
      "buffered chunks front = drop n (buffered (st_chunks st) (st_front_offset st))"
      "chunks_wf chunks front" by auto
  from dr n(2) have "read_some K bp st = Some (Read_done (None, n) bp',
       st\<lparr>st_chunks := chunks, st_front_offset := front\<rparr>, [Consume_stream (st_id st) n, Start_write])"
    by (simp add: read_some_def Let_def consume_def)
  then show ?thesis using r by (rule that)
qed

lemma read_some_no_data:
  assumes ok: "sink_ok K written room" and wf: "chunks_wf (st_chunks st) (st_front_offset st)"
    and "room bp = 0 \<or> buffered (st_chunks st) (st_front_offset st) = []"
  shows "read_some K bp st = Some
    (if st_read_eof st \<or> st_closed st then (Read_done (eof_error st, 0) bp, st, [])
     else (Read_parked, read_park K \<lparr>sink_bp = bp, sink_copied = 0\<rparr> st, []))"
  using drain_chunks_idle [OF ok, of bp "st_chunks st"] assms
  by (auto simp: read_some_def Let_def buffered_eq_Nil_iff)

lemmas read_some_contract = read_some_data read_some_no_data

lemma read_some_total:
  assumes "sink_ok K written room" and "chunks_wf (st_chunks st) (st_front_offset st)"
  shows "\<exists>r. read_some K bp st = Some r"
proof (cases "room bp = 0 \<or> buffered (st_chunks st) (st_front_offset st) = []")
  case False
  then have "0 < min (room bp) (length (buffered (st_chunks st) (st_front_offset st)))" by simp
  from read_some_data [OF assms refl this] show ?thesis by blast
qed (use read_some_no_data [OF assms] in blast)

lemma read_some_parks:
  assumes "sink_ok K written room" and "chunks_wf (st_chunks st) (st_front_offset st)"
    and "read_some K bp st = Some (Read_parked, st', effs)"
  shows "(room bp = 0 \<or> st_chunks st = []) \<and> \<not> st_read_eof st \<and> \<not> st_closed st \<and> effs = []
    \<and> st' = read_park K \<lparr>sink_bp = bp, sink_copied = 0\<rparr> st"
proof (cases "room bp = 0 \<or> buffered (st_chunks st) (st_front_offset st) = []")
  case True
  with read_some_no_data [OF assms(1,2) True] assms show ?thesis
    by (auto simp: buffered_eq_Nil_iff split: if_splits)
next
  case False
  then have "0 < min (room bp) (length (buffered (st_chunks st) (st_front_offset st)))" by simp
  then show ?thesis by (rule read_some_data [OF assms(1,2) refl]) (use assms(3) in auto)
qed

section \<open>Deliveries\<close>

text \<open>What a delivery adds to the queue: nothing for no bytes, otherwise one chunk.\<close>

definition pieces :: "byte list \<Rightarrow> byte list list" where
  "pieces d = (if d = [] then [] else [d])"

lemma chunks_wf_pieces: "chunks_wf cs front \<Longrightarrow> chunks_wf (cs @ pieces d) front"
  by (simp add: pieces_def chunks_wf_snoc)

lemma buffered_pieces: "chunks_wf cs front \<Longrightarrow> buffered (cs @ pieces d) front = buffered cs front @ d"
  by (simp add: pieces_def buffered_snoc)

lemma pieces_eq_Nil [simp]: "pieces d = [] \<longleftrightarrow> d = []"
  by (simp add: pieces_def)

lemma on_data_no_sink:
  "st_read_sink st = None \<Longrightarrow> on_data K d st =
     st\<lparr>st_chunks := st_chunks st @ pieces d,
        st_read_ready := ev_set K (st_read_ready st)\<rparr>"
  by (simp add: on_data_def pieces_def)

lemma on_data_sink:
  "st_read_sink st = Some sink \<Longrightarrow> sink_put K d sink = (n, sink') \<Longrightarrow> on_data K d st =
     st\<lparr>st_read_sink := Some sink',
        st_chunks := st_chunks st @ pieces (drop n d),
        st_read_ready := ev_set K (st_read_ready st)\<rparr>"
  by (auto simp: on_data_def Let_def pieces_def)

lemma sink_put_spec:
  assumes "sink_ok K written room" and "sink_put K d sink = (n, sink')"
  shows "n \<le> length d" "n \<le> room (sink_bp sink)"
    "0 < room (sink_bp sink) \<Longrightarrow> d \<noteq> [] \<Longrightarrow> 0 < n"
    "written (sink_bp sink') = written (sink_bp sink) @ take n d"
    "room (sink_bp sink') = room (sink_bp sink) - n"
    "sink_copied sink' = sink_copied sink + n"
  using assms(2) sink_okD [OF assms(1)]
  by (auto simp: sink_put_def Let_def split: prod.splits)

lemma sink_put_full:
  "sink_full K room \<Longrightarrow> sink_put K d sink = (n, sink') \<Longrightarrow> n = min (room (sink_bp sink)) (length d)"
  by (auto simp: sink_put_def sink_full_def Let_def split: prod.splits) (metis fst_conv)+

lemma on_data_read_inv:
  assumes "sink_ok K written room" "sink_full K room" "read_inv written room st"
  shows "read_inv written room (on_data K d st)"
proof (cases "st_read_sink st")
  case None
  with assms(3) show ?thesis by (simp add: on_data_no_sink read_inv_def chunks_wf_pieces)
next
  case (Some sink)
  obtain n sink' where put: "sink_put K d sink = (n, sink')" by fastforce
  from put assms Some show ?thesis
    using sink_put_spec [OF assms(1) put] sink_put_full [OF assms(2) put]
    by (auto simp: on_data_sink [OF Some put] read_inv_def chunks_wf_pieces min_def split: if_splits)
qed

lemma on_data_unread:
  assumes "sink_ok K written room" "sink_full K room" "read_inv written room st"
  shows "unread written (on_data K d st) = unread written st @ d"
proof (cases "st_read_sink st")
  case None
  with assms(3) show ?thesis
    by (simp add: on_data_no_sink read_inv_def unread_def in_flight_def buffered_pieces)
next
  case (Some sink)
  obtain n sink' where put: "sink_put K d sink = (n, sink')" by fastforce
  have wf: "chunks_wf (st_chunks st) (st_front_offset st)" using assms(3) by (simp add: read_inv_def)
  have "st_chunks st \<noteq> [] \<Longrightarrow> n = 0"
    using assms(3) Some sink_put_spec(2) [OF assms(1) put] by (simp add: read_inv_def)
  then show ?thesis
    using Some wf sink_put_spec(4) [OF assms(1) put] buffered_pieces [OF wf, of "drop n d"]
    by (cases "st_chunks st = []")
      (auto simp: on_data_sink [OF Some put] unread_def in_flight_def)
qed

lemma on_data_wakes: "event_ok K \<Longrightarrow> ev_is_set K (st_read_ready (on_data K d st))"
  by (simp add: on_data_def event_ok_def Let_def split: option.splits prod.splits)

end
