(* ===== verification/Stream_System.thy ===== *)
theory Stream_System
  imports Stream_Read
begin

text \<open>
  One stream together with everything that can act on it: nghttp2's callbacks (deliveries, end of
  stream, close, pulls by the data provider), one reading, one writing and one status coroutine,
  each of them resumed when its event is set or when it is cancelled. A step is one such action,
  and the steps interleave in any order. The histories (\<open>sys_received\<close> and the fields after it)
  record what passed through the stream; they are what the theorems of this theory speak about.

  The invariant of the system is proved once and carries the properties: bytes are delivered in
  order and exactly once, flow control is credited by exactly what was returned, no wakeup of a
  reader or a writer is lost, and a writer is told exactly what nghttp2 took.
\<close>

section \<open>The system\<close>

record ('e, 'b, 'c) stream_sys =
  sys_stream :: "('e, 'b, 'c) stream"
  sys_writing :: bool
  sys_asking :: bool
  sys_received :: "byte list"
  sys_delivered :: "byte list"
  sys_consumed :: nat
  sys_write_data :: "byte list"
  sys_pulled :: "byte list"
  sys_reported :: "byte list"

definition init_sys ::
  "('e, 'b, 'c) capy \<Rightarrow> stream_id \<Rightarrow> string \<Rightarrow> ('e, 'b, 'c) stream_sys" where
  "init_sys K sid prefix =
     \<lparr>sys_stream = new_stream K sid prefix, sys_writing = False, sys_asking = False,
      sys_received = [], sys_delivered = [], sys_consumed = 0, sys_write_data = [],
      sys_pulled = [], sys_reported = []\<rparr>"

fun returned :: "('b \<Rightarrow> byte list) \<Rightarrow> 'b read_outcome \<Rightarrow> byte list" where
  "returned written (Read_done (e, n) bp) = take n (written bp)"
| "returned written Read_parked = []"

fun credited :: "stream_effect list \<Rightarrow> nat" where
  "credited [] = 0"
| "credited (Consume_stream _ n # es) = n + credited es"
| "credited (_ # es) = credited es"

fun pulled_bytes :: "producer_result \<Rightarrow> byte list" where
  "pulled_bytes Deferred = []"
| "pulled_bytes (Copied bs) = bs"

text \<open>A wait ends without an error when its event is set, and with one when it is cancelled.\<close>

definition may_resume :: "('e, 'b, 'c) capy \<Rightarrow> ec \<Rightarrow> 'e \<Rightarrow> bool" where
  "may_resume K e ev \<longleftrightarrow> e \<noteq> None \<or> ev_is_set K ev"

inductive stream_step ::
  "('e, 'b, 'c) capy \<Rightarrow> ('b \<Rightarrow> byte list) \<Rightarrow> ('c \<Rightarrow> byte list)
    \<Rightarrow> ('e, 'b, 'c) stream_sys \<Rightarrow> ('e, 'b, 'c) stream_sys \<Rightarrow> bool"
  for K written rest where
  step_data:
    "stream_step K written rest s
       (s\<lparr>sys_stream := on_data K d (sys_stream s), sys_received := sys_received s @ d\<rparr>)"
| step_read_eof:
    "stream_step K written rest s (s\<lparr>sys_stream := on_read_eof K (sys_stream s)\<rparr>)"
| step_close:
    "stream_step K written rest s (s\<lparr>sys_stream := on_close K (sys_stream s)\<rparr>)"
| step_read:
    "st_read_sink (sys_stream s) = None \<Longrightarrow> written bp = [] \<Longrightarrow>
     read_some K bp (sys_stream s) = Some (out, st', effs) \<Longrightarrow>
     stream_step K written rest s
       (s\<lparr>sys_stream := st', sys_delivered := sys_delivered s @ returned written out,
          sys_consumed := sys_consumed s + credited effs\<rparr>)"
| step_read_wake:
    "st_read_sink (sys_stream s) = Some sink \<Longrightarrow>
     may_resume K e (st_read_ready (sys_stream s)) \<Longrightarrow>
     read_some_resume K e sink (sys_stream s) = (out, st', effs) \<Longrightarrow>
     stream_step K written rest s
       (s\<lparr>sys_stream := st', sys_delivered := sys_delivered s @ returned written out,
          sys_consumed := sys_consumed s + credited effs\<rparr>)"
| step_write:
    "\<not> sys_writing s \<Longrightarrow> write_impl K buffers eof (sys_stream s) = (Write_parked, st', effs) \<Longrightarrow>
     stream_step K written rest s
       (s\<lparr>sys_stream := st', sys_writing := True, sys_write_data := rest (cb_array K buffers)\<rparr>)"
| step_write_wake:
    "sys_writing s \<Longrightarrow> may_resume K e (st_write_progress (sys_stream s)) \<Longrightarrow>
     write_impl_resume e (sys_stream s) = ((e, n), st') \<Longrightarrow>
     stream_step K written rest s
       (s\<lparr>sys_stream := st', sys_writing := False,
          sys_reported := sys_reported s @ take n (sys_write_data s)\<rparr>)"
| step_pull:
    "producer_callback K len (sys_stream s) = (res, eof, st') \<Longrightarrow>
     stream_step K written rest s
       (s\<lparr>sys_stream := st', sys_pulled := sys_pulled s @ pulled_bytes res\<rparr>)"
| step_set_status:
    "stream_step K written rest s (s\<lparr>sys_stream := set_status K v (sys_stream s)\<rparr>)"
| step_ask:
    "\<not> sys_asking s \<Longrightarrow> status_co K (sys_stream s) = (out, st') \<Longrightarrow>
     stream_step K written rest s (s\<lparr>sys_stream := st', sys_asking := (out = Status_parked)\<rparr>)"
| step_ask_wake:
    "sys_asking s \<Longrightarrow> may_resume K e (st_status_ready (sys_stream s)) \<Longrightarrow>
     stream_step K written rest s (s\<lparr>sys_asking := False\<rparr>)"
| step_set_id:
    "stream_step K written rest s (s\<lparr>sys_stream := set_id lp i (sys_stream s)\<rparr>)"
| step_set_path:
    "stream_step K written rest s (s\<lparr>sys_stream := set_path p (sys_stream s)\<rparr>)"
| step_set_content_length:
    "stream_step K written rest s (s\<lparr>sys_stream := set_content_length l (sys_stream s)\<rparr>)"
| step_add_header:
    "stream_step K written rest s (s\<lparr>sys_stream := add_header nm vl (sys_stream s)\<rparr>)"

section \<open>The invariant\<close>

definition write_inv ::
  "('e, 'b, 'c) capy \<Rightarrow> ('c \<Rightarrow> byte list) \<Rightarrow> ('e, 'b, 'c) stream_sys \<Rightarrow> bool" where
  "write_inv K rest s \<longleftrightarrow>
     (let st = sys_stream s in
      (st_write_pending st \<longrightarrow> sys_writing s \<and> \<not> st_write_deferred st) \<and>
      (if sys_writing s
       then st_write_offset st \<le> length (sys_write_data s) \<and>
            rest (st_pending st) = drop (st_write_offset st) (sys_write_data s) \<and>
            cb_byte_size K (st_pending st) = length (sys_write_data s) \<and>
            sys_pulled s = sys_reported s @ take (st_write_offset st) (sys_write_data s) \<and>
            (ev_is_set K (st_write_progress st) \<or> st_write_pending st \<and> \<not> st_closed st)
       else sys_pulled s = sys_reported s))"

definition read_sys_inv ::
  "('e, 'b, 'c) capy \<Rightarrow> ('b \<Rightarrow> byte list) \<Rightarrow> ('b \<Rightarrow> nat) \<Rightarrow> ('e, 'b, 'c) stream_sys \<Rightarrow> bool" where
  "read_sys_inv K written room s \<longleftrightarrow>
     read_inv written room (sys_stream s) \<and>
     sys_received s = sys_delivered s @ unread written (sys_stream s) \<and>
     sys_consumed s = length (sys_delivered s) \<and> read_awake K (sys_stream s)"

definition library_ok ::
  "('e, 'b, 'c) capy \<Rightarrow> ('b \<Rightarrow> byte list) \<Rightarrow> ('b \<Rightarrow> nat) \<Rightarrow> ('c \<Rightarrow> byte list) \<Rightarrow> bool" where
  "library_ok K written room rest \<longleftrightarrow>
     event_ok K \<and> sink_ok K written room \<and> sink_full K room \<and> source_ok K rest"

definition sys_inv ::
  "('e, 'b, 'c) capy \<Rightarrow> ('b \<Rightarrow> byte list) \<Rightarrow> ('b \<Rightarrow> nat) \<Rightarrow> ('c \<Rightarrow> byte list)
    \<Rightarrow> ('e, 'b, 'c) stream_sys \<Rightarrow> bool" where
  "sys_inv K written room rest s \<longleftrightarrow>
     library_ok K written room rest \<and> read_sys_inv K written room s \<and> write_inv K rest s"

lemma library_okD:
  assumes "library_ok K written room rest"
  shows "event_ok K" "sink_ok K written room" "sink_full K room" "source_ok K rest"
  using assms by (simp_all add: library_ok_def)

subsection \<open>Steps that leave one side alone\<close>

lemma producer_callback_frame:
  "producer_callback K len st = (res, eof, st') \<Longrightarrow> st_id st' = st_id st \<and> st_closed st' = st_closed st"
  by (auto simp: producer_callback_def Let_def split: if_splits)

text \<open>The fields of the read side, and those of the write side, as one value each.\<close>

definition read_side :: "('e, 'b, 'c) stream \<Rightarrow> byte list list \<times> nat \<times> 'b sink option \<times> bool \<times> 'e \<times> bool"
  where
  "read_side st =
     (st_chunks st, st_front_offset st, st_read_sink st, st_read_eof st, st_read_ready st, st_closed st)"

definition write_side :: "('e, 'b, 'c) stream \<Rightarrow> 'c \<times> nat \<times> bool \<times> bool \<times> bool \<times> 'e \<times> bool" where
  "write_side st =
     (st_pending st, st_write_offset st, st_write_pending st, st_write_eof_requested st,
      st_write_deferred st, st_write_progress st, st_closed st)"

lemma read_sys_inv_frame:
  "read_side (sys_stream t) = read_side (sys_stream s) \<Longrightarrow> sys_received t = sys_received s \<Longrightarrow>
   sys_delivered t = sys_delivered s \<Longrightarrow> sys_consumed t = sys_consumed s \<Longrightarrow>
   read_sys_inv K written room s \<Longrightarrow> read_sys_inv K written room t"
  by (cases "st_read_sink (sys_stream s)")
    (auto simp: read_sys_inv_def read_inv_def read_awake_def unread_def in_flight_def read_side_def)

lemma write_inv_frame:
  "write_side (sys_stream t) = write_side (sys_stream s) \<Longrightarrow> sys_writing t = sys_writing s \<Longrightarrow>
   sys_write_data t = sys_write_data s \<Longrightarrow> sys_pulled t = sys_pulled s \<Longrightarrow>
   sys_reported t = sys_reported s \<Longrightarrow> write_inv K rest s \<Longrightarrow> write_inv K rest t"
  by (cases "sys_writing s") (simp_all add: write_inv_def write_side_def Let_def)

lemma read_side_frame [simp]:
  "read_side (set_status K v st) = read_side st"
  "read_side (set_id lp i st) = read_side st"
  "read_side (set_path p st) = read_side st"
  "read_side (set_content_length l st) = read_side st"
  "read_side (add_header nm vl st) = read_side st"
  by (simp_all add: read_side_def set_status_def set_id_def set_path_def set_content_length_def
      add_header_def)

lemma write_side_frame [simp]:
  "write_side (set_status K v st) = write_side st"
  "write_side (set_id lp i st) = write_side st"
  "write_side (set_path p st) = write_side st"
  "write_side (set_content_length l st) = write_side st"
  "write_side (add_header nm vl st) = write_side st"
  "write_side (on_read_eof K st) = write_side st"
  by (simp_all add: write_side_def set_status_def set_id_def set_path_def set_content_length_def
      add_header_def on_read_eof_def)

lemma write_side_on_data [simp]: "write_side (on_data K d st) = write_side st"
proof (cases "st_read_sink st")
  case (Some sink)
  then show ?thesis by (cases "sink_put K d sink") (simp add: on_data_sink write_side_def)
qed (simp add: on_data_no_sink write_side_def)

lemma status_co_sides:
  "status_co K st = (out, st') \<Longrightarrow> read_side st' = read_side st \<and> write_side st' = write_side st"
  by (auto simp: status_co_def read_side_def write_side_def split: if_splits)

lemma read_some_write_side:
  "read_some K bp st = Some (out, st', effs) \<Longrightarrow> write_side st' = write_side st"
  by (auto simp: read_some_def write_side_def read_park_def Let_def split: option.splits if_splits)

lemma read_some_resume_write_side:
  "read_some_resume K e sink st = (out, st', effs) \<Longrightarrow> write_side st' = write_side st"
  by (auto simp: read_some_resume_def write_side_def read_park_def Let_def split: if_splits)

lemma write_impl_read_side:
  "write_impl K buffers eof st = (out, st', effs) \<Longrightarrow> read_side st' = read_side st"
  by (auto simp: write_impl_def read_side_def Let_def split: if_splits)

lemma write_impl_resume_read_side:
  "write_impl_resume e st = (r, st') \<Longrightarrow> read_side st' = read_side st"
  by (auto simp: write_impl_resume_def read_side_def)

lemma producer_callback_read_side:
  "producer_callback K len st = (res, eof, st') \<Longrightarrow> read_side st' = read_side st"
  by (auto simp: producer_callback_def read_side_def Let_def split: if_splits)

subsection \<open>Preservation by each action\<close>

lemma init_sys_inv:
  "library_ok K written room rest \<Longrightarrow> sys_inv K written room rest (init_sys K sid prefix)"
  by (simp add: sys_inv_def init_sys_def new_stream_def read_sys_inv_def read_inv_def read_awake_def
      unread_def in_flight_def write_inv_def)

lemma read_inv_data:
  assumes "library_ok K written room rest" "read_sys_inv K written room s"
  shows "read_sys_inv K written room
    (s\<lparr>sys_stream := on_data K d (sys_stream s), sys_received := sys_received s @ d\<rparr>)"
  using assms library_okD [OF assms(1)]
  by (auto simp: read_sys_inv_def on_data_read_inv on_data_unread read_awake_def on_data_wakes
      split: option.split)

lemma read_inv_end:
  assumes "event_ok K" "read_sys_inv K written room s"
    and "read_side st' = (st_chunks (sys_stream s), st_front_offset (sys_stream s),
      st_read_sink (sys_stream s), eof, ev_set K (st_read_ready (sys_stream s)), cl)"
  shows "read_sys_inv K written room (s\<lparr>sys_stream := st'\<rparr>)"
  using assms
  by (auto simp: read_sys_inv_def read_inv_def read_awake_def unread_def in_flight_def read_side_def
      event_ok_def split: option.splits)

lemma read_inv_read:
  assumes lib: "library_ok K written room rest" and inv: "read_sys_inv K written room s"
    and idle: "st_read_sink (sys_stream s) = None" and fresh: "written bp = []"
    and rd: "read_some K bp (sys_stream s) = Some (out, st', effs)"
  shows "read_sys_inv K written room
    (s\<lparr>sys_stream := st', sys_delivered := sys_delivered s @ returned written out,
       sys_consumed := sys_consumed s + credited effs\<rparr>)"
proof -
  let ?st = "sys_stream s" and ?q = "buffered (st_chunks (sys_stream s)) (st_front_offset (sys_stream s))"
  note L = library_okD [OF lib]
  have wf: "chunks_wf (st_chunks ?st) (st_front_offset ?st)"
    using inv by (simp add: read_sys_inv_def read_inv_def)
  show ?thesis
  proof (cases "room bp = 0 \<or> ?q = []")
    case True
    with read_some_no_data [OF L(2) wf True] rd inv idle fresh L(1) show ?thesis
      by (auto simp: read_sys_inv_def read_inv_def read_awake_def unread_def in_flight_def
          read_park_def event_ok_def buffered_eq_Nil_iff split: if_splits)
  next
    case False
    then have pos: "0 < min (room bp) (length ?q)" by simp
    from read_some_data [OF L(2) wf refl pos] obtain chunks front bp' where
      "read_some K bp ?st = Some (Read_done (None, min (room bp) (length ?q)) bp',
         ?st\<lparr>st_chunks := chunks, st_front_offset := front\<rparr>,
         [Consume_stream (st_id ?st) (min (room bp) (length ?q)), Start_write])"
      and w: "written bp' = written bp @ take (min (room bp) (length ?q)) ?q"
      and b: "buffered chunks front = drop (min (room bp) (length ?q)) ?q" "chunks_wf chunks front" .
    with rd have out: "out = Read_done (None, min (room bp) (length ?q)) bp'"
      "st' = ?st\<lparr>st_chunks := chunks, st_front_offset := front\<rparr>"
      "effs = [Consume_stream (st_id ?st) (min (room bp) (length ?q)), Start_write]" by auto
    from inv idle fresh w b show ?thesis
      by (auto simp: out read_sys_inv_def read_inv_def read_awake_def unread_def in_flight_def)
  qed
qed

lemma read_inv_wake:
  assumes "event_ok K" and inv: "read_sys_inv K written room s"
    and sink: "st_read_sink (sys_stream s) = Some sink"
    and res: "read_some_resume K e sink (sys_stream s) = (out, st', effs)"
  shows "read_sys_inv K written room
    (s\<lparr>sys_stream := st', sys_delivered := sys_delivered s @ returned written out,
       sys_consumed := sys_consumed s + credited effs\<rparr>)"
  using assms
  by (auto simp: read_some_resume_def Let_def consume_def read_sys_inv_def read_inv_def read_awake_def
      unread_def in_flight_def read_park_def event_ok_def split: if_splits)

lemma write_inv_close:
  "event_ok K \<Longrightarrow> write_inv K rest s \<Longrightarrow> write_inv K rest (s\<lparr>sys_stream := on_close K (sys_stream s)\<rparr>)"
  by (cases "sys_writing s") (simp_all add: write_inv_def on_close_def Let_def event_ok_def)

lemma write_inv_write:
  assumes "source_ok K rest" "write_inv K rest s" "\<not> sys_writing s"
    "write_impl K buffers eof (sys_stream s) = (Write_parked, st', effs)"
  shows "write_inv K rest
    (s\<lparr>sys_stream := st', sys_writing := True, sys_write_data := rest (cb_array K buffers)\<rparr>)"
  using assms by (auto simp: write_inv_def write_impl_def Let_def source_ok_def split: if_splits)

lemma write_inv_wake:
  assumes "write_inv K rest s" "sys_writing s" "write_impl_resume e (sys_stream s) = ((e, n), st')"
  shows "write_inv K rest
    (s\<lparr>sys_stream := st', sys_writing := False,
       sys_reported := sys_reported s @ take n (sys_write_data s)\<rparr>)"
  using assms by (auto simp: write_inv_def write_impl_resume_def Let_def)

lemma write_inv_pull:
  assumes "event_ok K" "source_ok K rest" "write_inv K rest s"
    and "producer_callback K len (sys_stream s) = (res, eof, st')"
  shows "write_inv K rest (s\<lparr>sys_stream := st', sys_pulled := sys_pulled s @ pulled_bytes res\<rparr>)"
proof (cases "st_write_pending (sys_stream s)")
  case False
  with assms show ?thesis by (auto simp: write_inv_def producer_callback_def Let_def)
next
  case True
  let ?st = "sys_stream s" and ?D = "sys_write_data s"
  define bs where "bs = take len (drop (st_write_offset ?st) ?D)"
  from assms(3) True have s: "sys_writing s" "\<not> st_write_deferred ?st"
    "rest (st_pending ?st) = drop (st_write_offset ?st) ?D" "cb_byte_size K (st_pending ?st) = length ?D"
    "sys_pulled s = sys_reported s @ take (st_write_offset ?st) ?D" "st_write_offset ?st \<le> length ?D"
    "ev_is_set K (st_write_progress ?st) \<or> \<not> st_closed ?st"
    by (auto simp: write_inv_def Let_def)
  have cp: "cb_copy K (st_pending ?st) len = bs" using assms(2) s(3) by (simp add: source_ok_def bs_def)
  have res: "res = Copied bs"
    using assms(4) True by (auto simp: producer_callback_def cp Let_def split: if_splits)
  have "take (st_write_offset ?st + length bs) ?D = take (st_write_offset ?st) ?D @ bs"
    unfolding bs_def by (rule take_extend)
  moreover have "rest (cb_consume K (st_pending ?st) (length bs)) = drop (st_write_offset ?st + length bs) ?D"
    using assms(2) s(3) by (simp add: source_ok_def add.commute)
  moreover have "cb_byte_size K (cb_consume K (st_pending ?st) (length bs)) = length ?D"
    using assms(2) s(4) by (simp add: source_ok_def)
  moreover have "st_write_offset ?st + length bs \<le> length ?D"
    using s(6) by (simp add: bs_def)
  ultimately show ?thesis
    using assms(1,4) True s
    by (auto simp: write_inv_def producer_callback_def cp res Let_def event_ok_def split: if_splits)
qed

lemma stream_step_inv:
  assumes "stream_step K written rest s t" and "sys_inv K written room rest s"
  shows "sys_inv K written room rest t"
  using assms
proof (induction rule: stream_step.induct)
  case (step_data s d)
  then show ?case by (auto simp: sys_inv_def intro!: read_inv_data write_inv_frame [where s = s])
next
  case (step_read_eof s)
  then show ?case
    by (auto simp: sys_inv_def library_ok_def intro!: read_inv_end write_inv_frame [where s = s])
      (simp add: read_side_def on_read_eof_def)
next
  case (step_close s)
  then show ?case
    by (auto simp: sys_inv_def library_ok_def intro!: read_inv_end write_inv_close)
      (simp add: read_side_def on_close_def)
next
  case (step_read s bp out st' effs)
  then show ?case
    by (auto simp: sys_inv_def intro!: read_inv_read
        write_inv_frame [where s = s] dest: read_some_write_side)
next
  case (step_read_wake s sink e out st' effs)
  then show ?case
    by (auto simp: sys_inv_def library_ok_def intro!: read_inv_wake
        write_inv_frame [where s = s] dest: read_some_resume_write_side)
next
  case (step_write s buffers eof st' effs)
  then show ?case
    by (auto simp: sys_inv_def library_ok_def intro!: read_sys_inv_frame [where s = s] write_inv_write
        dest: write_impl_read_side)
next
  case (step_write_wake s e n st')
  then show ?case
    by (auto simp: sys_inv_def intro!: read_sys_inv_frame [where s = s] write_inv_wake
        dest: write_impl_resume_read_side)
next
  case (step_pull len s res eof st')
  then show ?case
    by (auto simp: sys_inv_def library_ok_def intro!: read_sys_inv_frame [where s = s] write_inv_pull
        dest: producer_callback_read_side)
next
  case (step_ask s out st')
  then show ?case
    by (auto simp: sys_inv_def dest!: status_co_sides intro!: read_sys_inv_frame [where s = s] write_inv_frame [where s = s])
next
  case (step_ask_wake s e)
  then show ?case by (auto simp: sys_inv_def intro!: read_sys_inv_frame [where s = s] write_inv_frame [where s = s])
next
  case (step_set_status s v)
  then show ?case
    by (auto simp: sys_inv_def intro!: read_sys_inv_frame [where s = s] write_inv_frame [where s = s])
next
  case (step_set_id s lp i)
  then show ?case
    by (auto simp: sys_inv_def intro!: read_sys_inv_frame [where s = s] write_inv_frame [where s = s])
next
  case (step_set_path s p)
  then show ?case
    by (auto simp: sys_inv_def intro!: read_sys_inv_frame [where s = s] write_inv_frame [where s = s])
next
  case (step_set_content_length s l)
  then show ?case
    by (auto simp: sys_inv_def intro!: read_sys_inv_frame [where s = s] write_inv_frame [where s = s])
next
  case (step_add_header s nm vl)
  then show ?case
    by (auto simp: sys_inv_def intro!: read_sys_inv_frame [where s = s] write_inv_frame [where s = s])
qed

definition starts ::
  "('e, 'b, 'c) capy \<Rightarrow> ('b \<Rightarrow> byte list) \<Rightarrow> ('b \<Rightarrow> nat) \<Rightarrow> ('c \<Rightarrow> byte list)
    \<Rightarrow> ('e, 'b, 'c) stream_sys \<Rightarrow> bool" where
  "starts K written room rest s \<longleftrightarrow>
     library_ok K written room rest \<and> (\<exists>sid prefix. s = init_sys K sid prefix)"

interpretation stream_inv: step_invariant "starts K written room rest" "stream_step K written rest"
  "sys_inv K written room rest"
  for K :: "('e, 'b, 'c) capy" and written room rest
  by unfold_locales (auto simp: starts_def init_sys_inv intro: stream_step_inv)

section \<open>What a read comes back with\<close>

text \<open>
  The results of a read with room for a byte on a stream of the system, of its first part and of a
  resumption.
\<close>

lemma read_some_cases:
  assumes "library_ok K written room rest" "sys_inv K written room rest s"
    and "st_read_sink (sys_stream s) = None" "written buf = []" "0 < room buf"
    and "read_some K buf (sys_stream s) = Some (out, st', effs)"
  obtains (data) n bp where "out = Read_done (None, n) bp" "st_read_sink st' = None"
      "returned written out \<noteq> []" "length (returned written out) = n" "n \<le> room buf"
  | (ended) "out = Read_done (eof_error (sys_stream s), 0) buf" "st' = sys_stream s"
      "st_read_eof (sys_stream s) \<or> st_closed (sys_stream s)" "sys_received s = sys_delivered s"
  | (parked) "out = Read_parked" "st' = read_park K \<lparr>sink_bp = buf, sink_copied = 0\<rparr> (sys_stream s)"
proof -
  let ?st = "sys_stream s" and ?q = "buffered (st_chunks (sys_stream s)) (st_front_offset (sys_stream s))"
  note ok = library_okD(2) [OF assms(1)]
  have inv: "chunks_wf (st_chunks ?st) (st_front_offset ?st)" "sys_received s = sys_delivered s @ ?q"
    using assms(2,3) by (auto simp: sys_inv_def read_sys_inv_def read_inv_def unread_def in_flight_def)
  show ?thesis
  proof (cases "?q = []")
    case True
    with inv(2) have "sys_received s = sys_delivered s" by simp
    with read_some_no_data [OF ok inv(1), of buf] True assms(6) show ?thesis
      by (cases "st_read_eof ?st \<or> st_closed ?st") (simp_all add: ended parked)
  next
    case False
    define n where "n = min (room buf) (length ?q)"
    with False assms(5) have pos: "0 < n" by simp
    from read_some_data [OF ok inv(1) n_def pos] obtain chunks front bp where
      "read_some K buf ?st = Some (Read_done (None, n) bp,
         ?st\<lparr>st_chunks := chunks, st_front_offset := front\<rparr>, [Consume_stream (st_id ?st) n, Start_write])"
      and "written bp = written buf @ take n ?q" .
    moreover have "n \<le> room buf" "n \<le> length ?q" by (simp_all add: n_def)
    ultimately show ?thesis using assms(3,4,6) False pos by (intro data) auto
  qed
qed

lemma read_resume_cases:
  assumes "sys_inv K written room rest s" "st_read_sink (sys_stream s) = Some sink"
    and "room (sink_bp sink) + sink_copied sink = k" "0 < k"
    and "e = None \<or> e = Some Error_canceled"
    and "read_some_resume K e sink (sys_stream s) = (out, st', effs)"
  obtains (data) n bp where "out = Read_done (None, n) bp" "st_read_sink st' = None"
      "returned written out \<noteq> []" "length (returned written out) = n" "n \<le> k"
  | (ended) "out = Read_done (eof_error (sys_stream s), 0) (sink_bp sink)"
      "st' = (sys_stream s)\<lparr>st_read_sink := None\<rparr>"
      "st_read_eof (sys_stream s) \<or> st_closed (sys_stream s)" "sys_received s = sys_delivered s"
  | (canceled) "out = Read_done (Some Error_canceled, 0) (sink_bp sink)"
      "st' = (sys_stream s)\<lparr>st_read_sink := None\<rparr>"
  | (parked) "out = Read_parked" "st' = read_park K sink ((sys_stream s)\<lparr>st_read_sink := None\<rparr>)"
proof -
  have received: "sys_received s = sys_delivered s" if "sink_copied sink = 0"
    using assms(1-4) that
    by (auto simp: sys_inv_def read_sys_inv_def read_inv_def unread_def in_flight_def)
  consider "0 < sink_copied sink" | "sink_copied sink = 0" "e = Some Error_canceled"
    | "sink_copied sink = 0" "e = None" using assms(5) by auto
  then show ?thesis
  proof cases
    case 1
    moreover have "sink_copied sink = length (written (sink_bp sink))"
      using assms(1,2) by (auto simp: sys_inv_def read_sys_inv_def read_inv_def)
    ultimately show ?thesis
      using assms(3,6) by (intro data) (auto simp: read_some_resume_def Let_def)
  next
    case 2
    with assms(6) show ?thesis by (intro canceled) (auto simp: read_some_resume_def Let_def)
  next
    case 3
    show ?thesis
    proof (cases "st_read_eof (sys_stream s) \<or> st_closed (sys_stream s)")
      case True
      with 3 assms(6) received show ?thesis
        by (intro ended) (auto simp: read_some_resume_def Let_def eof_error_def)
    next
      case False
      with 3 assms(6) show ?thesis by (intro parked) (auto simp: read_some_resume_def Let_def)
    qed
  qed
qed

end
