(* ===== verification/Session_Streams.thy ===== *)
theory Session_Streams
  imports Session Stream_System
begin

text \<open>
  The stream table of a session and what the nghttp2 callbacks do through it. The locale
  \<open>stream_table\<close> states the laws of the table; \<open>session_inv\<close> says that the table is a bijection
  between the registered identifiers and live objects that carry them. \<open>deliver\<close> is what one
  callback does to one stream, and the main lemma of the theory is that a whole library call acts
  on every registered stream as the sequence of its own callbacks, however the peer interleaves
  the streams of the connection.
\<close>

section \<open>The table\<close>

locale stream_table =
  fixes lookup :: "'m \<Rightarrow> 'k \<Rightarrow> 'v option"
    and insert :: "'k \<Rightarrow> 'v \<Rightarrow> 'm \<Rightarrow> 'm"
    and remove :: "'k \<Rightarrow> 'm \<Rightarrow> 'm"
    and empty :: 'm
  assumes lookup_empty: "lookup empty k = None"
    and lookup_insert:
      "lookup (insert k v m) j = (if j = k \<and> lookup m k = None then Some v else lookup m j)"
    and lookup_remove: "lookup (remove k m) j = (if j = k then None else lookup m j)"
begin

lemma lookup_insert_same:
  "lookup (insert k v m) k = Some (case lookup m k of None \<Rightarrow> v | Some w \<Rightarrow> w)"
  by (simp add: lookup_insert split: option.split)

lemma lookup_insert_keeps: "lookup m j = Some w \<Longrightarrow> lookup (insert k v m) j = Some w"
  by (auto simp: lookup_insert)

lemma lookup_remove_insert: "lookup (remove k (insert k v m)) = lookup (remove k m)"
  by (rule ext) (simp add: lookup_insert lookup_remove)

end

interpretation table: stream_table map_of emplace AList.delete "[]"
proof unfold_locales
  fix k j :: 'k and v :: 'v and m :: "('k \<times> 'v) list"
  show "map_of (emplace k v m) j = (if j = k \<and> map_of m k = None then Some v else map_of m j)"
    by (auto simp: emplace_def split: option.split)
  show "map_of (AList.delete k m) j = (if j = k then None else map_of m j)"
    by (simp add: AList.delete_conv)
qed simp

lemma emplace_set:
  "set (emplace k v m) = (if map_of m k = None then {(k, v)} else {}) \<union> set m"
  by (auto simp: emplace_def split: option.split)

lemma distinct_emplace:
  "distinct (map fst m) \<Longrightarrow> distinct (map fst (emplace k v m))"
  by (auto simp: emplace_def map_of_eq_None_iff split: option.split)

section \<open>The invariant\<close>

definition session_inv :: "('ng, 'e, 'b, 'c) session \<Rightarrow> bool" where
  "session_inv s \<longleftrightarrow>
     distinct (map fst (ss_streams s)) \<and> distinct (map snd (ss_streams s)) \<and>
     (\<forall>(sid, a) \<in> set (ss_streams s).
        a < length (ss_objects s) \<and> st_id (ss_objects s ! a) = sid \<and>
        \<not> st_closed (ss_objects s ! a)) \<and>
     (\<forall>a \<in> set (ss_spawned s). a < length (ss_objects s))"

lemma session_invD:
  assumes "session_inv s" and "find_stream s sid = Some a"
  shows "a < length (ss_objects s)" "st_id (ss_objects s ! a) = sid" "\<not> st_closed (ss_objects s ! a)"
  using assms by (auto simp: session_inv_def find_stream_def dest!: map_of_SomeD)

lemma find_stream_unique:
  assumes "session_inv s" "find_stream s i = Some a" "find_stream s j = Some a"
  shows "i = j"
  using session_invD [OF assms(1,2)] session_invD [OF assms(1,3)] by simp

lemma find_stream_registered:
  "session_inv s \<Longrightarrow> find_stream s sid = Some a \<longleftrightarrow> (sid, a) \<in> set (ss_streams s)"
  by (simp add: session_inv_def find_stream_def)

lemma session_inv_new: "session_inv (new_session K r handler)"
  by (simp add: session_inv_def new_session_def)

text \<open>Changes that leave the table, the objects and the list of handlers alone.\<close>

lemma session_inv_native [simp]: "session_inv (s\<lparr>ss_native := g\<rparr>) = session_inv s"
  by (simp add: session_inv_def)

lemma session_inv_with_native [simp]: "session_inv (with_native f s) = session_inv s"
  by (simp add: with_native_def)

lemma session_inv_start_write [simp]: "session_inv (start_write K s) = session_inv s"
  by (simp add: start_write_def session_inv_def)

lemma find_stream_frame [simp]:
  "find_stream (s\<lparr>ss_native := g\<rparr>) = find_stream s"
  "find_stream (with_native f s) = find_stream s"
  "find_stream (start_write K s) = find_stream s"
  "find_stream (update_object a u s) = find_stream s"
  "find_stream (with_stream sid u s) = find_stream s"
  "find_stream (dispatch_request a s) = find_stream s"
  by (auto simp: fun_eq_iff find_stream_def with_native_def start_write_def update_object_def
      with_stream_def dispatch_request_def split: option.split)

lemma objects_frame [simp]:
  "ss_objects (with_native f s) = ss_objects s"
  "ss_objects (start_write K s) = ss_objects s"
  "ss_objects (dispatch_request a s) = ss_objects s"
  by (simp_all add: with_native_def start_write_def dispatch_request_def)

lemma length_objects [simp]:
  "length (ss_objects (update_object a u s)) = length (ss_objects s)"
  "length (ss_objects (with_stream sid u s)) = length (ss_objects s)"
  by (auto simp: update_object_def with_stream_def split: option.split)

lemma object_update_object:
  "ss_objects (update_object a u s) ! b =
     (if a = b \<and> a < length (ss_objects s) then u (ss_objects s ! a) else ss_objects s ! b)"
  by (simp add: update_object_def)

lemma object_with_stream:
  assumes "session_inv s"
  shows "ss_objects (with_stream sid u s) ! b =
    (if find_stream s sid = Some b then u (ss_objects s ! b) else ss_objects s ! b)"
  using session_invD(1) [OF assms, of sid]
  by (auto simp: with_stream_def object_update_object split: option.split)

lemma session_inv_update_object:
  assumes "\<And>st. st_id (u st) = st_id st" and "\<And>st. st_closed (u st) = st_closed st"
  shows "session_inv s \<Longrightarrow> session_inv (update_object a u s)"
  using assms by (auto simp: session_inv_def update_object_def nth_list_update)

lemma session_inv_with_stream:
  "(\<And>st. st_id (u st) = st_id st) \<Longrightarrow> (\<And>st. st_closed (u st) = st_closed st)
    \<Longrightarrow> session_inv s \<Longrightarrow> session_inv (with_stream sid u s)"
  by (simp add: with_stream_def session_inv_update_object split: option.split)

text \<open>No operation but \<open>set_id\<close> changes a stream's identifier, and none but \<open>on_close\<close> the flag \<open>closed_\<close>.\<close>

lemma st_id_frame [simp]:
  "st_id (set_path p st) = st_id st"
  "st_id (set_content_length n st) = st_id st"
  "st_id (add_header name value st) = st_id st"
  "st_id (set_status K v st) = st_id st"
  "st_id (on_read_eof K st) = st_id st"
  "st_id (on_close K st) = st_id st"
  by (simp_all add: set_path_def set_content_length_def add_header_def set_status_def on_read_eof_def
      on_close_def)

lemma st_closed_frame [simp]:
  "st_closed (set_path p st) = st_closed st"
  "st_closed (set_content_length n st) = st_closed st"
  "st_closed (add_header name value st) = st_closed st"
  "st_closed (set_status K v st) = st_closed st"
  "st_closed (on_read_eof K st) = st_closed st"
  by (simp_all add: set_path_def set_content_length_def add_header_def set_status_def on_read_eof_def)

lemma on_data_frame [simp]:
  "st_id (on_data K d st) = st_id st" "st_closed (on_data K d st) = st_closed st"
  by (auto simp: on_data_def Let_def split: option.split prod.split)

section \<open>Preservation by every callback\<close>

lemma session_inv_object:
  "session_inv s \<Longrightarrow> session_inv (s\<lparr>ss_objects := ss_objects s @ [st]\<rparr>)"
  by (fastforce simp: session_inv_def nth_append)

lemma session_inv_register:
  assumes "session_inv s" "st_id st = sid" "\<not> st_closed st"
  shows "session_inv (s\<lparr>ss_objects := ss_objects s @ [st],
    ss_streams := emplace sid (length (ss_objects s)) (ss_streams s)\<rparr>)"
  using assms
  by (auto simp: session_inv_def emplace_def nth_append map_of_eq_None_iff split: option.split)

lemma create_stream_inv:
  assumes "session_inv s"
  shows "session_inv (snd (create_stream K sid s))"
  using session_inv_register [OF assms, of "new_stream K sid (log_prefix (ss_role s) sid)" sid]
  by (simp add: create_stream_def Let_def new_stream_def session_inv_def)

lemma close_stream_inv:
  assumes "session_inv s"
  shows "session_inv (close_stream K sid s)"
proof (cases "find_stream s sid")
  case (Some a)
  have other: "b \<noteq> a" if "(j, b) \<in> set (ss_streams s)" "j \<noteq> sid" for j b
    using that find_stream_unique [OF assms _ Some] find_stream_registered [OF assms] by blast
  show ?thesis
    using Some assms
    by (auto simp: close_stream_def session_inv_def Let_def AList.delete_eq update_object_def
        nth_list_update intro: distinct_map_filter dest: other)
qed (simp add: close_stream_def assms)

lemma dispatch_request_inv:
  "session_inv s \<Longrightarrow> find_stream s sid = Some a \<Longrightarrow> session_inv (dispatch_request a s)"
  using session_invD(1) [of s sid a] by (auto simp: session_inv_def dispatch_request_def)

text \<open>A header field as an operation on the stream it belongs to.\<close>

definition header_field ::
  "('e, 'b, 'c) capy \<Rightarrow> string \<Rightarrow> string \<Rightarrow> ('e, 'b, 'c) stream \<Rightarrow> ('e, 'b, 'c) stream" where
  "header_field K name value st =
     (if name = '':path'' then set_path value st
      else if name = '':status'' then set_status K (parse_status value) st
      else if name \<noteq> [] \<and> hd name = CHR '':'' then st
      else add_header name value
        (case (if name = ''content-length'' then parse_content_length value else None) of
           None \<Rightarrow> st | Some n \<Rightarrow> set_content_length n st))"

lemma with_stream_comp: "with_stream sid g (with_stream sid f s) = with_stream sid (\<lambda>st. g (f st)) s"
  by (simp add: with_stream_def update_object_def find_stream_def split: option.split)

lemma with_stream_id: "with_stream sid (\<lambda>st. st) s = s"
  by (simp add: with_stream_def update_object_def split: option.split)

lemma on_header_callback_field:
  "on_header_callback K f name value s = with_stream (fr_stream_id f) (header_field K name value) s"
proof -
  consider "name = '':path''" | "name = '':status''" | "name = ''content-length''"
    | "name \<notin> {'':path'', '':status'', ''content-length''}" by blast
  then show ?thesis
  proof cases
    case 3
    then show ?thesis
      by (simp add: on_header_callback_def header_field_def [abs_def] with_stream_comp
          split: option.split)
  qed (simp_all add: on_header_callback_def header_field_def [abs_def] with_stream_id)
qed

lemma header_field_frame [simp]:
  "st_id (header_field K name value st) = st_id st"
  "st_closed (header_field K name value st) = st_closed st"
  by (simp_all add: header_field_def split: option.split)

lemma on_header_callback_inv:
  "session_inv s \<Longrightarrow> session_inv (on_header_callback K f name value s)"
  by (simp add: on_header_callback_field session_inv_with_stream)

lemma on_frame_recv_callback_inv:
  "session_inv s \<Longrightarrow> session_inv (on_frame_recv_callback K f s)"
  by (auto simp: on_frame_recv_callback_def Let_def dispatch_request_inv
      intro!: session_inv_with_stream split: option.split)

lemma data_source_read_callback_inv:
  "session_inv s \<Longrightarrow> session_inv (snd (data_source_read_callback K a len s))"
  by (auto simp: data_source_read_callback_def session_inv_def update_object_def nth_list_update
      dest: producer_callback_frame split: prod.split)

lemma run_callback_inv: "session_inv s \<Longrightarrow> session_inv (snd (run_callback K N cb s))"
  by (cases cb)
    (simp_all add: on_begin_headers_callback_def create_stream_inv on_header_callback_inv
      on_frame_recv_callback_inv on_data_chunk_recv_callback_def session_inv_with_stream
      on_stream_close_callback_def close_stream_inv data_source_read_callback_inv)

section \<open>Library calls\<close>

text \<open>The callbacks a library call makes, in order.\<close>

primrec callbacks_of ::
  "('e, 'b, 'c) capy \<Rightarrow> 'ng nghttp2 \<Rightarrow> ('ng, 'r) ng_call \<Rightarrow> ('ng, 'e, 'b, 'c) session
    \<Rightarrow> callback list" where
  "callbacks_of K N (Ng_return r g) = (\<lambda>s. [])"
| "callbacks_of K N (Ng_callback cb g k) =
     (\<lambda>s. case run_callback K N cb (s\<lparr>ss_native := Some g\<rparr>) of
        (rep, s1) \<Rightarrow>
          cb # callbacks_of K N (k (case ss_native s1 of None \<Rightarrow> g | Some g1 \<Rightarrow> g1) rep) s1)"

text \<open>
  What is proved of one callback holds of a whole call. \<open>rel s cbs t\<close> relates the session before,
  the callbacks made and the session after; the library's own state is not the program's.
\<close>

locale callback_relation =
  fixes K :: "('e, 'b, 'c) capy"
    and N :: "'ng nghttp2"
    and rel :: "('ng, 'e, 'b, 'c) session \<Rightarrow> callback list \<Rightarrow> ('ng, 'e, 'b, 'c) session \<Rightarrow> bool"
  assumes rel_return: "rel s [] (s\<lparr>ss_native := Some g\<rparr>)"
    and rel_callback:
      "rel (snd (run_callback K N cb (s\<lparr>ss_native := Some g\<rparr>))) cbs t \<Longrightarrow> rel s (cb # cbs) t"
begin

lemma rel_call: "rel s (callbacks_of K N call s) (snd (run_ng_call K N call s))"
proof (induction "call" arbitrary: s)
  case (Ng_return r g)
  show ?case by (simp add: rel_return)
next
  case (Ng_callback cb g k)
  obtain rep s1 where cb: "run_callback K N cb (s\<lparr>ss_native := Some g\<rparr>) = (rep, s1)" by fastforce
  show ?case
    using rel_callback [where cb = cb and s = s and g = g] Ng_callback.IH [OF rangeI rangeI, where s = s1]
    by (simp add: cb)
qed

end

interpretation call_inv: callback_relation K N "\<lambda>s cbs t. session_inv s \<longrightarrow> session_inv t" for K N
  by unfold_locales (simp_all add: run_callback_inv)

section \<open>Demultiplexing\<close>

text \<open>What a callback does to the stream object at address \<open>a\<close> registered under \<open>sid\<close>.\<close>

fun deliver ::
  "('e, 'b, 'c) capy \<Rightarrow> stream_id \<Rightarrow> addr \<Rightarrow> callback \<Rightarrow> ('e, 'b, 'c) stream
    \<Rightarrow> ('e, 'b, 'c) stream" where
  "deliver K sid a (Cb_header f name value) st =
     (if fr_stream_id f = sid then header_field K name value st else st)"
| "deliver K sid a (Cb_frame_recv f) st =
     (if fr_stream_id f = sid \<and> (fr_type f = NGHTTP2_HEADERS \<or> fr_type f = NGHTTP2_DATA) \<and> fr_end_stream f
      then on_read_eof K st else st)"
| "deliver K sid a (Cb_data_chunk_recv j data) st = (if j = sid then on_data K data st else st)"
| "deliver K sid a (Cb_stream_close j e) st = (if j = sid then on_close K st else st)"
| "deliver K sid a (Cb_data_source_read b len) st =
     (if b = a then snd (snd (producer_callback K len st)) else st)"
| "deliver K sid a _ st = st"

definition closes :: "stream_id \<Rightarrow> callback \<Rightarrow> bool" where
  "closes sid cb \<longleftrightarrow> (case cb of Cb_stream_close j e \<Rightarrow> j = sid | _ \<Rightarrow> False)"

lemma find_stream_create:
  "find_stream s sid = Some a \<Longrightarrow> find_stream (snd (create_stream K j s)) sid = Some a"
  by (simp add: find_stream_def create_stream_def Let_def table.lookup_insert_keeps)

lemma find_stream_close:
  "find_stream (close_stream K j s) sid = (if sid = j then None else find_stream s sid)"
  by (auto simp: find_stream_def close_stream_def update_object_def Let_def table.lookup_remove
      split: option.split)

lemma find_stream_data_source [simp]:
  "find_stream (snd (data_source_read_callback K b len s)) = find_stream s"
  by (simp add: data_source_read_callback_def split: prod.split)

lemma find_stream_on_frame_recv [simp]:
  "find_stream (on_frame_recv_callback K f s) = find_stream s"
  by (simp add: on_frame_recv_callback_def Let_def split: option.split)

lemma run_callback_find_stream:
  assumes "find_stream s sid = Some a" "\<not> closes sid cb"
  shows "find_stream (snd (run_callback K N cb s)) sid = Some a"
  using assms
  by (cases cb)
    (simp_all add: on_begin_headers_callback_def find_stream_create on_header_callback_field closes_def
      on_data_chunk_recv_callback_def on_stream_close_callback_def find_stream_close)

lemma create_stream_object:
  "a < length (ss_objects s) \<Longrightarrow> ss_objects (snd (create_stream K j s)) ! a = ss_objects s ! a"
  by (simp add: create_stream_def Let_def nth_append)

lemma close_stream_object:
  assumes "session_inv s"
  shows "ss_objects (close_stream K j s) ! a =
    (if find_stream s j = Some a then on_close K (ss_objects s ! a) else ss_objects s ! a)"
  using session_invD(1) [OF assms, of j]
  by (auto simp: close_stream_def Let_def object_update_object split: option.split)

lemma on_frame_recv_object:
  assumes "session_inv s"
  shows "ss_objects (on_frame_recv_callback K f s) ! a =
    (if find_stream s (fr_stream_id f) = Some a \<and>
        (fr_type f = NGHTTP2_HEADERS \<or> fr_type f = NGHTTP2_DATA) \<and> fr_end_stream f
     then on_read_eof K (ss_objects s ! a) else ss_objects s ! a)"
  using assms
  by (auto simp: on_frame_recv_callback_def Let_def object_with_stream dispatch_request_inv
      split: option.split)

lemma data_source_object:
  "a < length (ss_objects s) \<Longrightarrow> ss_objects (snd (data_source_read_callback K b len s)) ! a =
     (if b = a then snd (snd (producer_callback K len (ss_objects s ! a))) else ss_objects s ! a)"
  by (auto simp: data_source_read_callback_def object_update_object split: prod.split)

lemma run_callback_deliver:
  assumes inv: "session_inv s" and "find": "find_stream s sid = Some a"
  shows "ss_objects (snd (run_callback K N cb s)) ! a = deliver K sid a cb (ss_objects s ! a)"
proof -
  have only: "find_stream s j = Some a \<longleftrightarrow> j = sid" for j
    using find_stream_unique [OF inv _ "find", of j] "find" by blast
  note a = session_invD(1) [OF inv "find"]
  show ?thesis
  proof (cases cb)
    case (Cb_begin_headers f)
    with a show ?thesis by (simp add: on_begin_headers_callback_def create_stream_object)
  next
    case (Cb_header f name val)
    then show ?thesis by (simp add: on_header_callback_field object_with_stream [OF inv] only)
  next
    case (Cb_frame_recv f)
    then show ?thesis by (simp add: on_frame_recv_object [OF inv] only)
  next
    case (Cb_data_chunk_recv j d)
    with inv show ?thesis by (simp add: on_data_chunk_recv_callback_def object_with_stream only)
  next
    case (Cb_stream_close j e)
    then show ?thesis by (simp add: on_stream_close_callback_def close_stream_object [OF inv] only)
  next
    case (Cb_data_source_read b len)
    with a show ?thesis by (simp add: data_source_object)
  qed simp_all
qed

definition demux ::
  "('e, 'b, 'c) capy \<Rightarrow> stream_id \<Rightarrow> addr \<Rightarrow> ('ng, 'e, 'b, 'c) session \<Rightarrow> callback list
    \<Rightarrow> ('ng, 'e, 'b, 'c) session \<Rightarrow> bool" where
  "demux K sid a s cbs t \<longleftrightarrow>
     (session_inv s \<longrightarrow> find_stream s sid = Some a \<longrightarrow> (\<forall>cb\<in>set cbs. \<not> closes sid cb) \<longrightarrow>
      find_stream t sid = Some a \<and>
      ss_objects t ! a = foldl (\<lambda>st cb. deliver K sid a cb st) (ss_objects s ! a) cbs)"

interpretation call_demux: callback_relation K N "demux K sid a"
  for K :: "('e, 'b, 'c) capy" and N :: "'ng nghttp2" and sid a
proof unfold_locales
  fix s t :: "('ng, 'e, 'b, 'c) session" and cb cbs g
  let ?s = "s\<lparr>ss_native := Some g\<rparr>"
  assume "demux K sid a (snd (run_callback K N cb ?s)) cbs t"
  then show "demux K sid a s (cb # cbs) t"
    using run_callback_inv [of ?s K N cb] run_callback_find_stream [of ?s sid a cb K N]
      run_callback_deliver [of ?s sid a K N cb]
    by (simp add: demux_def)
qed (simp add: demux_def)

end
