(* ===== verification/Session_System.thy ===== *)
theory Session_System
  imports Session_Streams
begin

text \<open>
  A session with everything that can act on it: the library calls of the two loops with all their
  callbacks, requests submitted by the user, responses, request handlers, and any number of
  reading, writing and status coroutines on its streams. The steps interleave in any order.

  The invariant says two things. The stream table is consistent (\<open>session_inv\<close>), and every stream
  object is in a state that the stream system of theory \<open>Stream_System\<close> can reach: the session
  is a refinement of one stream system per object, so each theorem about a single stream holds of
  every stream of every session.
\<close>

section \<open>What a session does to one object\<close>

text \<open>A change of an object that some stream steps explain.\<close>

definition evolves ::
  "('e, 'b, 'c) capy \<Rightarrow> ('b \<Rightarrow> byte list) \<Rightarrow> ('c \<Rightarrow> byte list)
    \<Rightarrow> ('e, 'b, 'c) stream \<Rightarrow> ('e, 'b, 'c) stream \<Rightarrow> bool" where
  "evolves K written rest st st' \<longleftrightarrow>
     (\<forall>g. sys_stream g = st \<longrightarrow>
        (\<exists>g'. (stream_step K written rest)\<^sup>*\<^sup>* g g' \<and> sys_stream g' = st' \<and>
              sys_writing g' = sys_writing g \<and> sys_asking g' = sys_asking g))"

lemma evolves_refl [simp]: "evolves K written rest st st"
  by (auto simp: evolves_def)

lemma evolves_trans [trans]:
  "evolves K written rest st st1 \<Longrightarrow> evolves K written rest st1 st2 \<Longrightarrow> evolves K written rest st st2"
  unfolding evolves_def by (metis rtranclp_trans)

lemma evolves_step:
  assumes "\<And>g. sys_stream g = st \<Longrightarrow>
    \<exists>g'. stream_step K written rest g g' \<and> sys_stream g' = st' \<and>
         sys_writing g' = sys_writing g \<and> sys_asking g' = sys_asking g"
  shows "evolves K written rest st st'"
  unfolding evolves_def
proof (intro allI impI)
  fix g :: "('a, 'b, 'c) stream_sys"
  assume "sys_stream g = st"
  from assms [OF this] show "\<exists>g'. (stream_step K written rest)\<^sup>*\<^sup>* g g' \<and> sys_stream g' = st' \<and>
      sys_writing g' = sys_writing g \<and> sys_asking g' = sys_asking g"
    by (auto intro: r_into_rtranclp)
qed

lemma evolves_ops:
  "evolves K written rest st (on_data K d st)"
  "evolves K written rest st (on_read_eof K st)"
  "evolves K written rest st (on_close K st)"
  "evolves K written rest st (set_status K v st)"
  "evolves K written rest st (set_id lp i st)"
  "evolves K written rest st (set_path p st)"
  "evolves K written rest st (set_content_length l st)"
  "evolves K written rest st (add_header nm vl st)"
  by (rule evolves_step, (rule exI, rule conjI, rule stream_step.intros, simp))+

lemma evolves_pull:
  "producer_callback K len st = (res, eof, st') \<Longrightarrow> evolves K written rest st st'"
  by (rule evolves_step, rule exI, rule conjI, rule step_pull) auto

lemma evolves_header_field: "evolves K written rest st (header_field K name value st)"
proof -
  have "evolves K written rest st (add_header name value (set_content_length n st))" for n
    by (rule evolves_trans [OF evolves_ops(7) evolves_ops(8)])
  then show ?thesis
    by (auto simp: header_field_def evolves_ops split: option.split)
qed

section \<open>What a session does to all of them\<close>

text \<open>Existing objects evolve, and new ones come from the constructor.\<close>

definition objects_evolve ::
  "('e, 'b, 'c) capy \<Rightarrow> ('b \<Rightarrow> byte list) \<Rightarrow> ('c \<Rightarrow> byte list)
    \<Rightarrow> ('ng, 'e, 'b, 'c) session \<Rightarrow> ('ng, 'e, 'b, 'c) session \<Rightarrow> bool" where
  "objects_evolve K written rest s t \<longleftrightarrow>
     length (ss_objects s) \<le> length (ss_objects t) \<and>
     (\<forall>a < length (ss_objects s). evolves K written rest (ss_objects s ! a) (ss_objects t ! a)) \<and>
     (\<forall>a < length (ss_objects t). length (ss_objects s) \<le> a \<longrightarrow>
        (\<exists>sid prefix. evolves K written rest (new_stream K sid prefix) (ss_objects t ! a)))"

lemma objects_evolve_same:
  "ss_objects t = ss_objects s \<Longrightarrow> objects_evolve K written rest s t"
  by (simp add: objects_evolve_def)

lemma objects_evolve_trans:
  assumes "objects_evolve K written rest s t" "objects_evolve K written rest t u"
  shows "objects_evolve K written rest s u"
  unfolding objects_evolve_def
proof (intro conjI allI impI)
  fix a
  assume "a < length (ss_objects u)" "length (ss_objects s) \<le> a"
  with assms show "\<exists>sid prefix. evolves K written rest (new_stream K sid prefix) (ss_objects u ! a)"
    unfolding objects_evolve_def by (cases "a < length (ss_objects t)") (blast intro: evolves_trans, force)
qed (use assms in \<open>auto simp: objects_evolve_def intro: evolves_trans\<close>)

lemma objects_evolve_update:
  "(\<And>st. evolves K written rest st (u st)) \<Longrightarrow> objects_evolve K written rest s (update_object a u s)"
  by (simp add: objects_evolve_def object_update_object)

lemma objects_evolve_put:
  "evolves K written rest (ss_objects s ! a) st'
    \<Longrightarrow> objects_evolve K written rest s (update_object a (\<lambda>_. st') s)"
  by (simp add: objects_evolve_def object_update_object)

lemma objects_evolve_with:
  "(\<And>st. evolves K written rest st (u st)) \<Longrightarrow> objects_evolve K written rest s (with_stream sid u s)"
  by (simp add: with_stream_def objects_evolve_update objects_evolve_same split: option.split)

lemma objects_evolve_new:
  "ss_objects t = ss_objects s @ [new_stream K sid prefix] \<Longrightarrow> objects_evolve K written rest s t"
  by (auto simp: objects_evolve_def nth_append less_Suc_eq intro: evolves_refl)

lemma objects_evolve_create: "objects_evolve K written rest s (snd (create_stream K sid s))"
  by (rule objects_evolve_new) (simp add: create_stream_def Let_def)

lemma objects_evolve_close: "objects_evolve K written rest s (close_stream K sid s)"
proof (cases "find_stream s sid")
  case (Some a)
  have "objects_evolve K written rest s (update_object a (on_close K) s)"
    by (rule objects_evolve_update) (rule evolves_ops)
  then show ?thesis using Some by (simp add: close_stream_def Let_def objects_evolve_def)
qed (simp add: close_stream_def objects_evolve_same)

lemma objects_evolve_data_source:
  "objects_evolve K written rest s (snd (data_source_read_callback K a len s))"
  by (auto simp: data_source_read_callback_def objects_evolve_same
      intro!: objects_evolve_put evolves_pull split: prod.split)

lemma objects_evolve_frame_recv:
  "objects_evolve K written rest s (on_frame_recv_callback K f s)"
  by (auto simp: on_frame_recv_callback_def Let_def evolves_ops objects_evolve_same
      intro!: objects_evolve_with
        objects_evolve_trans [OF objects_evolve_same objects_evolve_with]
      split: option.split)

lemma objects_evolve_data_chunk:
  "objects_evolve K written rest s (on_data_chunk_recv_callback K N sid d s)"
  unfolding on_data_chunk_recv_callback_def
  by (rule objects_evolve_trans [OF objects_evolve_same objects_evolve_with]) (simp_all add: evolves_ops)

lemma run_callback_evolves:
  "objects_evolve K written rest s (snd (run_callback K N cb s))"
  by (cases cb)
    (simp_all add: on_begin_headers_callback_def objects_evolve_create objects_evolve_same
      on_header_callback_field objects_evolve_with evolves_header_field objects_evolve_frame_recv
      objects_evolve_data_chunk on_stream_close_callback_def objects_evolve_close
      objects_evolve_data_source)

interpretation call_evolves: callback_relation K N "\<lambda>s cbs t. objects_evolve K written rest s t"
  for K :: "('e, 'b, 'c) capy" and N :: "'ng nghttp2" and written rest
proof unfold_locales
  fix s t :: "('ng, 'e, 'b, 'c) session" and cb g
  assume "objects_evolve K written rest (snd (run_callback K N cb (s\<lparr>ss_native := Some g\<rparr>))) t"
  then show "objects_evolve K written rest s t"
    using objects_evolve_trans [OF run_callback_evolves [of K written rest "s\<lparr>ss_native := Some g\<rparr>" N cb]]
    by (simp add: objects_evolve_def)
qed (simp add: objects_evolve_same)

section \<open>The system\<close>

text \<open>
  \<open>sy_writing\<close> and \<open>sy_asking\<close> are the objects on which a writing or a status coroutine is
  suspended; a suspended reader shows in the stream itself (\<open>read_sink_\<close>).
\<close>

record ('ng, 'e, 'b, 'c) session_sys =
  sy_session :: "('ng, 'e, 'b, 'c) session"
  sy_writing :: "addr set"
  sy_asking :: "addr set"

abbreviation objects :: "('ng, 'e, 'b, 'c) session_sys \<Rightarrow> ('e, 'b, 'c) stream list" where
  "objects y \<equiv> ss_objects (sy_session y)"

text \<open>A member function of a stream has changed it to \<open>st\<close> and asks for \<open>effs\<close>.\<close>

definition stream_result ::
  "('e, 'b, 'c) capy \<Rightarrow> 'ng nghttp2 \<Rightarrow> addr \<Rightarrow> ('e, 'b, 'c) stream \<Rightarrow> stream_effect list
    \<Rightarrow> ('ng, 'e, 'b, 'c) session \<Rightarrow> ('ng, 'e, 'b, 'c) session" where
  "stream_result K N a st effs s = apply_effects K N effs (update_object a (\<lambda>_. st) s)"

text \<open>What the users of a session and its request handlers do.\<close>

inductive user_step ::
  "('e, 'b, 'c) capy \<Rightarrow> 'ng nghttp2 \<Rightarrow> ('b \<Rightarrow> byte list)
    \<Rightarrow> ('ng, 'e, 'b, 'c) session_sys \<Rightarrow> ('ng, 'e, 'b, 'c) session_sys \<Rightarrow> bool"
  for K N written where
  user_request:
    "submit_request K N path content_length headers (sy_session y) = Some (r, s) \<Longrightarrow>
     user_step K N written y (y\<lparr>sy_session := s\<rparr>)"
| user_response:
    "a < length (objects y) \<Longrightarrow> submit_response K N a status headers (sy_session y) = Some (e, s) \<Longrightarrow>
     user_step K N written y (y\<lparr>sy_session := s\<rparr>)"
| user_handle:
    "a \<in> set (ss_spawned (sy_session y)) \<Longrightarrow> a \<notin> sy_writing y \<Longrightarrow>
     handle_request K N a (sy_session y) = Some (h, s) \<Longrightarrow>
     user_step K N written y
       (y\<lparr>sy_session := s,
          sy_writing := (case h of Closed_empty e Write_parked \<Rightarrow> insert a (sy_writing y)
                                 | _ \<Rightarrow> sy_writing y)\<rparr>)"
| user_read:
    "a < length (objects y) \<Longrightarrow> st_read_sink (objects y ! a) = None \<Longrightarrow> written bp = [] \<Longrightarrow>
     read_some K bp (objects y ! a) = Some (out, st, effs) \<Longrightarrow>
     user_step K N written y (y\<lparr>sy_session := stream_result K N a st effs (sy_session y)\<rparr>)"
| user_read_wake:
    "a < length (objects y) \<Longrightarrow> st_read_sink (objects y ! a) = Some sink \<Longrightarrow>
     may_resume K e (st_read_ready (objects y ! a)) \<Longrightarrow>
     read_some_resume K e sink (objects y ! a) = (out, st, effs) \<Longrightarrow>
     user_step K N written y (y\<lparr>sy_session := stream_result K N a st effs (sy_session y)\<rparr>)"
| user_write:
    "a < length (objects y) \<Longrightarrow> a \<notin> sy_writing y \<Longrightarrow>
     write_impl K buffers eof (objects y ! a) = (Write_parked, st, effs) \<Longrightarrow>
     user_step K N written y
       (y\<lparr>sy_session := stream_result K N a st effs (sy_session y),
          sy_writing := insert a (sy_writing y)\<rparr>)"
| user_write_wake:
    "a < length (objects y) \<Longrightarrow> a \<in> sy_writing y \<Longrightarrow>
     may_resume K e (st_write_progress (objects y ! a)) \<Longrightarrow>
     write_impl_resume e (objects y ! a) = (r, st) \<Longrightarrow>
     user_step K N written y
       (y\<lparr>sy_session := stream_result K N a st [] (sy_session y), sy_writing := sy_writing y - {a}\<rparr>)"
| user_ask:
    "a < length (objects y) \<Longrightarrow> a \<notin> sy_asking y \<Longrightarrow> status_co K (objects y ! a) = (out, st) \<Longrightarrow>
     user_step K N written y
       (y\<lparr>sy_session := stream_result K N a st [] (sy_session y),
          sy_asking := (if out = Status_parked then insert a (sy_asking y) else sy_asking y)\<rparr>)"
| user_ask_wake:
    "a < length (objects y) \<Longrightarrow> a \<in> sy_asking y \<Longrightarrow>
     may_resume K e (st_status_ready (objects y ! a)) \<Longrightarrow>
     user_step K N written y (y\<lparr>sy_asking := sy_asking y - {a}\<rparr>)"

text \<open>These steps, and what \<open>run\<close> does.\<close>

inductive session_step ::
  "('e, 'b, 'c) capy \<Rightarrow> 'ng nghttp2 \<Rightarrow> ('b \<Rightarrow> byte list)
    \<Rightarrow> ('ng, 'e, 'b, 'c) session_sys \<Rightarrow> ('ng, 'e, 'b, 'c) session_sys \<Rightarrow> bool"
  for K N written where
  session_setup:
    "run_setup N (sy_session y) = Inr s \<Longrightarrow> session_step K N written y (y\<lparr>sy_session := s\<rparr>)"
| session_recv:
    "ss_native (sy_session y) = Some g \<Longrightarrow>
     run_ng_call K N (ng_mem_recv2 N g bytes) (sy_session y) = (rv, s) \<Longrightarrow>
     session_step K N written y (y\<lparr>sy_session := start_write K s\<rparr>)"
| session_send:
    "ss_native (sy_session y) = Some g \<Longrightarrow>
     run_ng_call K N (ng_mem_send2 N g) (sy_session y) = (r, s) \<Longrightarrow>
     session_step K N written y (y\<lparr>sy_session := s\<rparr>)"
| session_terminate:
    "session_step K N written y
       (y\<lparr>sy_session := start_write K (with_native (\<lambda>g. ng_terminate_session N g c) (sy_session y))\<rparr>)"
| session_teardown:
    "session_step K N written y (y\<lparr>sy_session := run_teardown K (sy_session y)\<rparr>)"
| session_user: "user_step K N written y z \<Longrightarrow> session_step K N written y z"

section \<open>The invariant\<close>

definition linked ::
  "('e, 'b, 'c) capy \<Rightarrow> ('b \<Rightarrow> byte list) \<Rightarrow> ('b \<Rightarrow> nat) \<Rightarrow> ('c \<Rightarrow> byte list)
    \<Rightarrow> ('ng, 'e, 'b, 'c) session_sys \<Rightarrow> bool" where
  "linked K written room rest y \<longleftrightarrow>
     (\<forall>a < length (objects y).
        \<exists>g. reachable (starts K written room rest) (stream_step K written rest) g \<and>
            sys_stream g = objects y ! a \<and>
            sys_writing g = (a \<in> sy_writing y) \<and> sys_asking g = (a \<in> sy_asking y)) \<and>
     (\<forall>a \<in> sy_writing y \<union> sy_asking y. a < length (objects y))"

lemma reachable_star:
  "step\<^sup>*\<^sup>* s t \<Longrightarrow> reachable init step s \<Longrightarrow> reachable init step t"
  by (induction rule: rtranclp_induct) (auto intro: reachable_step)

lemma linked_evolve:
  assumes lib: "library_ok K written room rest" and linked: "linked K written room rest y"
    and ev: "objects_evolve K written rest (sy_session y) s"
  shows "linked K written room rest (y\<lparr>sy_session := s\<rparr>)"
proof -
  let ?R = "reachable (starts K written room rest) (stream_step K written rest)"
  have "\<exists>g. ?R g \<and> sys_stream g = ss_objects s ! a \<and>
      sys_writing g = (a \<in> sy_writing y) \<and> sys_asking g = (a \<in> sy_asking y)"
    if a: "a < length (ss_objects s)" for a
  proof (cases "a < length (objects y)")
    case True
    with linked obtain g where g: "?R g" "sys_stream g = objects y ! a"
      "sys_writing g = (a \<in> sy_writing y)" "sys_asking g = (a \<in> sy_asking y)"
      by (auto simp: linked_def)
    from True ev have "evolves K written rest (objects y ! a) (ss_objects s ! a)"
      by (simp add: objects_evolve_def)
    with g(2) obtain g' where "(stream_step K written rest)\<^sup>*\<^sup>* g g'" "sys_stream g' = ss_objects s ! a"
      "sys_writing g' = sys_writing g" "sys_asking g' = sys_asking g"
      by (auto simp: evolves_def)
    with g show ?thesis by (auto intro: reachable_star)
  next
    case False
    with a ev obtain sid prefix where
      new: "evolves K written rest (new_stream K sid prefix) (ss_objects s ! a)"
      by (auto simp: objects_evolve_def)
    have "?R (init_sys K sid prefix)"
      using lib by (intro reachable_init) (auto simp: starts_def)
    moreover have "a \<notin> sy_writing y" "a \<notin> sy_asking y" using False linked by (auto simp: linked_def)
    ultimately show ?thesis
      using new [unfolded evolves_def, rule_format, of "init_sys K sid prefix"]
      by (auto simp: init_sys_def intro: reachable_star)
  qed
  moreover have "\<forall>a \<in> sy_writing y \<union> sy_asking y. a < length (ss_objects s)"
    using linked ev unfolding linked_def objects_evolve_def by (meson less_le_trans)
  ultimately show ?thesis by (simp add: linked_def)
qed

text \<open>A step of a user's coroutine on the object \<open>a\<close>.\<close>

lemma linked_step:
  assumes linked: "linked K written room rest y" and a: "a < length (objects y)"
    and objs: "ss_objects s = (objects y)[a := st]"
    and others: "W - {a} = sy_writing y - {a}" "A - {a} = sy_asking y - {a}"
    and step: "\<And>g. sys_stream g = objects y ! a \<Longrightarrow> sys_writing g = (a \<in> sy_writing y) \<Longrightarrow>
      sys_asking g = (a \<in> sy_asking y) \<Longrightarrow>
      \<exists>g'. stream_step K written rest g g' \<and> sys_stream g' = st \<and>
           sys_writing g' = (a \<in> W) \<and> sys_asking g' = (a \<in> A)"
  shows "linked K written room rest (y\<lparr>sy_session := s, sy_writing := W, sy_asking := A\<rparr>)"
proof -
  let ?R = "reachable (starts K written room rest) (stream_step K written rest)"
  have "\<exists>g. ?R g \<and> sys_stream g = (objects y)[a := st] ! b \<and>
      sys_writing g = (b \<in> W) \<and> sys_asking g = (b \<in> A)" if b: "b < length (objects y)" for b
  proof (cases "b = a")
    case True
    from linked a obtain g where g: "?R g" "sys_stream g = objects y ! a"
      "sys_writing g = (a \<in> sy_writing y)" "sys_asking g = (a \<in> sy_asking y)"
      by (auto simp: linked_def)
    from step [OF g(2-4)] g(1) True a show ?thesis by (auto intro: reachable_step)
  next
    case False
    with others have "b \<in> W \<longleftrightarrow> b \<in> sy_writing y" "b \<in> A \<longleftrightarrow> b \<in> sy_asking y" by blast+
    with linked b False show ?thesis by (simp add: linked_def)
  qed
  moreover have "\<forall>b \<in> W \<union> A. b < length (objects y)"
    using linked others a by (auto simp: linked_def)
  ultimately show ?thesis by (simp add: linked_def objs)
qed

subsection \<open>Operations that are not callbacks\<close>

lemma apply_effect_frame [simp]:
  "ss_objects (apply_effect K N e s) = ss_objects s"
  "find_stream (apply_effect K N e s) = find_stream s"
  "session_inv (apply_effect K N e s) = session_inv s"
  by (cases e; simp)+

lemma apply_effects_frame [simp]:
  "ss_objects (apply_effects K N es s) = ss_objects s"
  "find_stream (apply_effects K N es s) = find_stream s"
  "session_inv (apply_effects K N es s) = session_inv s"
  by (induction es arbitrary: s) (simp_all add: apply_effects_def)

lemma stream_result_objects:
  "a < length (ss_objects s) \<Longrightarrow> ss_objects (stream_result K N a st effs s) = (ss_objects s)[a := st]"
  by (simp add: stream_result_def update_object_def)

lemma stream_result_inv:
  assumes "session_inv s" "a < length (ss_objects s) \<Longrightarrow>
    st_id st = st_id (ss_objects s ! a) \<and> st_closed st = st_closed (ss_objects s ! a)"
  shows "session_inv (stream_result K N a st effs s)"
proof -
  have "session_inv (update_object a (\<lambda>_. st) s)"
    using assms by (auto simp: session_inv_def update_object_def nth_list_update)
  then show ?thesis by (simp add: stream_result_def)
qed

lemma coroutine_frames:
  "read_some K bp st = Some (out, st', effs) \<Longrightarrow> st_id st' = st_id st \<and> st_closed st' = st_closed st"
  "read_some_resume K e sink st = (out, st', effs) \<Longrightarrow> st_id st' = st_id st \<and> st_closed st' = st_closed st"
  "write_impl K buffers eof st = (wout, st', effs) \<Longrightarrow> st_id st' = st_id st \<and> st_closed st' = st_closed st"
  "write_impl_resume e st = (r, st') \<Longrightarrow> st_id st' = st_id st \<and> st_closed st' = st_closed st"
  "status_co K st = (sout, st') \<Longrightarrow> st_id st' = st_id st \<and> st_closed st' = st_closed st"
  by (auto simp: read_some_def read_some_resume_def read_park_def write_impl_def write_impl_resume_def
      status_co_def Let_def split: option.splits if_splits)

lemma submit_response_result:
  assumes "submit_response K N a status headers s = Some (e, t)"
  shows "ss_objects t = ss_objects s" "session_inv t = session_inv s" "find_stream t = find_stream s"
  using assms by (auto simp: submit_response_def Let_def split: option.splits prod.splits if_splits)

lemma submit_request_cases:
  assumes "submit_request K N path cl hs s = Some (r, t)"
  obtains (role) "t = s"
  | (failed) g where "t = s\<lparr>ss_objects := ss_objects s @ [new_stream K 0 (log_prefix (ss_role s) 0)],
      ss_native := Some g\<rparr>"
  | (submitted) g sid where "0 \<le> sid" "t = start_write K
      (s\<lparr>ss_native := Some g,
         ss_objects := ss_objects s @
            [set_id (log_prefix (ss_role s)) sid (new_stream K 0 (log_prefix (ss_role s) 0))],
         ss_streams := emplace sid (length (ss_objects s)) (ss_streams s)\<rparr>)"
  using assms
  by (auto simp: submit_request_def Let_def update_object_def not_less
      split: if_splits option.splits prod.splits)

lemma submit_request_evolves:
  assumes "submit_request K N path cl hs s = Some (r, t)"
  shows "objects_evolve K written rest s t"
  using assms
proof (cases rule: submit_request_cases)
  case (submitted g sid)
  have "evolves K written rest (new_stream K 0 (log_prefix (ss_role s) 0))
      (set_id (log_prefix (ss_role s)) sid (new_stream K 0 (log_prefix (ss_role s) 0)))"
    by (rule evolves_ops)
  then show ?thesis
    by (auto simp: submitted objects_evolve_def nth_append less_Suc_eq)
qed (auto intro: objects_evolve_same objects_evolve_new)

lemma submit_request_inv:
  assumes "session_inv s" "submit_request K N path cl hs s = Some (r, t)"
  shows "session_inv t"
  using assms(2)
proof (cases rule: submit_request_cases)
  case (submitted g sid)
  with session_inv_register [OF assms(1), of "set_id (log_prefix (ss_role s)) sid
      (new_stream K 0 (log_prefix (ss_role s) 0))" sid] show ?thesis
    by (simp add: set_id_def new_stream_def session_inv_def start_write_def)
next
  case (failed g)
  with session_inv_object [OF assms(1)] show ?thesis by (simp add: session_inv_def)
qed (simp add: assms(1))

lemma handle_request_result:
  assumes "handle_request K N a s = Some (h, t)"
  obtains (handler) rq where "h = Handler_called rq a" "t = s"
  | (closed) e out s1 st effs where "h = Closed_empty e out" "submit_response K N a 200 [] s = Some (e, s1)"
    "write_eof K [] (ss_objects s1 ! a) = (out, st, effs)" "t = stream_result K N a st effs s1"
  using assms
  by (auto simp: handle_request_def stream_result_def Let_def split: if_splits option.splits prod.splits)

lemma teardown_fold:
  "length (ss_objects (foldl (\<lambda>s (sid, a). update_object a (on_close K) s) s xs)) = length (ss_objects s)"
  "ss_streams (foldl (\<lambda>s (sid, a). update_object a (on_close K) s) s xs) = ss_streams s"
  "ss_spawned (foldl (\<lambda>s (sid, a). update_object a (on_close K) s) s xs) = ss_spawned s"
  "objects_evolve K written rest s (foldl (\<lambda>s (sid, a). update_object a (on_close K) s) s xs)"
proof (induction xs arbitrary: s)
  case (Cons x xs)
  { case 1 show ?case using Cons.IH(1) by (simp split: prod.split) }
  { case 2 show ?case using Cons.IH(2) by (simp add: update_object_def split: prod.split) }
  { case 3 show ?case using Cons.IH(3) by (simp add: update_object_def split: prod.split) }
  { case 4 show ?case
      using objects_evolve_trans [OF objects_evolve_update Cons.IH(4)]
      by (auto simp: evolves_ops split: prod.split) }
qed (simp_all add: objects_evolve_same)

lemma run_teardown_evolves: "objects_evolve K written rest s (run_teardown K s)"
  unfolding run_teardown_def
  by (rule objects_evolve_trans [OF objects_evolve_same teardown_fold(4)]) simp

lemma run_teardown_inv: "session_inv s \<Longrightarrow> session_inv (run_teardown K s)"
  by (simp add: run_teardown_def session_inv_def teardown_fold)

subsection \<open>Preservation by every step\<close>

definition session_sys_inv ::
  "('e, 'b, 'c) capy \<Rightarrow> ('b \<Rightarrow> byte list) \<Rightarrow> ('b \<Rightarrow> nat) \<Rightarrow> ('c \<Rightarrow> byte list)
    \<Rightarrow> ('ng, 'e, 'b, 'c) session_sys \<Rightarrow> bool" where
  "session_sys_inv K written room rest y \<longleftrightarrow>
     library_ok K written room rest \<and> session_inv (sy_session y) \<and> linked K written room rest y"

definition session_starts ::
  "('e, 'b, 'c) capy \<Rightarrow> ('b \<Rightarrow> byte list) \<Rightarrow> ('b \<Rightarrow> nat) \<Rightarrow> ('c \<Rightarrow> byte list)
    \<Rightarrow> ('ng, 'e, 'b, 'c) session_sys \<Rightarrow> bool" where
  "session_starts K written room rest y \<longleftrightarrow>
     library_ok K written room rest \<and>
     (\<exists>r handler. y = \<lparr>sy_session = new_session K r handler, sy_writing = {}, sy_asking = {}\<rparr>)"

lemma session_starts_inv:
  "session_starts K written room rest y \<Longrightarrow> session_sys_inv K written room rest y"
  by (auto simp: session_starts_def session_sys_inv_def session_inv_new linked_def)
    (simp_all add: new_session_def)

lemma sys_inv_evolve:
  assumes "session_sys_inv K written room rest y" "session_inv s"
    "objects_evolve K written rest (sy_session y) s"
  shows "session_sys_inv K written room rest (y\<lparr>sy_session := s\<rparr>)"
  unfolding session_sys_inv_def
  using assms linked_evolve [OF _ _ assms(3)] by (auto simp: session_sys_inv_def)

lemma sys_inv_step:
  assumes "session_sys_inv K written room rest y" "a < length (objects y)"
    and "st_id st = st_id (objects y ! a) \<and> st_closed st = st_closed (objects y ! a)"
    and "W - {a} = sy_writing y - {a}" "A - {a} = sy_asking y - {a}"
    and "\<And>g. sys_stream g = objects y ! a \<Longrightarrow> sys_writing g = (a \<in> sy_writing y) \<Longrightarrow>
      sys_asking g = (a \<in> sy_asking y) \<Longrightarrow>
      \<exists>g'. stream_step K written rest g g' \<and> sys_stream g' = st \<and>
           sys_writing g' = (a \<in> W) \<and> sys_asking g' = (a \<in> A)"
  shows "session_sys_inv K written room rest
    (y\<lparr>sy_session := stream_result K N a st effs (sy_session y), sy_writing := W, sy_asking := A\<rparr>)"
proof -
  have "linked K written room rest y" "session_inv (sy_session y)"
    using assms(1) by (simp_all add: session_sys_inv_def)
  note inv = this
  have "linked K written room rest
      (y\<lparr>sy_session := stream_result K N a st effs (sy_session y), sy_writing := W, sy_asking := A\<rparr>)"
    by (rule linked_step [OF inv(1) assms(2) stream_result_objects [OF assms(2)] assms(4-6)])
  moreover have "session_inv (stream_result K N a st effs (sy_session y))"
    by (rule stream_result_inv [OF inv(2)]) (rule assms(3))
  ultimately show ?thesis using assms(1) unfolding session_sys_inv_def by simp
qed

text \<open>The last two steps of a request without a handler: an empty response and its end.\<close>

lemma sys_inv_write:
  assumes "session_sys_inv K written room rest y" "a < length (objects y)" "a \<notin> sy_writing y"
    "write_impl K buffers eof (objects y ! a) = (out, st, effs)"
  shows "session_sys_inv K written room rest
    (y\<lparr>sy_session := stream_result K N a st effs (sy_session y),
       sy_writing := (if out = Write_parked then insert a (sy_writing y) else sy_writing y),
       sy_asking := sy_asking y\<rparr>)"
proof (cases "out = Write_parked")
  case True
  with assms(4) have w: "write_impl K buffers eof (objects y ! a) = (Write_parked, st, effs)" by simp
  have "session_sys_inv K written room rest
    (y\<lparr>sy_session := stream_result K N a st effs (sy_session y),
       sy_writing := insert a (sy_writing y), sy_asking := sy_asking y\<rparr>)"
  proof (rule sys_inv_step [OF assms(1,2) coroutine_frames(3) [OF w]])
    fix g :: "('a, 'b, 'c) stream_sys"
    assume g: "sys_stream g = objects y ! a" "sys_writing g = (a \<in> sy_writing y)"
      "sys_asking g = (a \<in> sy_asking y)"
    show "\<exists>g'. stream_step K written rest g g' \<and> sys_stream g' = st \<and>
      sys_writing g' = (a \<in> insert a (sy_writing y)) \<and> sys_asking g' = (a \<in> sy_asking y)"
      by (rule exI, rule conjI, rule step_write) (use g w assms(3) in auto)
  qed auto
  with True show ?thesis by (simp only: if_True simp_thms)
next
  case False
  with assms(4) have "st = objects y ! a" "effs = []"
    by (auto simp: write_impl_def Let_def split: if_splits)
  with False assms(1,2) show ?thesis
    by (simp add: stream_result_def apply_effects_def update_object_def)
qed

lemma sys_same:
  "y\<lparr>sy_session := s, sy_writing := sy_writing y, sy_asking := sy_asking y\<rparr> = y\<lparr>sy_session := s\<rparr>"
  "y\<lparr>sy_session := s, sy_writing := W, sy_asking := sy_asking y\<rparr> = y\<lparr>sy_session := s, sy_writing := W\<rparr>"
  "y\<lparr>sy_session := s, sy_writing := sy_writing y, sy_asking := A\<rparr> = y\<lparr>sy_session := s, sy_asking := A\<rparr>"
  by simp_all

lemma run_setup_result:
  "run_setup N s = Inr t \<Longrightarrow> \<exists>g. t = s\<lparr>ss_native := Some g\<rparr>"
  by (auto simp: run_setup_def Let_def split: if_splits prod.splits)

lemma sys_inv_call:
  assumes "session_sys_inv K written room rest y" "run_ng_call K N call (sy_session y) = (r, s)"
  shows "session_sys_inv K written room rest (y\<lparr>sy_session := s\<rparr>)"
proof (rule sys_inv_evolve [OF assms(1)])
  show "session_inv s"
    using assms call_inv.rel_call [of "sy_session y" K N "call"] by (simp add: session_sys_inv_def)
  show "objects_evolve K written rest (sy_session y) s"
    using assms(2) call_evolves.rel_call [of K written rest "sy_session y" N "call"] by simp
qed

lemma sys_inv_poke:
  assumes "session_sys_inv K written room rest y" "session_inv (sy_session y) \<Longrightarrow> session_inv s"
    "ss_objects s = objects y"
  shows "session_sys_inv K written room rest (y\<lparr>sy_session := s\<rparr>)"
  using assms by (intro sys_inv_evolve) (auto simp: session_sys_inv_def objects_evolve_same)

lemma sys_inv_read:
  assumes "session_sys_inv K written room rest y" "a < length (objects y)"
    and "st_read_sink (objects y ! a) = None" "written bp = []"
    and "read_some K bp (objects y ! a) = Some (out, st, effs)"
  shows "session_sys_inv K written room rest (y\<lparr>sy_session := stream_result K N a st effs (sy_session y)\<rparr>)"
  by (subst sys_same(1) [symmetric], rule sys_inv_step [OF assms(1,2) coroutine_frames(1) [OF assms(5)]], simp, simp,
      rule exI, rule conjI, rule step_read) (use assms in auto)

lemma sys_inv_read_wake:
  assumes "session_sys_inv K written room rest y" "a < length (objects y)"
    and "st_read_sink (objects y ! a) = Some sink" "may_resume K e (st_read_ready (objects y ! a))"
    and "read_some_resume K e sink (objects y ! a) = (out, st, effs)"
  shows "session_sys_inv K written room rest (y\<lparr>sy_session := stream_result K N a st effs (sy_session y)\<rparr>)"
  by (subst sys_same(1) [symmetric], rule sys_inv_step [OF assms(1,2) coroutine_frames(2) [OF assms(5)]], simp, simp,
      rule exI, rule conjI, rule step_read_wake) (use assms in auto)

lemma sys_inv_write_wake:
  assumes "session_sys_inv K written room rest y" "a < length (objects y)" "a \<in> sy_writing y"
    and "may_resume K e (st_write_progress (objects y ! a))"
    and "write_impl_resume e (objects y ! a) = (r, st)"
  shows "session_sys_inv K written room rest
    (y\<lparr>sy_session := stream_result K N a st [] (sy_session y), sy_writing := sy_writing y - {a}\<rparr>)"
proof -
  obtain n where "write_impl_resume e (objects y ! a) = ((e, n), st)"
    using assms(5) by (auto simp: write_impl_resume_def)
  then show ?thesis
    by (subst sys_same(2) [symmetric], intro sys_inv_step [OF assms(1,2) coroutine_frames(4) [OF assms(5)]],
        simp, simp) (rule exI, rule conjI, rule step_write_wake, use assms in auto)
qed

lemma sys_inv_ask:
  assumes "session_sys_inv K written room rest y" "a < length (objects y)" "a \<notin> sy_asking y"
    and "status_co K (objects y ! a) = (out, st)"
  shows "session_sys_inv K written room rest
    (y\<lparr>sy_session := stream_result K N a st [] (sy_session y),
       sy_asking := (if out = Status_parked then insert a (sy_asking y) else sy_asking y)\<rparr>)"
  by (subst sys_same(3) [symmetric], rule sys_inv_step [OF assms(1,2) coroutine_frames(5) [OF assms(4)]], simp, simp,
      rule exI, rule conjI, rule step_ask) (use assms in auto)

lemma sys_inv_ask_wake:
  assumes "session_sys_inv K written room rest y" "a < length (objects y)" "a \<in> sy_asking y"
    and "may_resume K e (st_status_ready (objects y ! a))"
  shows "session_sys_inv K written room rest (y\<lparr>sy_asking := sy_asking y - {a}\<rparr>)"
proof -
  have "linked K written room rest
      (y\<lparr>sy_session := sy_session y, sy_writing := sy_writing y, sy_asking := sy_asking y - {a}\<rparr>)"
    by (rule linked_step [OF _ assms(2), where st = "objects y ! a"],
        use assms in \<open>simp add: session_sys_inv_def\<close>, simp, simp, simp,
        rule exI, rule conjI, rule step_ask_wake) (use assms in auto)
  with assms(1) show ?thesis by (simp add: session_sys_inv_def)
qed

lemma sys_inv_handle:
  assumes inv: "session_sys_inv K written room rest y"
    and a: "a \<in> set (ss_spawned (sy_session y))" "a \<notin> sy_writing y"
    and handle: "handle_request K N a (sy_session y) = Some (h, s)"
  shows "session_sys_inv K written room rest
    (y\<lparr>sy_session := s,
       sy_writing := (case h of Closed_empty e Write_parked \<Rightarrow> insert a (sy_writing y)
                              | _ \<Rightarrow> sy_writing y)\<rparr>)"
  using handle
proof (cases rule: handle_request_result)
  case (handler rq)
  with inv show ?thesis by simp
next
  case (closed e out s1 st effs)
  have objs: "ss_objects s1 = objects y" and "session_inv s1 = session_inv (sy_session y)"
    using submit_response_result [OF closed(2)] by simp_all
  then have "session_sys_inv K written room rest (y\<lparr>sy_session := s1\<rparr>)"
    by (intro sys_inv_poke [OF inv]) simp_all
  moreover have "a < length (objects y)"
    using a inv by (simp add: session_sys_inv_def session_inv_def)
  ultimately have "session_sys_inv K written room rest
      (y\<lparr>sy_session := s1, sy_session := stream_result K N a st effs s1,
         sy_writing := (if out = Write_parked then insert a (sy_writing y) else sy_writing y),
         sy_asking := sy_asking y\<rparr>)"
    using sys_inv_write [of K written room rest "y\<lparr>sy_session := s1\<rparr>" a "[]" True out st effs N] closed(3) a(2)
    by (simp add: write_eof_def objs split: if_splits)
  moreover have "(case h of Closed_empty e Write_parked \<Rightarrow> insert a (sy_writing y) | _ \<Rightarrow> sy_writing y)
      = (if out = Write_parked then insert a (sy_writing y) else sy_writing y)"
    by (simp add: closed(1) split: write_outcome.split)
  ultimately show ?thesis using closed(4) by simp
qed

lemma user_step_inv:
  assumes "user_step K N written y z" "session_sys_inv K written room rest y"
  shows "session_sys_inv K written room rest z"
  using assms
proof (induction rule: user_step.induct)
  case (user_request path cl hs y r s)
  then show ?case
    by (intro sys_inv_evolve) (auto simp: session_sys_inv_def intro: submit_request_inv submit_request_evolves)
next
  case (user_response a y status hs e s)
  then show ?case by (intro sys_inv_poke) (auto dest: submit_response_result)
next
  case (user_handle a y h s)
  then show ?case by (intro sys_inv_handle)
next
  case (user_write a y buffers eof st effs)
  from sys_inv_write [OF user_write.prems user_write.hyps] show ?case by simp
qed (blast intro: sys_inv_read sys_inv_read_wake sys_inv_write_wake sys_inv_ask sys_inv_ask_wake)+

lemma session_step_inv:
  assumes "session_step K N written y z" "session_sys_inv K written room rest y"
  shows "session_sys_inv K written room rest z"
  using assms
proof (induction rule: session_step.induct)
  case (session_setup y s)
  then show ?case by (auto dest!: run_setup_result intro!: sys_inv_poke)
next
  case (session_recv y g bytes rv s)
  from sys_inv_call [OF session_recv.prems session_recv.hyps(2)]
  have "session_sys_inv K written room rest (y\<lparr>sy_session := s\<rparr>)" .
  from sys_inv_poke [OF this, of "start_write K s"] show ?case by simp
next
  case (session_send y g r s)
  then show ?case by (intro sys_inv_call)
next
  case (session_terminate y c)
  then show ?case by (intro sys_inv_poke) simp_all
next
  case (session_teardown y)
  then show ?case
    by (intro sys_inv_evolve) (auto simp: session_sys_inv_def run_teardown_inv run_teardown_evolves)
qed (rule user_step_inv)

interpretation session_invariant: step_invariant "session_starts K written room rest"
  "session_step K N written" "session_sys_inv K written room rest"
  for K :: "('e, 'b, 'c) capy" and N :: "'ng nghttp2" and written room rest
  by unfold_locales (auto intro: session_starts_inv session_step_inv)

end
