(* ===== verification/Stream_Properties.thy ===== *)
theory Stream_Properties
  imports Stream_System
begin

text \<open>
  What the stream bridge guarantees. The first part holds two small libraries: \<open>flat_capy\<close>, whose
  buffers are flat byte lists and whose events are flags, satisfies every documented law and
  serves as the concrete instance of the theorems' hypotheses; \<open>windowed_capy\<close> shows at most \<open>w\<close>
  buffers of the destination at a time. The properties follow.
\<close>

section \<open>Concrete libraries\<close>

definition flat_capy :: "(bool, byte list \<times> nat, nat \<times> byte list) capy" where
  "flat_capy =
     \<lparr>ev_new = False, ev_set = (\<lambda>_. True), ev_clear = (\<lambda>_. False), ev_is_set = (\<lambda>e. e),
      bp_data_empty = (\<lambda>b. snd b = 0),
      bp_copy = (\<lambda>b src. (min (snd b) (length src), (fst b @ take (snd b) src, snd b))),
      bp_consume = (\<lambda>b n. (fst b, snd b - n)),
      max_iovec = 16,
      cb_array = (\<lambda>bufs. (length (concat bufs), concat bufs)),
      cb_byte_size = fst,
      cb_copy = (\<lambda>c n. take n (snd c)),
      cb_consume = (\<lambda>c n. (fst c, drop n (snd c)))\<rparr>"

lemma flat_capy_ok: "library_ok flat_capy fst snd snd"
  by (auto simp: library_ok_def flat_capy_def event_ok_def sink_ok_def sink_full_def source_ok_def
      min_def)

fun consume_sizes :: "nat list \<Rightarrow> nat \<Rightarrow> nat list" where
  "consume_sizes [] n = []"
| "consume_sizes (k # ks) n = (if n < k then (k - n) # ks else consume_sizes ks (n - k))"

definition window :: "nat \<Rightarrow> nat list \<Rightarrow> nat" where
  "window w ks = sum_list (take w (dropWhile (\<lambda>k. k = 0) ks))"

definition windowed_capy :: "nat \<Rightarrow> (bool, byte list \<times> nat list, nat \<times> byte list) capy" where
  "windowed_capy w =
     \<lparr>ev_new = False, ev_set = (\<lambda>_. True), ev_clear = (\<lambda>_. False), ev_is_set = (\<lambda>e. e),
      bp_data_empty = (\<lambda>b. sum_list (snd b) = 0),
      bp_copy = (\<lambda>b src.
        (min (window w (snd b)) (length src), (fst b @ take (window w (snd b)) src, snd b))),
      bp_consume = (\<lambda>b n. (fst b, consume_sizes (snd b) n)),
      max_iovec = w,
      cb_array = (\<lambda>bufs. (length (concat bufs), concat bufs)),
      cb_byte_size = fst,
      cb_copy = (\<lambda>c n. take n (snd c)),
      cb_consume = (\<lambda>c n. (fst c, drop n (snd c)))\<rparr>"

lemma sum_consume_sizes: "sum_list (consume_sizes ks n) = sum_list ks - n"
  by (induction ks n rule: consume_sizes.induct) auto

lemma sum_dropWhile_zero: "sum_list (dropWhile (\<lambda>k. k = 0) ks) = sum_list (ks :: nat list)"
  by (induction ks) auto

lemma window_le: "window w ks \<le> sum_list ks"
proof -
  have "sum_list (dropWhile (\<lambda>k. k = 0) ks) = window w ks + sum_list (drop w (dropWhile (\<lambda>k. k = 0) ks))"
    unfolding window_def by (metis append_take_drop_id sum_list_append)
  then show ?thesis by (simp add: sum_dropWhile_zero)
qed

lemma window_pos:
  assumes "0 < w" and "0 < sum_list ks"
  shows "0 < window w ks"
proof (cases "dropWhile (\<lambda>k. k = 0) ks")
  case Nil
  then show ?thesis using assms(2) sum_dropWhile_zero [of ks] unfolding Nil sum_list.Nil by linarith
next
  case (Cons k ks')
  then have "k \<noteq> 0" using hd_dropWhile [of "\<lambda>k. k = 0" ks] by simp
  with assms(1) Cons show ?thesis by (cases w) (auto simp: window_def)
qed

lemma windowed_capy_ok:
  assumes "0 < w"
  shows "event_ok (windowed_capy w)" "sink_ok (windowed_capy w) fst (\<lambda>b. sum_list (snd b))"
    "source_ok (windowed_capy w) snd"
proof -
  have "min (window w ks) n \<le> min (sum_list ks) n"
    "0 < min (sum_list ks) n \<Longrightarrow> 0 < min (window w ks) n" for ks and n :: nat
    using window_le [of w ks] window_pos [OF assms, of ks] by auto
  then show "sink_ok (windowed_capy w) fst (\<lambda>b. sum_list (snd b))"
    by (simp add: sink_ok_def windowed_capy_def sum_consume_sizes take_length_take
        del: sum_list_eq_0_iff min_less_iff_conj min.bounded_iff)
      (auto simp: min_def)
qed (simp_all add: windowed_capy_def event_ok_def source_ok_def)

section \<open>A concrete run\<close>

text \<open>
  A reader parks with room for two bytes, three bytes arrive, the reader returns; then a writer
  offers three bytes as the end of the body and nghttp2 takes two of them.
\<close>

abbreviation demo_step :: "(bool, byte list \<times> nat, nat \<times> byte list) stream_sys
    \<Rightarrow> (bool, byte list \<times> nat, nat \<times> byte list) stream_sys \<Rightarrow> bool" where
  "demo_step \<equiv> stream_step flat_capy fst snd"

abbreviation demo_reach :: "(bool, byte list \<times> nat, nat \<times> byte list) stream_sys \<Rightarrow> bool" where
  "demo_reach \<equiv> reachable (starts flat_capy fst snd snd) demo_step"

definition demo_parked :: "(bool, byte list \<times> nat, nat \<times> byte list) stream_sys" where
  "demo_parked = (let s = init_sys flat_capy 1 [] in
     s\<lparr>sys_stream := read_park flat_capy \<lparr>sink_bp = ([], 2), sink_copied = 0\<rparr> (sys_stream s)\<rparr>)"

definition demo_filled :: "(bool, byte list \<times> nat, nat \<times> byte list) stream_sys" where
  "demo_filled = demo_parked\<lparr>sys_stream := on_data flat_capy [1, 2, 3] (sys_stream demo_parked),
     sys_received := [1, 2, 3]\<rparr>"

definition demo_read :: "(bool, byte list \<times> nat, nat \<times> byte list) stream_sys" where
  "demo_read = demo_filled\<lparr>sys_stream := (sys_stream demo_filled)\<lparr>st_read_sink := None\<rparr>,
     sys_delivered := [1, 2], sys_consumed := 2\<rparr>"

definition demo_written :: "(bool, byte list \<times> nat, nat \<times> byte list) stream_sys" where
  "demo_written = demo_read\<lparr>sys_stream := fst (snd (write_eof flat_capy [[4, 5], [6]] (sys_stream demo_read))),
     sys_writing := True, sys_write_data := [4, 5, 6]\<rparr>"

definition demo_pulled :: "(bool, byte list \<times> nat, nat \<times> byte list) stream_sys" where
  "demo_pulled = demo_written\<lparr>sys_stream := snd (snd (producer_callback flat_capy 2 (sys_stream demo_written))),
     sys_pulled := [4, 5]\<rparr>"

lemmas demo_defs = demo_pulled_def demo_written_def demo_read_def demo_filled_def demo_parked_def
  init_sys_def new_stream_def flat_capy_def read_park_def on_data_def sink_put_def write_eof_def
  write_impl_def producer_callback_def Let_def

lemma demo_parked_reach: "demo_reach demo_parked"
proof -
  have "demo_reach (init_sys flat_capy 1 [])"
    by (rule reachable_init) (auto simp: starts_def flat_capy_ok)
  moreover have "demo_step (init_sys flat_capy 1 []) demo_parked"
    using step_read [of "init_sys flat_capy 1 []" fst "([], 2)" flat_capy Read_parked
        "sys_stream demo_parked" "[]" snd]
    by (simp add: demo_parked_def init_sys_def new_stream_def read_some_def drain_chunks.simps)
  ultimately show ?thesis by (rule reachable_step)
qed

lemma demo_filled_reach: "demo_reach demo_filled"
proof (rule reachable_step [OF demo_parked_reach])
  show "demo_step demo_parked demo_filled"
    using step_data [of flat_capy fst snd demo_parked "[1, 2, 3]"]
    by (simp add: demo_filled_def demo_parked_def init_sys_def)
qed

lemma demo_read_reach: "demo_reach demo_read"
proof (rule reachable_step [OF demo_filled_reach])
  show "demo_step demo_filled demo_read"
    using step_read_wake [of demo_filled "\<lparr>sink_bp = ([1, 2], 0), sink_copied = 2\<rparr>" flat_capy None
        "Read_done (None, 2) ([1, 2], 0)" "sys_stream demo_read"
        "[Consume_stream 1 2, Start_write]" fst snd]
    by (simp add: demo_defs may_resume_def read_some_resume_def consume_def numeral_2_eq_2)
qed

lemma demo_written_reach: "demo_reach demo_written"
proof (rule reachable_step [OF demo_read_reach])
  show "demo_step demo_read demo_written"
    using step_write [of demo_read flat_capy "[[4, 5], [6]]" True "sys_stream demo_written"
        "[Start_write]" fst snd]
    by (simp add: demo_defs)
qed

lemma demo_pulled_reach: "demo_reach demo_pulled"
proof (rule reachable_step [OF demo_written_reach])
  show "demo_step demo_written demo_pulled"
    using step_pull [of flat_capy 2 demo_written "Copied [4, 5]" False "sys_stream demo_pulled" fst snd]
    by (simp add: demo_defs)
qed

lemma demo_read_stream:
  "st_chunks (sys_stream demo_read) = [[3]]" "st_front_offset (sys_stream demo_read) = 0"
  "st_id (sys_stream demo_read) = 1" "st_read_eof (sys_stream demo_read) = False"
  "st_closed (sys_stream demo_read) = False" "st_read_sink (sys_stream demo_read) = None"
  by (simp_all add: demo_defs)

section \<open>Properties of the interleaved system\<close>

text \<open>
  C1. In every reachable state, under any interleaving of deliveries, reads, wakeups,
  cancellations, writes and closes, the bytes nghttp2 delivered are exactly the bytes completed
  reads returned, followed by those handed to a parked reader, followed by those still queued, in
  this order: nothing is lost, duplicated or reordered.
\<close>

theorem stream_fifo:
  assumes "reachable (starts K written room rest) (stream_step K written rest) s"
  shows "sys_received s = sys_delivered s @ in_flight written (sys_stream s)
    @ buffered (st_chunks (sys_stream s)) (st_front_offset (sys_stream s))"
  using stream_inv.inv_reachable [OF assms] by (simp add: sys_inv_def read_sys_inv_def unread_def)

theorem stream_fifo_witness:
  "sys_received demo_filled = [1, 2, 3] \<and> in_flight fst (sys_stream demo_filled) = [1, 2] \<and>
   sys_received demo_filled = sys_delivered demo_filled @ in_flight fst (sys_stream demo_filled)
    @ buffered (st_chunks (sys_stream demo_filled)) (st_front_offset (sys_stream demo_filled))"
  using stream_fifo [OF demo_filled_reach] by (simp add: demo_defs in_flight_def)

text \<open>
  C17. Flow control: the stream window is credited by exactly the number of bytes that completed
  reads returned, so credit given plus bytes not yet returned equals bytes received.
\<close>

theorem stream_flow_control:
  assumes "reachable (starts K written room rest) (stream_step K written rest) s"
  shows "sys_consumed s = length (sys_delivered s)
    \<and> sys_consumed s + length (unread written (sys_stream s)) = length (sys_received s)"
  using stream_inv.inv_reachable [OF assms] by (simp add: sys_inv_def read_sys_inv_def)

theorem stream_flow_control_witness:
  "sys_consumed demo_read = 2 \<and> sys_consumed demo_read = length (sys_delivered demo_read)
    \<and> sys_consumed demo_read + length (unread fst (sys_stream demo_read)) = length (sys_received demo_read)"
  using stream_flow_control [OF demo_read_reach] by (simp add: demo_read_def)

text \<open>
  C18. No wakeup of a reader is lost: while a read is parked on an event that is not set, it has
  received nothing, the stream has neither ended nor closed, and, if its buffer has room, no byte
  is queued behind it.
\<close>

theorem parked_reader_has_nothing_to_report:
  assumes "reachable (starts K written room rest) (stream_step K written rest) s"
    and "st_read_sink (sys_stream s) = Some sink" and "\<not> ev_is_set K (st_read_ready (sys_stream s))"
  shows "sink_copied sink = 0 \<and> \<not> st_read_eof (sys_stream s) \<and> \<not> st_closed (sys_stream s)
    \<and> (0 < room (sink_bp sink) \<longrightarrow> buffered (st_chunks (sys_stream s)) (st_front_offset (sys_stream s)) = [])"
  using stream_inv.inv_reachable [OF assms(1)] assms(2,3)
  by (auto simp: sys_inv_def read_sys_inv_def read_awake_def read_inv_def)

theorem parked_reader_has_nothing_to_report_witness:
  "\<not> ev_is_set flat_capy (st_read_ready (sys_stream demo_parked))
    \<and> buffered (st_chunks (sys_stream demo_parked)) (st_front_offset (sys_stream demo_parked)) = []"
  using parked_reader_has_nothing_to_report [OF demo_parked_reach,
      of "\<lparr>sink_bp = ([], 2), sink_copied = 0\<rparr>"]
  by (simp add: demo_defs)

text \<open>
  Write accounting: the bytes nghttp2 took from this stream are exactly the bytes that
  completed writes reported, plus, while a write is pending, the part of it that was taken so far.
  This includes writes that ended by cancellation or because the stream closed.
\<close>

theorem write_accounting:
  assumes "reachable (starts K written room rest) (stream_step K written rest) s"
  shows "sys_pulled s = sys_reported s @
    (if sys_writing s then take (st_write_offset (sys_stream s)) (sys_write_data s) else [])"
  using stream_inv.inv_reachable [OF assms] by (auto simp: sys_inv_def write_inv_def Let_def)

theorem write_accounting_witness:
  "sys_pulled demo_pulled = [4, 5] \<and> sys_writing demo_pulled \<and>
   sys_pulled demo_pulled = sys_reported demo_pulled @
     (if sys_writing demo_pulled then take (st_write_offset (sys_stream demo_pulled)) (sys_write_data demo_pulled) else [])"
  using write_accounting [OF demo_pulled_reach] by (simp add: demo_pulled_def demo_written_def)

text \<open>
  C19. No wakeup of a writer is lost, and none waits behind a deferred data provider: while a write
  waits on an event that is not set, its bytes are on offer to nghttp2, the stream is open, and the
  provider is not left deferred.
\<close>

theorem waiting_writer_is_on_offer:
  assumes "reachable (starts K written room rest) (stream_step K written rest) s"
    and "sys_writing s" and "\<not> ev_is_set K (st_write_progress (sys_stream s))"
  shows "st_write_pending (sys_stream s) \<and> \<not> st_closed (sys_stream s) \<and> \<not> st_write_deferred (sys_stream s)
    \<and> rest (st_pending (sys_stream s)) = drop (st_write_offset (sys_stream s)) (sys_write_data s)"
  using stream_inv.inv_reachable [OF assms(1)] assms(2,3) by (auto simp: sys_inv_def write_inv_def Let_def)

theorem waiting_writer_is_on_offer_witness:
  "st_write_pending (sys_stream demo_pulled) \<and> snd (st_pending (sys_stream demo_pulled)) = [6]"
  using waiting_writer_is_on_offer [OF demo_pulled_reach] by (simp add: demo_defs)

section \<open>Properties of single operations\<close>

text \<open>
  What \<open>read_some\<close> does, on every branch. It always gets to a result. Queued bytes come
  first: as many as fit, removed from the queue and credited. Without bytes to return it reports
  \<open>eof\<close> after END_STREAM, \<open>stream_truncated\<close> after a close without END_STREAM, and parks
  otherwise.
\<close>

theorem read_some_result:
  assumes "sink_ok K written room" and "chunks_wf (st_chunks st) (st_front_offset st)"
    and "q = buffered (st_chunks st) (st_front_offset st)" and "n = min (room bp) (length q)"
  shows "\<exists>out st' effs. read_some K bp st = Some (out, st', effs) \<and>
    (if 0 < n
     then (\<exists>bp'. out = Read_done (None, n) bp' \<and> written bp' = written bp @ take n q) \<and>
          buffered (st_chunks st') (st_front_offset st') = drop n q \<and>
          effs = [Consume_stream (st_id st) n, Start_write]
     else if st_read_eof st then out = Read_done (Some Error_eof, 0) bp \<and> st' = st \<and> effs = []
     else if st_closed st
     then out = Read_done (Some Error_stream_truncated, 0) bp \<and> st' = st \<and> effs = []
     else out = Read_parked \<and> st_read_sink st' = Some \<lparr>sink_bp = bp, sink_copied = 0\<rparr> \<and> effs = [])"
proof (cases "0 < n")
  case True
  with assms(3,4) have "n = min (room bp) (length (buffered (st_chunks st) (st_front_offset st)))"
    by simp
  from read_some_data [OF assms(1,2) this True] obtain chunks front bp' where
    "read_some K bp st = Some (Read_done (None, n) bp',
       st\<lparr>st_chunks := chunks, st_front_offset := front\<rparr>, [Consume_stream (st_id st) n, Start_write])"
    "written bp' = written bp @ take n q" "buffered chunks front = drop n q"
    unfolding assms(3) .
  with True show ?thesis by auto
next
  case False
  then have "room bp = 0 \<or> buffered (st_chunks st) (st_front_offset st) = []"
    using assms(3,4) by auto
  from read_some_no_data [OF assms(1,2) this] False show ?thesis
    by (auto simp: eof_error_def read_park_def)
qed

theorem read_some_result_witness:
  "\<exists>out st' effs. read_some flat_capy ([], 8) (sys_stream demo_read) = Some (out, st', effs)
    \<and> (\<exists>bp'. out = Read_done (None, 1) bp' \<and> fst bp' = [3]) \<and> effs = [Consume_stream 1 1, Start_write]"
proof -
  have "chunks_wf (st_chunks (sys_stream demo_read)) (st_front_offset (sys_stream demo_read))"
    "[3] = buffered (st_chunks (sys_stream demo_read)) (st_front_offset (sys_stream demo_read))"
    "1 = min (snd ([] :: byte list, 8 :: nat)) (length [3 :: byte])"
    by (simp_all add: demo_read_stream buffered_def chunks_wf_def)
  from read_some_result [OF library_okD(2) [OF flat_capy_ok] this] show ?thesis
    unfolding demo_read_stream by fastforce
qed

text \<open>
  C38. A read into an empty buffer sequence is answered as if nothing were buffered, although bytes are
  queued: after END_STREAM it reports \<open>eof\<close>, after a close without END_STREAM \<open>stream_truncated\<close>,
  with the bytes still unread. Before that it parks, and the arrival of more data only parks it again.
\<close>

theorem empty_read_ignores_queued_data:
  assumes "sink_ok K written room" and "chunks_wf (st_chunks st) (st_front_offset st)" and "room bp = 0"
    and "buffered (st_chunks st) (st_front_offset st) = b # q" and "sink = \<lparr>sink_bp = bp, sink_copied = 0\<rparr>"
  shows "(st_read_eof st \<longrightarrow> read_some K bp st = Some (Read_done (Some Error_eof, 0) bp, st, [])) \<and>
    (\<not> st_read_eof st \<and> st_closed st \<longrightarrow>
      read_some K bp st = Some (Read_done (Some Error_stream_truncated, 0) bp, st, [])) \<and>
    (\<not> st_read_eof st \<and> \<not> st_closed st \<longrightarrow>
      read_some K bp st = Some (Read_parked, read_park K sink st, []) \<and>
      (\<exists>sink'. st_read_sink (on_data K d (read_park K sink st)) = Some sink' \<and>
        fst (read_some_resume K None sink' (on_data K d (read_park K sink st))) = Read_parked))"
proof -
  have "read_some K bp st = Some
    (if st_read_eof st \<or> st_closed st then (Read_done (eof_error st, 0) bp, st, [])
     else (Read_parked, read_park K sink st, []))"
    using read_some_no_data [OF assms(1,2)] assms(3,5) by blast
  moreover obtain bp' where "bp_copy K bp d = (0, bp')"
    using sink_okD(1) [OF assms(1), of bp d] assms(3) by (cases "bp_copy K bp d") auto
  ultimately show ?thesis
    by (simp add: eof_error_def on_data_def read_park_def sink_put_def read_some_resume_def assms(5) Let_def)
qed

theorem empty_read_ignores_queued_data_witness:
  "read_some flat_capy ([], 0) (on_read_eof flat_capy (sys_stream demo_read)) =
     Some (Read_done (Some Error_eof, 0) ([], 0), on_read_eof flat_capy (sys_stream demo_read), [])"
proof -
  let ?st = "on_read_eof flat_capy (sys_stream demo_read)"
  have "chunks_wf (st_chunks ?st) (st_front_offset ?st)" "snd ([] :: byte list, 0 :: nat) = 0"
    "buffered (st_chunks ?st) (st_front_offset ?st) = 3 # []" "st_read_eof ?st"
    by (simp_all add: demo_read_stream buffered_def chunks_wf_def on_read_eof_def)
  from empty_read_ignores_queued_data [OF library_okD(2) [OF flat_capy_ok] this(1-3) refl, of "[]"] this(4)
  show ?thesis by blast
qed

lemma direct_delivery:
  assumes "sink_ok K written room" and "sink_full K room"
    and "st_chunks st = []" and "st_front_offset st = 0" and "d \<noteq> []" and "0 < room bp"
  shows "\<exists>sink bp' st'.
    st_read_sink (on_data K d (read_park K \<lparr>sink_bp = bp, sink_copied = 0\<rparr> st)) = Some sink \<and>
    read_some_resume K None sink (on_data K d (read_park K \<lparr>sink_bp = bp, sink_copied = 0\<rparr> st))
      = (Read_done (None, min (room bp) (length d)) bp', st',
         [Consume_stream (st_id st) (min (room bp) (length d)), Start_write]) \<and>
    written bp' = written bp @ take (min (room bp) (length d)) d \<and>
    unread written st' = drop (min (room bp) (length d)) d"
proof -
  let ?n = "min (room bp) (length d)" and ?st0 = "read_park K \<lparr>sink_bp = bp, sink_copied = 0\<rparr> st"
  obtain n snk where put: "sink_put K d \<lparr>sink_bp = bp, sink_copied = 0\<rparr> = (n, snk)" by fastforce
  have n: "n = ?n" using sink_put_full [OF assms(2) put] by simp
  have snk: "written (sink_bp snk) = written bp @ take ?n d" "sink_copied snk = ?n"
    using sink_put_spec(4,6) [OF assms(1) put] by (simp_all add: n)
  have pos: "0 < ?n" using assms(5,6) by simp
  have "on_data K d ?st0 = ?st0\<lparr>st_read_sink := Some snk, st_chunks := pieces (drop ?n d),
      st_read_ready := ev_set K (st_read_ready ?st0)\<rparr>"
    using on_data_sink [of ?st0 _ K d, OF _ put] assms(3) by (simp add: read_park_def n)
  moreover have "buffered (pieces (drop ?n d)) 0 = drop ?n d"
    by (simp only: pieces_def buffered_def) simp
  ultimately show ?thesis
    using snk pos assms(4)
    by (simp add: read_some_resume_def Let_def consume_def unread_def in_flight_def read_park_def
        del: min_less_iff_conj)
qed

lemma queued_delivery:
  assumes "sink_ok K written room"
    and "st_chunks st = []" and "st_front_offset st = 0" and "st_read_sink st = None"
    and "d \<noteq> []" and "0 < room bp"
  shows "\<exists>bp' st'. read_some K bp (on_data K d st)
      = Some (Read_done (None, min (room bp) (length d)) bp', st',
          [Consume_stream (st_id st) (min (room bp) (length d)), Start_write]) \<and>
    written bp' = written bp @ take (min (room bp) (length d)) d \<and>
    unread written st' = drop (min (room bp) (length d)) d"
proof -
  let ?st = "on_data K d st"
  have wf: "chunks_wf (st_chunks ?st) (st_front_offset ?st)"
    and q: "buffered (st_chunks ?st) (st_front_offset ?st) = d"
    and id: "st_id ?st = st_id st" "st_read_sink ?st = None"
    using assms(2-5) by (simp_all add: on_data_no_sink pieces_def chunks_wf_def buffered_def)
  have "min (room bp) (length d) = min (room bp) (length (buffered (st_chunks ?st) (st_front_offset ?st)))"
    by (simp add: q)
  moreover have "0 < min (room bp) (length d)" using assms(5,6) by simp
  ultimately obtain chunks front bp' where
    "read_some K bp ?st = Some (Read_done (None, min (room bp) (length d)) bp',
      ?st\<lparr>st_chunks := chunks, st_front_offset := front\<rparr>,
      [Consume_stream (st_id ?st) (min (room bp) (length d)), Start_write])"
    "written bp' = written bp @ take (min (room bp) (length d)) d"
    "buffered chunks front = drop (min (room bp) (length d)) d"
    using read_some_data [OF assms(1) wf] unfolding q by metis
  then show ?thesis by (auto simp: id unread_def in_flight_def)
qed

text \<open>
  C40. The direct path is equivalent to the buffered one: a read that is already parked when bytes
  arrive returns the same bytes, leaves the same queue and credits the same amount as a read that
  is issued after the same bytes were queued.
\<close>

theorem direct_delivery_equiv:
  assumes "sink_ok K written room" and "sink_full K room"
    and "st_chunks st = []" and "st_front_offset st = 0" and "st_read_sink st = None"
    and "d \<noteq> []" and "0 < room bp"
    and "n = min (room bp) (length d)" and "effs = [Consume_stream (st_id st) n, Start_write]"
    and "parked = on_data K d (read_park K \<lparr>sink_bp = bp, sink_copied = 0\<rparr> st)"
  shows "\<exists>sink bp1 st1 bp2 st2.
    st_read_sink parked = Some sink \<and>
    read_some_resume K None sink parked = (Read_done (None, n) bp1, st1, effs) \<and>
    read_some K bp (on_data K d st) = Some (Read_done (None, n) bp2, st2, effs) \<and>
    written bp1 = written bp @ take n d \<and> written bp2 = written bp @ take n d \<and>
    unread written st1 = drop n d \<and> unread written st2 = drop n d"
  using direct_delivery [OF assms(1-4,6,7)] queued_delivery [OF assms(1,3-7)]
  unfolding assms(8-10) by metis

theorem direct_delivery_equiv_witness:
  "\<exists>bp2 st2. read_some flat_capy ([], 2) (on_data flat_capy [1, 2, 3] (new_stream flat_capy 1 []))
     = Some (Read_done (None, 2) bp2, st2, [Consume_stream 1 2, Start_write])
   \<and> fst bp2 = [1, 2] \<and> unread fst st2 = [3]"
  using direct_delivery_equiv [OF library_okD(2,3) [OF flat_capy_ok], of "new_stream flat_capy 1 []"
      "[1, 2, 3]" "([], 2)" 2, OF _ _ _ _ _ _ refl refl]
  by (auto simp: new_stream_def numeral_2_eq_2)

text \<open>
  The data provider. Without a pending write it defers and remembers that. Otherwise it hands
  over the next bytes of the write, at most \<open>len\<close>; it raises the end-of-data flag exactly when an
  end was asked for and this call takes the last byte; and it completes the write exactly when the
  write asked for no end or is drained. A completed write is gone: the next call defers, so no
  empty DATA frame can follow.
\<close>

theorem producer_callback_result:
  assumes "source_ok K rest" and "producer_callback K len st = (res, eof, st')"
    and "bs = take len (rest (st_pending st))"
    and "fin \<longleftrightarrow> \<not> st_write_eof_requested st \<or> st_write_offset st + length bs = cb_byte_size K (st_pending st)"
  shows "if st_write_pending st
    then res = Copied bs \<and> st_write_offset st' = st_write_offset st + length bs
      \<and> rest (st_pending st') = drop (length bs) (rest (st_pending st))
      \<and> (eof \<longleftrightarrow> st_write_eof_requested st \<and> fin) \<and> (st_write_pending st' \<longleftrightarrow> \<not> fin)
      \<and> (fin \<longrightarrow> fst (producer_callback K len2 st') = Deferred)
    else res = Deferred \<and> \<not> eof \<and> st' = st\<lparr>st_write_deferred := True\<rparr>"
proof (cases "st_write_pending st")
  case True
  have cp: "cb_copy K (st_pending st) len = bs" using assms(1,3) by (simp add: source_ok_def)
  have sz: "cb_byte_size K (cb_consume K c n) = cb_byte_size K c"
    and rs: "rest (cb_consume K c n) = drop n (rest c)" for c n
    using assms(1) by (simp_all add: source_ok_def)
  show ?thesis
    using assms(2,4) True
    by (cases fin; cases "st_write_eof_requested st")
      (simp_all add: producer_callback_def cp sz rs Let_def split: if_splits, auto simp: rs)
qed (use assms(2) in \<open>simp add: producer_callback_def\<close>)

theorem producer_callback_result_witness:
  "\<exists>st'. producer_callback flat_capy 8 (sys_stream demo_pulled) = (Copied [6], True, st')
    \<and> fst (producer_callback flat_capy 8 st') = Deferred"
proof -
  obtain res eof st' where p: "producer_callback flat_capy 8 (sys_stream demo_pulled) = (res, eof, st')"
    by (metis prod_cases3)
  have "[6] = take 8 (snd (st_pending (sys_stream demo_pulled)))"
    and "True \<longleftrightarrow> \<not> st_write_eof_requested (sys_stream demo_pulled) \<or>
      st_write_offset (sys_stream demo_pulled) + length [6 :: byte] = cb_byte_size flat_capy (st_pending (sys_stream demo_pulled))"
    and "st_write_pending (sys_stream demo_pulled)" "st_write_eof_requested (sys_stream demo_pulled)"
    by (simp_all add: demo_defs)
  with producer_callback_result [OF library_okD(4) [OF flat_capy_ok] p this(1,2)] p show ?thesis by auto
qed

text \<open>
  Starting a write. On a closed stream it fails with \<open>eof\<close> and changes nothing. Otherwise it
  puts the caller's bytes on offer from offset zero, resumes the data provider exactly when that
  was deferred, and always wakes the send loop after that.
\<close>

theorem write_impl_result:
  assumes "source_ok K rest" and "length buffers \<le> max_iovec K"
    and "write_impl K buffers eof st = (out, st', effs)"
  shows "if st_closed st then out = Write_done (Some Error_eof, 0) \<and> st' = st \<and> effs = []
    else out = Write_parked \<and> st_write_pending st' \<and> rest (st_pending st') = concat buffers
      \<and> st_write_offset st' = 0 \<and> cb_byte_size K (st_pending st') = length (concat buffers)
      \<and> st_write_eof_requested st' = eof \<and> \<not> st_write_deferred st'
      \<and> effs = (if st_write_deferred st then [Resume_data (st_id st), Start_write] else [Start_write])"
  using assms by (auto simp: write_impl_def source_ok_def Let_def split: if_splits)

theorem write_impl_result_witness:
  "\<exists>st' effs. write_impl flat_capy [[4], [5, 6]] True (sys_stream demo_read) = (Write_parked, st', effs)
    \<and> snd (st_pending st') = [4, 5, 6] \<and> effs = [Start_write]"
proof -
  obtain out st' effs where w: "write_impl flat_capy [[4], [5, 6]] True (sys_stream demo_read) = (out, st', effs)"
    by (metis prod_cases3)
  from write_impl_result [OF library_okD(4) [OF flat_capy_ok] _ w] w demo_read_stream(5) show ?thesis
    by (simp add: flat_capy_def demo_read_def demo_filled_def demo_parked_def init_sys_def new_stream_def
        on_data_def read_park_def sink_put_def Let_def)
qed

text \<open>
  Closing wakes everything that waits on the stream: after \<open>on_close\<close> a parked read, a
  waiting write and a waiting status request can all resume, and a read or a status request that
  then has nothing to report returns the end-of-stream error.
\<close>

theorem on_close_wakes_all:
  assumes "event_ok K"
  shows "may_resume K None (st_read_ready (on_close K st)) \<and>
    may_resume K None (st_write_progress (on_close K st)) \<and>
    may_resume K None (st_status_ready (on_close K st)) \<and>
    (sink_copied sink = 0 \<longrightarrow>
      fst (read_some_resume K None sink (on_close K st)) = Read_done (eof_error st, 0) (sink_bp sink)) \<and>
    (st_status st < 0 \<longrightarrow> status_resume None (on_close K st) = Status_done (eof_error st, 0))"
  using assms
  by (simp add: event_ok_def on_close_def may_resume_def read_some_resume_def status_resume_def
      eof_error_def Let_def)

theorem on_close_wakes_all_witness:
  "may_resume flat_capy None (st_write_progress (on_close flat_capy (sys_stream demo_pulled))) \<and>
   status_resume None (on_close flat_capy (sys_stream demo_pulled)) = Status_done (Some Error_stream_truncated, 0)"
  using on_close_wakes_all [OF library_okD(1) [OF flat_capy_ok], of "sys_stream demo_pulled"]
  by (simp add: demo_defs eof_error_def)

text \<open>
  C37. A write that is interrupted by a close reports success. If the stream closes while a write
  waits, the write resumes without an error and reports what was taken so far. For \<open>write_eof\<close>
  this means success although neither the remaining bytes nor the end of the body was sent.
\<close>

theorem write_interrupted_by_close_reports_success:
  assumes "reachable (starts K written room rest) (stream_step K written rest) s"
    and "sys_writing s" and "t = s\<lparr>sys_stream := on_close K (sys_stream s)\<rparr>"
  shows "stream_step K written rest s t \<and> may_resume K None (st_write_progress (sys_stream t))
    \<and> fst (write_impl_resume None (sys_stream t)) = (None, st_write_offset (sys_stream s))
    \<and> sys_pulled t = sys_reported t @ take (st_write_offset (sys_stream s)) (sys_write_data s)"
proof -
  from stream_inv.inv_reachable [OF assms(1)] have "event_ok K"
    "sys_pulled s = sys_reported s @ take (st_write_offset (sys_stream s)) (sys_write_data s)"
    using assms(2) by (auto simp: sys_inv_def library_ok_def write_inv_def Let_def)
  then show ?thesis
    using step_close [of K written rest s]
    by (simp add: assms(3) event_ok_def on_close_def may_resume_def write_impl_resume_def)
qed

theorem write_interrupted_by_close_reports_success_witness:
  "\<exists>t. demo_step demo_pulled t \<and> st_write_eof_requested (sys_stream t)
    \<and> fst (write_impl_resume None (sys_stream t)) = (None, 2) \<and> sys_write_data t = [4, 5, 6]
    \<and> sys_pulled t = [4, 5]"
  using write_interrupted_by_close_reports_success [OF demo_pulled_reach, OF _ refl]
  by (intro exI [of _ "demo_pulled\<lparr>sys_stream := on_close flat_capy (sys_stream demo_pulled)\<rparr>"])
    (simp add: demo_defs on_close_def numeral_2_eq_2)

lemma sint_less_0_iff: "sint (v :: 32 word) < 0 \<longleftrightarrow> \<not> unat v < 2 ^ 31"
proof -
  have ge: "0 \<le> uint v" by simp
  have lt: "uint v < 2 ^ 32" using uint_lt2p [of v] by simp
  have "sint v < 0 \<longleftrightarrow> bit (uint v) 31"
    by (simp add: sint_uint)
  also have "\<dots> \<longleftrightarrow> odd (uint v div 2 ^ 31)" by (simp add: bit_iff_odd)
  also have "\<dots> \<longleftrightarrow> 2 ^ 31 \<le> uint v"
  proof (cases "2 ^ 31 \<le> uint v")
    case True
    then have "uint v div 2 ^ 31 = (uint v - 2 ^ 31) div 2 ^ 31 + 1" by (simp add: div_pos_geq)
    also have "(uint v - 2 ^ 31) div 2 ^ 31 = 0" using True lt by (simp add: div_pos_pos_trivial)
    finally show ?thesis using True by simp
  next
    case False
    then have "uint v div 2 ^ 31 = 0" using ge by (simp add: div_pos_pos_trivial)
    with False show ?thesis by simp
  qed
  also have "\<dots> \<longleftrightarrow> \<not> unat v < 2 ^ 31" 
    unfolding unat_eq_nat_uint nat_less_iff [OF ge] by (simp add: not_less)
  finally show ?thesis .
qed

text \<open>
  The status survives the trip through the signed field exactly when it is below \<open>2 ^ 31\<close>: then
  \<open>status()\<close> returns it at once, otherwise \<open>status()\<close> takes it for missing and parks.
\<close>

lemma status_roundtrip:
  "fst (status_co K (set_status K v st)) =
     (if unat v < 2 ^ 31 then Status_done (None, v) else Status_parked)"
  by (simp add: status_co_def set_status_def sint_less_0_iff)

lemma consume_ones_0: "consume_sizes (replicate m (Suc 0)) 0 = replicate m (Suc 0)"
  by (cases m) auto

lemma consume_ones: "consume_sizes (replicate (n + m) (Suc 0)) n = replicate m (Suc 0)"
  by (induction n) (auto simp: consume_ones_0)

lemma dropWhile_ones: "dropWhile (\<lambda>k. k = 0) (replicate n (Suc 0)) = replicate n (Suc 0)"
  by (cases n) auto

lemma window_ones: "window w (replicate n (Suc 0)) = min w n"
  by (simp add: window_def dropWhile_ones sum_list_replicate)

text \<open>
  C39. Order depends on how much of the destination one copy can reach. With a library that keeps
  every law but shows only \<open>w\<close> buffers of a destination at a time, a parked read into \<open>w + 1\<close>
  one-byte buffers can return bytes out of order: the first delivery of \<open>w + 1\<close> bytes fills the
  window and queues its last byte, and the next delivery is then copied into the buffer that has
  become visible, ahead of the queued byte.
\<close>

theorem windowed_reads_reorder:
  fixes d :: "byte list"
  assumes "0 < w" and "length d = w" and "K = windowed_capy w"
    and "parked = read_park K \<lparr>sink_bp = ([], replicate (w + 1) 1), sink_copied = 0\<rparr> (new_stream K 1 [])"
    and "st = on_data K [y] (on_data K (d @ [x]) parked)"
  shows "event_ok K \<and> sink_ok K fst (\<lambda>b. sum_list (snd b)) \<and> source_ok K snd \<and>
    (\<exists>sink st'. st_read_sink st = Some sink \<and>
      read_some_resume K None sink st =
        (Read_done (None, w + 1) (d @ [y], []), st', [Consume_stream 1 (w + 1), Start_write]) \<and>
      st_chunks st' = [[x]])"
proof -
  have "consume_sizes (replicate (w + 1) 1) w = [1]" using consume_ones [of w 1] by simp
  moreover have "window w (replicate (w + 1) 1) = w" using window_ones [of w "w + 1"] by simp
  ultimately have put1: "sink_put K (d @ [x]) \<lparr>sink_bp = ([], replicate (w + 1) 1), sink_copied = 0\<rparr>
      = (w, \<lparr>sink_bp = (d, [1]), sink_copied = w\<rparr>)"
    using assms(2) by (simp add: sink_put_def assms(3) windowed_capy_def min_def del: replicate_add)
  have put2: "sink_put K [y] \<lparr>sink_bp = (d, [1]), sink_copied = w\<rparr>
      = (1, \<lparr>sink_bp = (d @ [y], []), sink_copied = w + 1\<rparr>)"
    using window_ones [of w 1] assms(1) by (simp add: sink_put_def assms(3) windowed_capy_def)
  have "on_data K (d @ [x]) parked = parked\<lparr>st_read_sink := Some \<lparr>sink_bp = (d, [1]), sink_copied = w\<rparr>,
      st_chunks := [[x]], st_read_ready := True\<rparr>"
    using on_data_sink [of parked _ K "d @ [x]", OF _ put1] assms(2)
    by (simp add: assms(4) read_park_def new_stream_def pieces_def) (simp add: assms(3) windowed_capy_def)
  then have "st = parked\<lparr>st_read_sink := Some \<lparr>sink_bp = (d @ [y], []), sink_copied = w + 1\<rparr>,
      st_chunks := [[x]], st_read_ready := True\<rparr>"
    using on_data_sink [of "on_data K (d @ [x]) parked" _ K "[y]", OF _ put2]
    by (simp add: assms(5) pieces_def) (simp add: assms(3) windowed_capy_def)
  then show ?thesis
    using windowed_capy_ok [OF assms(1)]
    by (simp add: assms(3,4) read_some_resume_def Let_def consume_def read_park_def new_stream_def)
qed

theorem windowed_reads_reorder_witness:
  "\<exists>sink. st_read_sink (on_data (windowed_capy 2) [4] (on_data (windowed_capy 2) ([1, 2] @ [3])
      (read_park (windowed_capy 2) \<lparr>sink_bp = ([], replicate (2 + 1) 1), sink_copied = 0\<rparr>
        (new_stream (windowed_capy 2) 1 [])))) = Some sink \<and> fst (sink_bp sink) = [1, 2, 4]"
proof -
  from windowed_reads_reorder [of 2 "[1, 2]", OF _ _ refl refl refl, of 4 3]
  obtain sink where "st_read_sink (on_data (windowed_capy 2) [4] (on_data (windowed_capy 2) ([1, 2] @ [3])
      (read_park (windowed_capy 2) \<lparr>sink_bp = ([], replicate (2 + 1) 1), sink_copied = 0\<rparr>
        (new_stream (windowed_capy 2) 1 [])))) = Some sink"
    and "sink_bp sink = ([1, 2, 4], [])"
    by (auto simp: read_some_resume_def Let_def split: if_splits)
  then show ?thesis by auto
qed

section \<open>Well-formedness and bounds\<close>

text \<open>
  C32. A stream is well formed in every reachable state: no queued chunk is empty, the offset into the
  front chunk lies inside it, so the subtraction \<open>chunk.size() - front_offset_\<close> never wraps around,
  a published sink counts the bytes it was given and has no room left when something is queued
  behind it, a pending write belongs to a suspended writer and is not deferred, and the write offset
  never passes the size of what is being written.
\<close>

theorem stream_well_formed:
  assumes "reachable (starts K written room rest) (stream_step K written rest) s"
  shows "let st = sys_stream s in
    (\<forall>c \<in> set (st_chunks st). c \<noteq> []) \<and>
    (if st_chunks st = [] then st_front_offset st = 0 else st_front_offset st < length (hd (st_chunks st))) \<and>
    (\<forall>sink. st_read_sink st = Some sink \<longrightarrow>
       sink_copied sink = length (written (sink_bp sink)) \<and> (st_chunks st \<noteq> [] \<longrightarrow> room (sink_bp sink) = 0)) \<and>
    (st_write_pending st \<longrightarrow> sys_writing s \<and> \<not> st_write_deferred st) \<and>
    (sys_writing s \<longrightarrow> st_write_offset st \<le> cb_byte_size K (st_pending st))"
proof -
  have inv: "read_inv written room (sys_stream s)" "write_inv K rest s"
    using stream_inv.inv_reachable [OF assms] by (simp_all add: sys_inv_def read_sys_inv_def)
  from inv(1) have "chunks_wf (st_chunks (sys_stream s)) (st_front_offset (sys_stream s))"
    and sink: "st_read_sink (sys_stream s) = Some sink \<Longrightarrow> sink_copied sink = length (written (sink_bp sink)) \<and>
      (st_chunks (sys_stream s) \<noteq> [] \<longrightarrow> room (sink_bp sink) = 0)" for sink
    by (simp_all add: read_inv_def)
  then have "(\<forall>c \<in> set (st_chunks (sys_stream s)). c \<noteq> []) \<and>
      (if st_chunks (sys_stream s) = [] then st_front_offset (sys_stream s) = 0
       else st_front_offset (sys_stream s) < length (hd (st_chunks (sys_stream s))))"
    by (auto simp: chunks_wf_def split: list.splits)
  with sink inv(2) show ?thesis by (auto simp: write_inv_def Let_def split: if_splits)
qed

theorem stream_well_formed_witness:
  "st_chunks (sys_stream demo_read) \<noteq> [] \<and>
   st_front_offset (sys_stream demo_read) < length (hd (st_chunks (sys_stream demo_read)))"
  using stream_well_formed [OF demo_read_reach] by (simp add: demo_read_stream Let_def)

lemma chunk_memory:
  assumes "chunks_wf cs front"
  shows "sum_list (map length cs) = length (buffered cs front) + front"
proof (cases cs)
  case (Cons c ds)
  with assms have "front < length c" by (simp add: chunks_wf_Cons)
  then show ?thesis by (simp add: Cons buffered_Cons length_concat)
qed (use assms in simp)

text \<open>
  A stream whose peer keeps to a flow-control window of \<open>w\<close> bytes: no more is delivered than was
  consumed and fits into the window.
\<close>

definition windowed_step ::
  "('e, 'b, 'c) capy \<Rightarrow> ('b \<Rightarrow> byte list) \<Rightarrow> ('c \<Rightarrow> byte list) \<Rightarrow> nat
    \<Rightarrow> ('e, 'b, 'c) stream_sys \<Rightarrow> ('e, 'b, 'c) stream_sys \<Rightarrow> bool" where
  "windowed_step K written rest w s t \<longleftrightarrow>
     stream_step K written rest s t \<and> length (sys_received t) \<le> sys_consumed t + w"

definition windowed_inv ::
  "('e, 'b, 'c) capy \<Rightarrow> ('b \<Rightarrow> byte list) \<Rightarrow> ('b \<Rightarrow> nat) \<Rightarrow> ('c \<Rightarrow> byte list) \<Rightarrow> nat
    \<Rightarrow> ('e, 'b, 'c) stream_sys \<Rightarrow> bool" where
  "windowed_inv K written room rest w s \<longleftrightarrow>
     sys_inv K written room rest s \<and> length (sys_received s) \<le> sys_consumed s + w \<and>
     (\<forall>c \<in> set (st_chunks (sys_stream s)). length c \<le> w)"

text \<open>A chunk stays in the queue as it arrived until its last byte is read.\<close>

lemma drain_chunks_suffix:
  assumes "drain_chunks K chunks front bp tot = Some r"
  shows "set (fst r) \<subseteq> set chunks"
proof (rule drain_chunks.raw_induct [OF _ assms, of "\<lambda>K chunks front bp tot r. set (fst r) \<subseteq> set chunks"], goal_cases)
  case (1 drain K chunks front bp tot r)
  from 1(2) show ?case by (auto split: list.splits if_splits prod.splits dest: subsetD [OF 1(1)])
qed

lemma on_data_chunks:
  "set (st_chunks (on_data K d st)) \<subseteq> set (st_chunks st) \<union> {c. length c \<le> length d}"
  by (auto simp: on_data_def Let_def split: option.splits prod.splits)

lemma read_some_chunks:
  "read_some K bp st = Some (out, st', effs) \<Longrightarrow> set (st_chunks st') \<subseteq> set (st_chunks st)"
  using drain_chunks_suffix [of K "st_chunks st" "st_front_offset st" bp 0]
  by (fastforce simp: read_some_def read_park_def Let_def split: option.splits if_splits)

lemma stream_step_chunks:
  assumes "stream_step K written rest s t" "c \<in> set (st_chunks (sys_stream t))"
  shows "c \<in> set (st_chunks (sys_stream s)) \<or>
    length c + length (sys_received s) \<le> length (sys_received t) \<and> sys_consumed t = sys_consumed s"
  using assms
proof (induction rule: stream_step.induct)
  case (step_data s d)
  with on_data_chunks [of K d "sys_stream s"] show ?case by auto
next
  case (step_read s bp out st' effs)
  with read_some_chunks [OF step_read(3)] show ?case by auto
next
  case (step_read_wake s sink e out st' effs)
  then show ?case by (auto simp: read_some_resume_def read_park_def Let_def split: if_splits)
qed (auto simp: on_read_eof_def on_close_def write_impl_def write_impl_resume_def producer_callback_def set_status_def
    status_co_def set_id_def set_path_def set_content_length_def add_header_def Let_def split: if_splits)

lemma windowed_step_inv:
  assumes "windowed_inv K written room rest w s" "windowed_step K written rest w s t"
  shows "windowed_inv K written room rest w t"
proof -
  have st: "stream_step K written rest s t" "length (sys_received t) \<le> sys_consumed t + w"
    using assms(2) by (simp_all add: windowed_step_def)
  have "sys_inv K written room rest s" using assms(1) by (simp add: windowed_inv_def)
  then have inv: "sys_inv K written room rest t" using stream_inv.inv_step st(1) by blast
  have "length c \<le> w" if "c \<in> set (st_chunks (sys_stream t))" for c
    using stream_step_chunks [OF st(1) that]
  proof
    assume "length c + length (sys_received s) \<le> length (sys_received t) \<and> sys_consumed t = sys_consumed s"
    moreover have "sys_consumed s \<le> length (sys_received s)"
      using assms(1) by (simp add: windowed_inv_def sys_inv_def read_sys_inv_def)
    ultimately show ?thesis using st(2) by linarith
  qed (use assms(1) in \<open>auto simp: windowed_inv_def\<close>)
  with inv st(2) show ?thesis by (simp add: windowed_inv_def)
qed

interpretation windowed: step_invariant "starts K written room rest" "windowed_step K written rest w"
  "windowed_inv K written room rest w"
  for K :: "('e, 'b, 'c) capy" and written room rest w
proof unfold_locales
  fix s assume "starts K written room rest s"
  moreover from this have "sys_inv K written room rest s" by (rule stream_inv.inv_init)
  ultimately show "windowed_inv K written room rest w s"
    by (auto simp: windowed_inv_def starts_def init_sys_def new_stream_def)
qed (rule windowed_step_inv)

text \<open>
  C33. The flow-control window bounds the memory of a stream, and by how much: with a window of \<open>w\<close>
  bytes the chunks a stream keeps hold less than two windows at every moment, whatever the sizes of
  the deliveries and of the reads. It is not one window, since the front chunk is kept whole until its
  last byte is read while the bytes read of it are already credited to the peer.
\<close>

theorem buffering_is_bounded_by_window:
  assumes "reachable (starts K written room rest) (windowed_step K written rest w) s" "0 < w"
  shows "sum_list (map length (st_chunks (sys_stream s))) < 2 * w"
proof -
  let ?st = "sys_stream s"
  have inv: "sys_inv K written room rest s" "length (sys_received s) \<le> sys_consumed s + w"
    "\<forall>c \<in> set (st_chunks ?st). length c \<le> w"
    using windowed.inv_reachable [OF assms(1)] by (simp_all add: windowed_inv_def)
  then have wf: "chunks_wf (st_chunks ?st) (st_front_offset ?st)"
    and "length (buffered (st_chunks ?st) (st_front_offset ?st)) \<le> w"
    by (auto simp: sys_inv_def read_sys_inv_def read_inv_def unread_def)
  moreover have "st_front_offset ?st < w"
    using wf inv(3) assms(2) by (auto simp: chunks_wf_def split: list.splits)
  ultimately show ?thesis using chunk_memory [OF wf] by linarith
qed

text \<open>
  Two bytes arrive, one of them is read and credited, a third arrives: with a window of two bytes the
  stream holds three, the most there can be.
\<close>

definition demo_window :: "(bool, byte list \<times> nat, nat \<times> byte list) stream_sys" where
  "demo_window = (let s = init_sys flat_capy 1 [] in
     s\<lparr>sys_stream := (sys_stream s)\<lparr>st_chunks := [[1, 2], [3]], st_front_offset := 1, st_read_ready := True\<rparr>,
       sys_received := [1, 2, 3], sys_delivered := [1], sys_consumed := 1\<rparr>)"

lemma demo_window_reach:
  "reachable (starts flat_capy fst snd snd) (windowed_step flat_capy fst snd 2) demo_window"
proof -
  let ?w = "windowed_step flat_capy fst snd 2"
  let ?s0 = "init_sys flat_capy 1 [] :: (bool, byte list \<times> nat, nat \<times> byte list) stream_sys"
  let ?s1 = "?s0\<lparr>sys_stream := on_data flat_capy [1, 2] (sys_stream ?s0), sys_received := [1, 2]\<rparr>"
  let ?st2 = "(sys_stream ?s1)\<lparr>st_front_offset := 1\<rparr>"
  let ?s2 = "?s1\<lparr>sys_stream := ?st2, sys_delivered := [1], sys_consumed := 1\<rparr>"
  have "reachable (starts flat_capy fst snd snd) ?w ?s0"
    by (rule reachable_init) (auto simp: starts_def flat_capy_ok)
  moreover have "?w ?s0 ?s1"
    using step_data [of flat_capy fst snd ?s0 "[1, 2]"] by (simp add: windowed_step_def init_sys_def)
  moreover have "?w ?s1 ?s2"
    using step_read [of ?s1 fst "([], 1)" flat_capy "Read_done (None, 1) ([1], 0)" ?st2
        "[Consume_stream 1 1, Start_write]" snd]
    by (simp add: windowed_step_def demo_defs read_some_def drain_chunks.simps consume_def)
  moreover have "?w ?s2 demo_window"
    using step_data [of flat_capy fst snd ?s2 "[3]"] by (simp add: windowed_step_def demo_window_def demo_defs)
  ultimately show ?thesis by (blast intro: reachable_step)
qed

theorem buffering_is_bounded_by_window_witness:
  "sum_list (map length (st_chunks (sys_stream demo_window))) = 3 \<and>
   sum_list (map length (st_chunks (sys_stream demo_window))) < 2 * 2"
  using buffering_is_bounded_by_window [OF demo_window_reach] by (simp add: demo_window_def Let_def)

end
