(* ===== verification/Session_Properties.thy ===== *)
theory Session_Properties
  imports Session_System Stream_Properties
begin

text \<open>
  What the session guarantees: the consistency of the stream table and the refinement of the stream
  systems in every reachable state, the demultiplexing of a connection into its streams, the
  header fields that reach a stream and come back out of the text they were sent as, the contract
  of submitting requests and responses, and the teardown. A scripted library serves as the
  concrete instance of the theorems' hypotheses.
\<close>

section \<open>A scripted library\<close>

text \<open>A library without state of its own: a received byte string makes the given callbacks.\<close>

fun script :: "callback list \<Rightarrow> 'r \<Rightarrow> (unit, 'r) ng_call" where
  "script [] r = Ng_return r ()"
| "script (cb # cbs) r = Ng_callback cb () (\<lambda>_ _. script cbs r)"

definition demo_ng :: "callback list \<Rightarrow> unit nghttp2" where
  "demo_ng cbs =
     \<lparr>ng_option_new = 0, ng_callbacks_new = 0, ng_session_new = (\<lambda>_. (0, ())),
      ng_submit_settings = (\<lambda>_ _. ()), ng_set_local_window_size = (\<lambda>_ _ _. ()),
      ng_mem_recv2 = (\<lambda>_ bytes. script cbs (int (length bytes))),
      ng_mem_send2 = (\<lambda>_. Ng_return (Inr []) ()),
      ng_want_read = (\<lambda>_. True), ng_want_write = (\<lambda>_. False),
      ng_consume_connection = (\<lambda>_ _. ()), ng_consume_stream = (\<lambda>_ _ _. ()),
      ng_resume_data = (\<lambda>_ _. ()), ng_terminate_session = (\<lambda>_ _. ()),
      ng_submit_response2 = (\<lambda>_ _ _ _. (0, ())), ng_submit_request2 = (\<lambda>_ _ _. (1, ()))\<rparr>"

definition request_frame :: "stream_id \<Rightarrow> bool \<Rightarrow> frame" where
  "request_frame sid fin =
     \<lparr>fr_type = NGHTTP2_HEADERS, fr_stream_id = sid, fr_end_stream = fin, fr_cat = HCAT_REQUEST\<rparr>"

text \<open>Two requests, their bodies interleaved.\<close>

definition demo_open :: "callback list" where
  "demo_open =
     [Cb_begin_headers (request_frame 1 False), Cb_header (request_frame 1 False) '':path'' ''/a'',
      Cb_begin_headers (request_frame 3 False), Cb_header (request_frame 3 False) ''x'' ''y'']"

definition demo_bodies :: "callback list" where
  "demo_bodies =
     [Cb_data_chunk_recv 1 [1, 2], Cb_data_chunk_recv 3 [9], Cb_data_chunk_recv 1 [3],
      Cb_header (request_frame 1 True) ''trailer'' ''t'', Cb_stream_close 3 0]"

definition demo_call :: "(unit, int) ng_call" where
  "demo_call = script demo_bodies 10"

abbreviation demo_N :: "unit nghttp2" where
  "demo_N \<equiv> demo_ng demo_open"

definition demo_ready :: "(unit, bool, byte list \<times> nat, nat \<times> byte list) session" where
  "demo_ready = (new_session flat_capy Role_server True)\<lparr>ss_native := Some ()\<rparr>"

definition demo_session :: "(unit, bool, byte list \<times> nat, nat \<times> byte list) session" where
  "demo_session = snd (run_ng_call flat_capy demo_N (script demo_open (0 :: int)) demo_ready)"

lemmas session_eval = run_callback.simps on_begin_headers_callback_def is_request_headers_def
  request_frame_def on_header_callback_def on_data_chunk_recv_callback_def on_stream_close_callback_def
  with_stream_def with_native_def find_stream_def update_object_def create_stream_def close_stream_def
  emplace_def Let_def

lemma demo_session_eval:
  "ss_streams demo_session = [(3, 1), (1, 0)]"
  "ss_objects demo_session =
     [set_path ''/a'' (new_stream flat_capy 1 (log_prefix Role_server 1)),
      add_header ''x'' ''y'' (new_stream flat_capy 3 (log_prefix Role_server 3))]"
  "ss_native demo_session = Some ()" "ss_spawned demo_session = []" "ss_role demo_session = Role_server"
  by (simp_all add: demo_session_def demo_ready_def demo_open_def demo_ng_def new_session_def session_eval
      parse_content_length_def)

lemma demo_session_inv: "session_inv demo_session"
  by (simp add: session_inv_def demo_session_eval less_Suc_eq nth_Cons' new_stream_def)

lemma demo_session_find: "find_stream demo_session 1 = Some 0" "find_stream demo_session 3 = Some 1"
  by (simp_all add: find_stream_def demo_session_eval)

lemma callbacks_of_script: "callbacks_of K N (script cbs r) s = cbs"
  by (induction cbs arbitrary: s) (simp_all split: prod.split)

lemma script_returns: "fst (run_ng_call K N (script cbs r) s) = r"
  by (induction cbs arbitrary: s) (simp_all split: prod.split)

lemma demo_ng_recv: "ng_mem_recv2 (demo_ng cbs) g bytes = script cbs (int (length bytes))"
  by (simp add: demo_ng_def)

section \<open>Reachable sessions\<close>

text \<open>
  C20. In every reachable state of a session, whatever the peer sends, however the library calls
  back and however user coroutines interleave, an identifier found in the table leads to an
  existing stream object that carries exactly this identifier and is not closed, and no two
  identifiers share an object.
\<close>

theorem session_table_consistent:
  assumes "reachable (session_starts K written room rest) (session_step K N written) y"
    and "find_stream (sy_session y) sid = Some a"
  shows "a < length (ss_objects (sy_session y)) \<and> st_id (ss_objects (sy_session y) ! a) = sid \<and>
    \<not> st_closed (ss_objects (sy_session y) ! a) \<and>
    (\<forall>j. find_stream (sy_session y) j = Some a \<longrightarrow> j = sid)"
proof -
  have inv: "session_inv (sy_session y)"
    using session_invariant.inv_reachable [OF assms(1)] by (simp add: session_sys_inv_def)
  show ?thesis
    using session_invD [OF inv assms(2)] find_stream_unique [OF inv _ assms(2)] by blast
qed

definition demo_sys :: "(unit, bool, byte list \<times> nat, nat \<times> byte list) session_sys" where
  "demo_sys = \<lparr>sy_session = start_write flat_capy demo_session, sy_writing = {}, sy_asking = {}\<rparr>"

lemma demo_sys_reach:
  "reachable (session_starts flat_capy fst snd snd) (session_step flat_capy demo_N fst) demo_sys"
proof -
  let ?y = "\<lparr>sy_session = new_session flat_capy Role_server True, sy_writing = {}, sy_asking = {}\<rparr>"
  let ?z = "\<lparr>sy_session = demo_ready, sy_writing = {}, sy_asking = {}\<rparr>"
  have "reachable (session_starts flat_capy fst snd snd) (session_step flat_capy demo_N fst) ?y"
    by (rule reachable_init) (auto simp: session_starts_def flat_capy_ok)
  moreover have "session_step flat_capy demo_N fst ?y ?z"
    using session_setup [of demo_N ?y demo_ready flat_capy fst]
    by (simp add: run_setup_def demo_ng_def demo_ready_def)
  moreover have "session_step flat_capy demo_N fst ?z demo_sys"
    using session_recv [of ?z "()" flat_capy demo_N "[]" 0 demo_session fst]
    by (simp add: demo_sys_def demo_session_def demo_ng_recv prod_eq_iff script_returns)
      (simp add: demo_ready_def)
  ultimately show ?thesis by (blast intro: reachable_step)
qed

theorem session_table_consistent_witness:
  "find_stream (sy_session demo_sys) 3 = Some 1 \<and> st_id (ss_objects (sy_session demo_sys) ! 1) = 3 \<and>
   \<not> st_closed (ss_objects (sy_session demo_sys) ! 1)"
  using session_table_consistent [OF demo_sys_reach, of 3 1]
  by (simp add: demo_sys_def demo_session_find)

text \<open>
  C3. The session refines one stream system per object: in every reachable state of a session,
  every stream object is in a state the stream system can reach, with a suspended writer and a
  suspended status coroutine exactly where the session has them. Every property of the stream
  system therefore holds of every stream of every session.
\<close>

theorem session_refines_streams:
  assumes "reachable (session_starts K written room rest) (session_step K N written) y"
    and "a < length (ss_objects (sy_session y))"
  shows "\<exists>g. reachable (starts K written room rest) (stream_step K written rest) g \<and>
    sys_stream g = ss_objects (sy_session y) ! a \<and>
    sys_writing g = (a \<in> sy_writing y) \<and> sys_asking g = (a \<in> sy_asking y)"
  using session_invariant.inv_reachable [OF assms(1)] assms(2)
  by (simp add: session_sys_inv_def linked_def)

theorem session_refines_streams_witness:
  "\<exists>g. demo_reach g \<and> sys_stream g = add_header ''x'' ''y'' (new_stream flat_capy 3 (log_prefix Role_server 3)) \<and>
       sys_writing g = False \<and> sys_asking g = False"
  using session_refines_streams [OF demo_sys_reach, of 1]
  by (simp add: demo_sys_def demo_session_eval)

section \<open>Demultiplexing\<close>

text \<open>
  C4. A library call acts on a registered stream as the sequence of the callbacks that concern
  it: the object ends in the state the callbacks of its own identifier and the pulls of its own
  data provider lead to, one after the other, and stays registered, whatever the call does to the
  other streams and wherever it creates and closes them.
\<close>

theorem call_demultiplexes:
  assumes "session_inv s" and "find_stream s sid = Some a"
    and "\<forall>cb \<in> set (callbacks_of K N call s). \<not> closes sid cb"
    and "run_ng_call K N call s = (r, t)"
  shows "find_stream t sid = Some a \<and>
    ss_objects t ! a =
      foldl (\<lambda>st cb. deliver K sid a cb st) (ss_objects s ! a) (callbacks_of K N call s)"
  using call_demux.rel_call [of K sid a s N "call"] assms by (simp add: demux_def)

theorem call_demultiplexes_witness:
  "st_chunks (ss_objects (snd (run_ng_call flat_capy demo_N demo_call demo_session)) ! 0) = [[1, 2], [3]]"
  using call_demultiplexes [OF demo_session_inv demo_session_find(1), of flat_capy demo_N demo_call
      "fst (run_ng_call flat_capy demo_N demo_call demo_session)"
      "snd (run_ng_call flat_capy demo_N demo_call demo_session)"]
  by (simp add: demo_call_def callbacks_of_script demo_bodies_def closes_def demo_session_eval
      on_data_def new_stream_def set_path_def header_field_def request_frame_def
      add_header_def parse_content_length_def)

text \<open>The bytes and the header fields that a callback carries for a stream.\<close>

fun chunk_of :: "stream_id \<Rightarrow> callback \<Rightarrow> byte list" where
  "chunk_of sid (Cb_data_chunk_recv j data) = (if j = sid then data else [])"
| "chunk_of sid _ = []"

definition pseudo :: "string \<Rightarrow> bool" where
  "pseudo name \<longleftrightarrow> name \<noteq> [] \<and> hd name = CHR '':''"

fun fields_of :: "stream_id \<Rightarrow> callback \<Rightarrow> headers" where
  "fields_of sid (Cb_header f name value) =
     (if fr_stream_id f = sid \<and> \<not> pseudo name then [(name, value)] else [])"
| "fields_of sid _ = []"

lemma read_inv_cong:
  assumes "st_chunks st' = st_chunks st" "st_front_offset st' = st_front_offset st"
    "st_read_sink st' = st_read_sink st"
  shows "read_inv written room st' = read_inv written room st" "unread written st' = unread written st"
  using assms by (simp_all add: read_inv_def unread_def in_flight_def split: option.split)

lemma deliver_no_data:
  assumes "\<And>j d. cb \<noteq> Cb_data_chunk_recv j d"
  shows "st_chunks (deliver K sid a cb st) = st_chunks st"
    "st_front_offset (deliver K sid a cb st) = st_front_offset st"
    "st_read_sink (deliver K sid a cb st) = st_read_sink st"
  using assms
  by (cases cb; auto simp: header_field_def set_path_def set_status_def add_header_def on_read_eof_def
      set_content_length_def on_close_def producer_callback_def Let_def split: option.split)+

lemma deliver_data:
  assumes "sink_ok K written room" "sink_full K room" "read_inv written room st"
  shows "read_inv written room (deliver K sid a cb st) \<and>
    unread written (deliver K sid a cb st) = unread written st @ chunk_of sid cb"
proof (cases "\<exists>j d. cb = Cb_data_chunk_recv j d")
  case True
  with assms show ?thesis by (auto simp: on_data_read_inv on_data_unread)
next
  case False
  then have "chunk_of sid cb = []" by (cases cb) auto
  with False assms(3) show ?thesis
    using read_inv_cong [OF deliver_no_data] by (metis append_Nil2)
qed

lemma deliver_all_data:
  assumes "sink_ok K written room" "sink_full K room" "read_inv written room st"
  shows "read_inv written room (foldl (\<lambda>st cb. deliver K sid a cb st) st cbs) \<and>
    unread written (foldl (\<lambda>st cb. deliver K sid a cb st) st cbs)
      = unread written st @ concat (map (chunk_of sid) cbs)"
  using assms(3)
proof (induction cbs arbitrary: st)
  case (Cons cb cbs)
  from deliver_data [OF assms(1,2) Cons.prems] Cons.IH show ?case by simp
qed simp

lemma deliver_fields: "st_headers (deliver K sid a cb st) = st_headers st @ fields_of sid cb"
proof (cases cb)
  case (Cb_data_chunk_recv j d)
  then show ?thesis by (auto simp: on_data_def Let_def split: option.split prod.split)
next
  case (Cb_data_source_read b len)
  then show ?thesis by (simp add: producer_callback_def Let_def)
qed (auto simp: header_field_def pseudo_def set_path_def set_status_def add_header_def on_read_eof_def
      set_content_length_def on_close_def split: option.split)

lemma deliver_all_fields:
  "st_headers (foldl (\<lambda>st cb. deliver K sid a cb st) st cbs)
    = st_headers st @ concat (map (fields_of sid) cbs)"
  by (induction cbs arbitrary: st) (simp_all add: deliver_fields)

text \<open>
  Every stream receives its own bytes, all of them and in order: after a library call the
  bytes that the readers of a stream have not yet taken are those from before the call, followed
  by the DATA chunks the call carried for this stream, however they were interleaved with chunks
  of other streams.
\<close>

theorem call_delivers_data_in_order:
  assumes "sink_ok K written room" "sink_full K room" and "session_inv s"
    and "find_stream s sid = Some a" "read_inv written room (ss_objects s ! a)"
    and "\<forall>cb \<in> set (callbacks_of K N call s). \<not> closes sid cb"
    and "run_ng_call K N call s = (r, t)"
  shows "unread written (ss_objects t ! a)
    = unread written (ss_objects s ! a) @ concat (map (chunk_of sid) (callbacks_of K N call s))"
  using call_demux.rel_call [of K sid a s N "call"] assms(3-7) deliver_all_data [OF assms(1,2,5)]
  by (simp add: demux_def)

theorem call_delivers_data_in_order_witness:
  "unread fst (ss_objects (snd (run_ng_call flat_capy demo_N demo_call demo_session)) ! 0) = [1, 2, 3]"
  using call_delivers_data_in_order [OF library_okD(2,3) [OF flat_capy_ok] demo_session_inv
      demo_session_find(1), of demo_N demo_call
      "fst (run_ng_call flat_capy demo_N demo_call demo_session)"
      "snd (run_ng_call flat_capy demo_N demo_call demo_session)"]
  by (simp add: demo_call_def callbacks_of_script demo_bodies_def closes_def demo_session_eval
      read_inv_def unread_def in_flight_def new_stream_def set_path_def)

text \<open>
  Header fields reach their stream unfiltered and in order: after a library call
  \<open>headers()\<close> of a stream is what it was, followed by the non-pseudo fields the call carried for
  this stream, duplicates and a malformed content-length included.
\<close>

theorem call_delivers_fields_in_order:
  assumes "session_inv s" and "find_stream s sid = Some a"
    and "\<forall>cb \<in> set (callbacks_of K N call s). \<not> closes sid cb"
    and "run_ng_call K N call s = (r, t)"
  shows "st_headers (ss_objects t ! a)
    = st_headers (ss_objects s ! a) @ concat (map (fields_of sid) (callbacks_of K N call s))"
  using call_demux.rel_call [of K sid a s N "call"] assms by (simp add: demux_def deliver_all_fields)

theorem call_delivers_fields_in_order_witness:
  "st_headers (ss_objects (snd (run_ng_call flat_capy demo_N demo_call demo_session)) ! 0)
    = [(''trailer'', ''t'')]"
  using call_delivers_fields_in_order [OF demo_session_inv demo_session_find(1), of flat_capy demo_N
      demo_call "fst (run_ng_call flat_capy demo_N demo_call demo_session)"
      "snd (run_ng_call flat_capy demo_N demo_call demo_session)"]
  by (simp add: demo_call_def callbacks_of_script demo_bodies_def closes_def demo_session_eval
      new_stream_def set_path_def request_frame_def pseudo_def)

section \<open>Streams that left the table\<close>

text \<open>The status of a stream and the fields it reports with it.\<close>

definition status_side :: "('e, 'b, 'c) stream \<Rightarrow> int \<times> 'e \<times> headers \<times> size_t option" where
  "status_side st = (st_status st, st_status_ready st, st_headers st, st_content_length st)"

definition detached :: "addr \<Rightarrow> ('ng, 'e, 'b, 'c) session \<Rightarrow> bool" where
  "detached a s \<longleftrightarrow> a < length (ss_objects s) \<and> (\<forall>sid. find_stream s sid \<noteq> Some a)"

definition left_alone ::
  "addr \<Rightarrow> ('ng, 'e, 'b, 'c) session \<Rightarrow> ('ng, 'e, 'b, 'c) session \<Rightarrow> bool" where
  "left_alone a s t \<longleftrightarrow>
     (session_inv s \<longrightarrow> detached a s \<longrightarrow>
      session_inv t \<and> detached a t \<and> read_side (ss_objects t ! a) = read_side (ss_objects s ! a) \<and>
      status_side (ss_objects t ! a) = status_side (ss_objects s ! a))"

lemma detachedD: "detached a s \<Longrightarrow> a < length (ss_objects s)"
  by (simp add: detached_def)

lemma producer_callback_status_side:
  "status_side (snd (snd (producer_callback K len st))) = status_side st"
  by (simp add: status_side_def producer_callback_def Let_def)

lemma producer_callback_read_side_snd:
  "read_side (snd (snd (producer_callback K len st))) = read_side st"
  by (metis producer_callback_read_side prod.collapse)

lemma create_stream_detached: "detached a s \<Longrightarrow> detached a (snd (create_stream K sid s))"
  by (auto simp: detached_def find_stream_def create_stream_def Let_def table.lookup_insert)

lemma data_source_length [simp]:
  "length (ss_objects (snd (data_source_read_callback K b len s))) = length (ss_objects s)"
  by (simp add: data_source_read_callback_def split: prod.split)

lemma length_on_frame_recv [simp]:
  "length (ss_objects (on_frame_recv_callback K f s)) = length (ss_objects s)"
  by (simp add: on_frame_recv_callback_def Let_def split: option.split)

lemma length_close_stream [simp]: "length (ss_objects (close_stream K j s)) = length (ss_objects s)"
  by (simp add: close_stream_def Let_def split: option.split)

lemma run_callback_left_alone: "left_alone a s (snd (run_callback K N cb s))"
proof -
  have "detached a (snd (run_callback K N cb s)) \<and>
      read_side (ss_objects (snd (run_callback K N cb s)) ! a) = read_side (ss_objects s ! a) \<and>
      status_side (ss_objects (snd (run_callback K N cb s)) ! a) = status_side (ss_objects s ! a)"
    if inv: "session_inv s" and det: "detached a s"
  proof (cases cb)
    case (Cb_begin_headers f)
    with det create_stream_detached [OF det] show ?thesis
      by (auto simp: on_begin_headers_callback_def create_stream_object detached_def)
  next
    case (Cb_header f name val)
    with inv det show ?thesis by (simp add: on_header_callback_field object_with_stream detached_def)
  next
    case (Cb_frame_recv f)
    with inv det show ?thesis by (simp add: on_frame_recv_object detached_def)
  next
    case (Cb_data_chunk_recv j d)
    with inv det show ?thesis
      by (simp add: on_data_chunk_recv_callback_def object_with_stream detached_def)
  next
    case (Cb_stream_close j e)
    with inv det show ?thesis
      by (simp add: on_stream_close_callback_def close_stream_object find_stream_close detached_def)
  next
    case (Cb_data_source_read b len)
    with det show ?thesis
      by (simp add: data_source_object producer_callback_status_side producer_callback_read_side_snd
          detached_def)
  qed (use det in simp_all)
  then show ?thesis by (simp add: left_alone_def run_callback_inv)
qed

interpretation call_detached: callback_relation K N "\<lambda>s cbs t. left_alone a s t"
  for K :: "('e, 'b, 'c) capy" and N :: "'ng nghttp2" and a
proof unfold_locales
  fix s t :: "('ng, 'e, 'b, 'c) session" and cb g
  assume "left_alone a (snd (run_callback K N cb (s\<lparr>ss_native := Some g\<rparr>))) t"
  then show "left_alone a s t"
    using run_callback_left_alone [of a "s\<lparr>ss_native := Some g\<rparr>" K N cb]
    by (simp add: left_alone_def detached_def)
qed (simp add: left_alone_def detached_def)

text \<open>
  A stream that has left the table is out of the peer's reach: no library call delivers data,
  header fields, a status, the end of the stream or a close to it any more, not even when the peer
  uses its identifier again. Only its data provider may still be asked for bytes.
\<close>

theorem detached_stream_is_left_alone:
  assumes "session_inv s" "detached a s" "run_ng_call K N call s = (r, t)"
  shows "detached a t \<and> read_side (ss_objects t ! a) = read_side (ss_objects s ! a) \<and>
    status_side (ss_objects t ! a) = status_side (ss_objects s ! a)"
  using call_detached.rel_call [of a s K N "call"] assms by (simp add: left_alone_def)

definition demo_closed :: "(unit, bool, byte list \<times> nat, nat \<times> byte list) session" where
  "demo_closed = close_stream flat_capy 1 demo_session"

lemma demo_closed_facts:
  "session_inv demo_closed" "detached 0 demo_closed"
  "ss_objects demo_closed ! 0 = on_close flat_capy (ss_objects demo_session ! 0)"
  using demo_session_inv demo_session_find(1) find_stream_unique [OF demo_session_inv _ demo_session_find(1)]
  by (auto simp: demo_closed_def close_stream_inv detached_def find_stream_close close_stream_object
      demo_session_eval)

theorem detached_stream_is_left_alone_witness:
  "st_chunks (ss_objects (snd (run_ng_call flat_capy demo_N (script (demo_open @ demo_bodies) ()) demo_closed)) ! 0) = []"
proof -
  have "read_side (ss_objects demo_closed ! 0) = ([], 0, None, False, True, True)"
    by (simp add: demo_closed_facts(3) demo_session_eval new_stream_def set_path_def on_close_def
        read_side_def flat_capy_def)
  then show ?thesis
    using detached_stream_is_left_alone [OF demo_closed_facts(1,2), of flat_capy demo_N
        "script (demo_open @ demo_bodies) ()" "()"
        "snd (run_ng_call flat_capy demo_N (script (demo_open @ demo_bodies) ()) demo_closed)"]
    by (simp add: prod_eq_iff read_side_def)
qed

text \<open>
  A coroutine that asks a closed stream without a status for it. Its event is cleared, and nothing
  that may happen in the session from then on sets it.
\<close>

definition status_dead :: "('e, 'b, 'c) capy \<Rightarrow> addr \<Rightarrow> ('ng, 'e, 'b, 'c) session_sys \<Rightarrow> bool" where
  "status_dead K a y \<longleftrightarrow>
     session_inv (sy_session y) \<and> detached a (sy_session y) \<and> st_status (objects y ! a) < 0 \<and>
     \<not> ev_is_set K (st_status_ready (objects y ! a))"

lemma status_dead_same:
  assumes "status_dead K a y" "session_inv s" "detached a s"
    "status_side (ss_objects s ! a) = status_side (objects y ! a)"
  shows "status_dead K a (y\<lparr>sy_session := s, sy_writing := W, sy_asking := A\<rparr>)"
  using assms by (simp add: status_dead_def status_side_def)

lemma status_dead_call:
  assumes "status_dead K a y" "run_ng_call K N call (sy_session y) = (r, s)"
  shows "session_inv s" "detached a s" "status_side (ss_objects s ! a) = status_side (objects y ! a)"
  using assms call_detached.rel_call [of a "sy_session y" K N "call"]
  by (simp_all add: status_dead_def left_alone_def)

lemma coroutine_status_sides:
  "read_some K bp st = Some (out, st', effs) \<Longrightarrow> status_side st' = status_side st"
  "read_some_resume K e sink st = (out, st', effs) \<Longrightarrow> status_side st' = status_side st"
  "write_impl K buffers eof st = (wout, st', effs) \<Longrightarrow> status_side st' = status_side st"
  "write_impl_resume e st = (r, st') \<Longrightarrow> status_side st' = status_side st"
  by (auto simp: read_some_def read_some_resume_def read_park_def write_impl_def write_impl_resume_def
      status_side_def Let_def split: option.splits if_splits)

lemma detached_stream_result:
  "detached a (stream_result K N b st effs s) = detached a s"
  by (auto simp: detached_def stream_result_def)

lemma status_dead_result:
  assumes "status_dead K a y" "b < length (objects y)"
    "status_side st = status_side (objects y ! b)"
    "st_id st = st_id (objects y ! b) \<and> st_closed st = st_closed (objects y ! b)"
  shows "status_dead K a
    (y\<lparr>sy_session := stream_result K N b st effs (sy_session y), sy_writing := W, sy_asking := A\<rparr>)"
  by (rule status_dead_same [OF assms(1) stream_result_inv])
    (use assms in \<open>auto simp: status_dead_def detached_stream_result stream_result_objects nth_list_update\<close>)

lemma status_dead_objects:
  assumes "status_dead K a y" "session_inv s" "find_stream s = find_stream (sy_session y)"
    "ss_objects s = objects y"
  shows "status_dead K a (y\<lparr>sy_session := s, sy_writing := W, sy_asking := A\<rparr>)"
  using assms by (simp add: status_dead_def detached_def)

lemma status_dead_request:
  assumes "status_dead K a y" "submit_request K N path cl hs (sy_session y) = Some (r, s)"
  shows "status_dead K a (y\<lparr>sy_session := s\<rparr>)"
proof -
  have "session_inv s" using assms(1) submit_request_inv [OF _ assms(2)] by (simp add: status_dead_def)
  moreover have "detached a s \<and> ss_objects s ! a = objects y ! a"
    using assms(2)
  proof (cases rule: submit_request_cases)
    case (submitted g sid)
    with assms(1) show ?thesis
      by (auto simp: status_dead_def detached_def find_stream_def start_write_def nth_append
          table.lookup_insert)
  qed (use assms(1) in \<open>auto simp: status_dead_def detached_def find_stream_def nth_append\<close>)
  ultimately show ?thesis using assms(1) by (simp add: status_dead_def)
qed

lemma teardown_object:
  assumes "\<forall>(sid, b) \<in> set xs. b \<noteq> a"
  shows "ss_objects (foldl (\<lambda>s (sid, b). update_object b (on_close K) s) s xs) ! a = ss_objects s ! a"
  using assms
  by (induction xs arbitrary: s) (auto simp: object_update_object split: prod.split)

lemma status_dead_teardown:
  assumes "status_dead K a y"
  shows "status_dead K a (y\<lparr>sy_session := run_teardown K (sy_session y)\<rparr>)"
proof -
  have inv: "session_inv (sy_session y)" using assms by (simp add: status_dead_def)
  have "\<forall>(sid, b) \<in> set (ss_streams (sy_session y)). b \<noteq> a"
    using assms find_stream_registered [OF inv] by (auto simp: status_dead_def detached_def)
  with assms show ?thesis
    using run_teardown_inv [OF inv, of K]
    by (simp add: status_dead_def detached_def run_teardown_def find_stream_def teardown_fold teardown_object)
qed

lemma status_dead_ask:
  assumes "event_ok K" "status_dead K a y" "b < length (objects y)"
    "status_co K (objects y ! b) = (out, st)"
  shows "status_dead K a
    (y\<lparr>sy_session := stream_result K N b st [] (sy_session y), sy_writing := W, sy_asking := A\<rparr>)"
proof -
  have "session_inv (stream_result K N b st [] (sy_session y))"
    using assms(2) coroutine_frames(5) [OF assms(4)]
    by (intro stream_result_inv) (auto simp: status_dead_def)
  with assms show ?thesis
    by (auto simp: status_dead_def detached_stream_result stream_result_objects nth_list_update
        status_co_def event_ok_def split: if_splits)
qed

lemma status_dead_handle:
  assumes "status_dead K a y" "b \<in> set (ss_spawned (sy_session y))"
    "handle_request K N b (sy_session y) = Some (h, s)"
  shows "status_dead K a (y\<lparr>sy_session := s, sy_writing := W, sy_asking := sy_asking y\<rparr>)"
  using assms(3)
proof (cases rule: handle_request_result)
  case (handler rq)
  with assms(1) show ?thesis by (simp add: status_dead_def)
next
  case (closed e out s1 st effs)
  note s1 = submit_response_result [OF closed(2)]
  have dead: "status_dead K a (y\<lparr>sy_session := s1, sy_writing := sy_writing y, sy_asking := sy_asking y\<rparr>)"
    using assms(1) s1 by (intro status_dead_objects) (simp_all add: status_dead_def)
  have b: "b < length (ss_objects s1)"
    using assms(1,2) s1 by (simp add: status_dead_def session_inv_def)
  from closed(3) have "write_impl K [] True (ss_objects s1 ! b) = (out, st, effs)"
    by (simp add: write_eof_def)
  from status_dead_result [OF dead, where b = b and st = st and N = N and effs = effs and W = W
      and A = "sy_asking y"] b coroutine_status_sides(3) [OF this]
    coroutine_frames(3) [OF this] show ?thesis by (simp add: closed(4))
qed

lemma status_dead_user:
  assumes "user_step K N written y z" "event_ok K" "status_dead K a y"
  shows "status_dead K a z"
  using assms
proof (induction rule: user_step.induct)
  case (user_request path cl hs y r s)
  then show ?case by (blast intro: status_dead_request)
next
  case (user_response b y status hs e s)
  with submit_response_result [OF user_response.hyps(2)] show ?case
    by (simp add: status_dead_def detached_def)
next
  case (user_handle b y h s)
  from status_dead_handle [OF user_handle.prems(2) user_handle.hyps(1,3)] show ?case by simp
next
  case (user_read b y bp out st effs)
  from status_dead_result [OF user_read.prems(2) user_read.hyps(1)
      coroutine_status_sides(1) [OF user_read.hyps(4)] coroutine_frames(1) [OF user_read.hyps(4)],
      where N = N and effs = effs and W = "sy_writing y" and A = "sy_asking y"] show ?case by simp
next
  case (user_read_wake b y sink e out st effs)
  from status_dead_result [OF user_read_wake.prems(2) user_read_wake.hyps(1)
      coroutine_status_sides(2) [OF user_read_wake.hyps(4)]
      coroutine_frames(2) [OF user_read_wake.hyps(4)], where N = N and effs = effs and W = "sy_writing y" and A = "sy_asking y"]
  show ?case by simp
next
  case (user_write b y buffers eof st effs)
  from status_dead_result [OF user_write.prems(2) user_write.hyps(1)
      coroutine_status_sides(3) [OF user_write.hyps(3)] coroutine_frames(3) [OF user_write.hyps(3)],
      where N = N and effs = effs and W = "insert b (sy_writing y)" and A = "sy_asking y"] show ?case by simp
next
  case (user_write_wake b y e r st)
  from status_dead_result [OF user_write_wake.prems(2) user_write_wake.hyps(1)
      coroutine_status_sides(4) [OF user_write_wake.hyps(4)]
      coroutine_frames(4) [OF user_write_wake.hyps(4)], where N = N and effs = "[]" and W = "sy_writing y - {b}" and A = "sy_asking y"]
  show ?case by simp
next
  case (user_ask b y out st)
  from status_dead_ask [OF user_ask.prems(1,2) user_ask.hyps(1,3), where N = N and W = "sy_writing y"
      and A = "if out = Status_parked then insert b (sy_asking y) else sy_asking y"]
  show ?case by (simp split: if_splits)
next
  case (user_ask_wake b y e)
  then show ?case by (simp add: status_dead_def)
qed

lemma status_dead_step:
  assumes "session_step K N written y z" "event_ok K" "status_dead K a y"
  shows "status_dead K a z"
  using assms
proof (induction rule: session_step.induct)
  case (session_setup y s)
  then show ?case by (auto dest!: run_setup_result simp: status_dead_def detached_def)
next
  case (session_recv y g bytes rv s)
  from status_dead_call [OF session_recv.prems(2) session_recv.hyps(2)] session_recv.prems(2)
  show ?case by (simp add: status_dead_def detached_def status_side_def)
next
  case (session_send y g r s)
  from status_dead_call [OF session_send.prems(2) session_send.hyps(2)] session_send.prems(2)
  show ?case by (simp add: status_dead_def status_side_def)
next
  case (session_terminate y c)
  then show ?case by (simp add: status_dead_def detached_def)
next
  case (session_teardown y)
  then show ?case by (intro status_dead_teardown)
qed (rule status_dead_user)

text \<open>
  C34. The defect of \<open>status()\<close> at the level of the session: once a stream whose status never
  arrived has left the table, a coroutine that then asks for the status suspends, and in every
  state the session can get into from there its event is still not set, so that it waits until it
  is cancelled. The comment on \<open>status()\<close> promises that it reports an error when the stream closes
  first.
\<close>

theorem status_of_closed_stream_never_wakes:
  assumes "event_ok K" "session_inv (sy_session y)" "detached a (sy_session y)"
    and "st_status (objects y ! a) < 0" "status_co K (objects y ! a) = (out, st)"
    and "(session_step K N written)\<^sup>*\<^sup>*
      (y\<lparr>sy_session := stream_result K N a st [] (sy_session y), sy_asking := insert a (sy_asking y)\<rparr>) z"
  shows "out = Status_parked \<and> \<not> may_resume K None (st_status_ready (objects z ! a))"
proof -
  let ?y = "y\<lparr>sy_session := stream_result K N a st [] (sy_session y), sy_asking := insert a (sy_asking y)\<rparr>"
  have st: "out = Status_parked" "st = (objects y ! a)\<lparr>st_status_ready := ev_clear K (st_status_ready (objects y ! a))\<rparr>"
    using assms(4,5) by (auto simp: status_co_def)
  have "session_inv (stream_result K N a st [] (sy_session y))"
    using assms(2) by (intro stream_result_inv) (auto simp: st)
  then have "status_dead K a ?y"
    using assms(1-4) detachedD [OF assms(3)]
    by (simp add: status_dead_def detached_stream_result stream_result_objects st event_ok_def)
  with assms(6) have "status_dead K a z"
    by (induction rule: rtranclp_induct) (auto intro: status_dead_step [OF _ assms(1)])
  with st(1) show ?thesis by (simp add: status_dead_def may_resume_def)
qed

theorem status_of_closed_stream_never_wakes_witness:
  "\<not> may_resume flat_capy None (st_status_ready
     ((on_close flat_capy (ss_objects demo_session ! 0))\<lparr>st_status_ready := False\<rparr>))"
proof -
  let ?y = "\<lparr>sy_session = demo_closed, sy_writing = {}, sy_asking = {}\<rparr>"
  let ?st = "(objects ?y ! 0)\<lparr>st_status_ready := False\<rparr>"
  have "st_status (objects ?y ! 0) < 0" and "0 < length (ss_objects demo_closed)"
    using demo_closed_facts(2)
    by (simp_all add: demo_closed_facts(3) demo_session_eval on_close_def set_path_def new_stream_def
        detached_def)
  moreover from this have "status_co flat_capy (objects ?y ! 0) = (Status_parked, ?st)"
    by (simp add: status_co_def flat_capy_def)
  ultimately show ?thesis
    using status_of_closed_stream_never_wakes [of flat_capy ?y 0 Status_parked ?st demo_N fst,
        OF library_okD(1) [OF flat_capy_ok] _ _ _ _ rtranclp.rtrancl_refl] demo_closed_facts
    by (simp add: stream_result_objects)
qed

end
