(* ===== verification/Session_Messages.thy ===== *)
theory Session_Messages
  imports Session_Properties
begin

text \<open>
  Requests and responses as messages. The header fields one side submits are what the other
  side's callbacks receive, so the two functions that build header lists (\<open>request_nva\<close>,
  \<open>response_nva\<close>) and the callback that takes them apart are proved inverse to each other on the
  parts the program keeps. The theory then states the contract of \<open>submit_request\<close>, of a request
  without a handler and of the teardown.
\<close>

section \<open>Numbers in header fields\<close>

lemma takeWhile_all_digits:
  "dropWhile is_digit v = [] \<Longrightarrow> takeWhile is_digit v = v"
  by (simp add: dropWhile_eq_Nil_conv takeWhile_eq_all_conv)

text \<open>
  A content-length is accepted exactly when its text is a non-empty sequence of decimal digits
  whose value fits into \<open>std::size_t\<close>, and then it is this value; signs, spaces, trailing text and
  overflow are all rejected.
\<close>

theorem parse_content_length_iff:
  "parse_content_length v = Some n \<longleftrightarrow>
     v \<noteq> [] \<and> list_all is_digit v \<and> decimal_value v < 2 ^ 64 \<and> n = word_of_nat (decimal_value v)"
proof (cases "dropWhile is_digit v = []")
  case True
  then show ?thesis
    by (auto simp: parse_content_length_def from_chars_def Let_def takeWhile_all_digits
        dropWhile_eq_Nil_conv list_all_iff)
next
  case False
  then show ?thesis
    by (auto simp: parse_content_length_def from_chars_def Let_def dropWhile_eq_Nil_conv list_all_iff)
qed

lemma parse_content_length_to_string [simp]:
  "parse_content_length (to_string (unat (n :: size_t))) = Some n"
proof -
  have "unat n < 2 ^ 64" using unsigned_less [of n, where ?'a = nat] by simp
  then show ?thesis
    using from_chars_to_string [of "unat n" 64 "[]"] by (simp add: parse_content_length_def)
qed

lemma parse_status_to_string [simp]: "parse_status (to_string (unat (v :: 32 word))) = v"
proof -
  have "unat v < 2 ^ 32" using unsigned_less [of v, where ?'a = nat] by simp
  then show ?thesis using from_chars_to_string [of "unat v" 32 "[]"] by (simp add: parse_status_def)
qed

lemma decimal_examples: "to_string 3 = ''3''" "to_string 12 = ''12''" "to_string 200 = ''200''"
  by code_simp+

section \<open>Header fields of a message\<close>

definition fields_received ::
  "('e, 'b, 'c) capy \<Rightarrow> nv list \<Rightarrow> ('e, 'b, 'c) stream \<Rightarrow> ('e, 'b, 'c) stream" where
  "fields_received K nva st = foldl (\<lambda>st (name, value). header_field K name value st) st nva"

lemma fields_received_simps [simp]:
  "fields_received K [] st = st"
  "fields_received K ((name, value) # nva) st = fields_received K nva (header_field K name value st)"
  by (simp_all add: fields_received_def)

lemma fields_received_append [simp]:
  "fields_received K (xs @ ys) st = fields_received K ys (fields_received K xs st)"
  by (simp add: fields_received_def)

text \<open>Fields that are neither pseudo-headers nor content-length.\<close>

definition plain_fields :: "headers \<Rightarrow> bool" where
  "plain_fields hs \<longleftrightarrow> (\<forall>(name, value) \<in> set hs. \<not> pseudo name \<and> name \<noteq> ''content-length'')"

lemma fields_received_plain:
  "plain_fields hs \<Longrightarrow> fields_received K hs st = st\<lparr>st_headers := st_headers st @ hs\<rparr>"
proof (induction hs arbitrary: st)
  case (Cons h hs)
  obtain name val where h: "h = (name, val)" by fastforce
  with Cons.prems have "\<not> pseudo name" "name \<noteq> ''content-length''" "plain_fields hs"
    by (auto simp: plain_fields_def)
  moreover from this have "header_field K name val st = add_header name val st"
    by (auto simp: header_field_def pseudo_def)
  ultimately show ?case
    using Cons.IH by (simp add: h add_header_def)
qed simp

lemma request_fields:
  assumes "plain_fields hs"
  shows "fields_received K (request_nva path cl hs) st =
    st\<lparr>st_path := path, st_content_length := (case cl of None \<Rightarrow> st_content_length st | Some n \<Rightarrow> Some n),
       st_headers := st_headers st @
         (case cl of None \<Rightarrow> [] | Some n \<Rightarrow> [(''content-length'', to_string (unat n))]) @ hs\<rparr>"
  by (auto simp: fields_received_plain [OF assms] request_nva_def make_nv_def header_field_def set_path_def set_content_length_def
      add_header_def split: option.split)

lemma response_fields:
  assumes "plain_fields hs"
  shows "fields_received K (response_nva status hs) st =
    st\<lparr>st_status := sint status, st_status_ready := ev_set K (st_status_ready st),
       st_headers := st_headers st @ hs\<rparr>"
  by (simp add: fields_received_plain [OF assms] response_nva_def make_nv_def header_field_def set_status_def)

section \<open>Messages through the callbacks\<close>

definition run_callbacks ::
  "('e, 'b, 'c) capy \<Rightarrow> 'ng nghttp2 \<Rightarrow> callback list \<Rightarrow> ('ng, 'e, 'b, 'c) session
    \<Rightarrow> ('ng, 'e, 'b, 'c) session" where
  "run_callbacks K N cbs s = foldl (\<lambda>s cb. snd (run_callback K N cb s)) s cbs"

lemma run_callbacks_simps [simp]:
  "run_callbacks K N [] s = s"
  "run_callbacks K N (cb # cbs) s = run_callbacks K N cbs (snd (run_callback K N cb s))"
  "run_callbacks K N (cbs @ cbs') s = run_callbacks K N cbs' (run_callbacks K N cbs s)"
  by (simp_all add: run_callbacks_def)

lemma header_callbacks:
  "run_callbacks K N (map (\<lambda>(name, value). Cb_header f name value) nva) s
    = with_stream (fr_stream_id f) (fields_received K nva) s"
proof (induction nva arbitrary: s)
  case (Cons nv nva)
  then show ?case
    by (cases nv) (simp add: on_header_callback_field with_stream_comp fields_received_def [abs_def])
qed (simp add: fields_received_def [abs_def] with_stream_id)

text \<open>A HEADERS frame with its fields, as the callbacks see it.\<close>

definition headers_callbacks :: "frame \<Rightarrow> nv list \<Rightarrow> callback list" where
  "headers_callbacks f nva =
     Cb_begin_headers f # map (\<lambda>(name, value). Cb_header f name value) nva @ [Cb_frame_recv f]"

lemma create_stream_fresh:
  "find_stream s sid = None \<Longrightarrow> find_stream (snd (create_stream K sid s)) sid = Some (length (ss_objects s))"
  by (simp add: find_stream_def create_stream_def Let_def table.lookup_insert)

lemma request_headers_received:
  assumes f: "fr_type f = NGHTTP2_HEADERS" "fr_cat f = HCAT_REQUEST"
    and fresh: "find_stream s (fr_stream_id f) = None"
    and t: "run_callbacks K N (headers_callbacks f nva) s = t"
  shows "ss_spawned t = ss_spawned s @ [length (ss_objects s)] \<and>
    find_stream t (fr_stream_id f) = Some (length (ss_objects s)) \<and>
    ss_objects t = ss_objects s @
      [(if fr_end_stream f then on_read_eof K else id)
        (fields_received K nva (new_stream K (fr_stream_id f) (log_prefix (ss_role s) (fr_stream_id f))))] \<and>
    ss_handler t = ss_handler s"
proof -
  let ?sid = "fr_stream_id f" and ?a = "length (ss_objects s)"
  define s1 where "s1 = snd (create_stream K ?sid s)"
  define s2 where "s2 = with_stream ?sid (fields_received K nva) s1"
  have s1: "find_stream s1 ?sid = Some ?a" "ss_spawned s1 = ss_spawned s" "ss_handler s1 = ss_handler s"
    "ss_objects s1 = ss_objects s @ [new_stream K ?sid (log_prefix (ss_role s) ?sid)]"
    using create_stream_fresh [OF fresh, of K] by (simp_all add: s1_def create_stream_def Let_def)
  have "find_stream s2 ?sid = Some ?a" using s1(1) by (simp add: s2_def)
  moreover from s1 have "ss_spawned s2 = ss_spawned s" "ss_handler s2 = ss_handler s"
    "ss_objects s2 = ss_objects s @ [fields_received K nva (new_stream K ?sid (log_prefix (ss_role s) ?sid))]"
    by (simp_all add: s2_def with_stream_def update_object_def)
  ultimately have s2: "find_stream s2 ?sid = Some ?a" "ss_spawned s2 = ss_spawned s"
    "ss_handler s2 = ss_handler s"
    "ss_objects s2 = ss_objects s @ [fields_received K nva (new_stream K ?sid (log_prefix (ss_role s) ?sid))]"
    by simp_all
  have "t = (if fr_end_stream f then with_stream ?sid (on_read_eof K) else id) (dispatch_request ?a s2)"
    using t f s2(1)
    by (simp add: headers_callbacks_def header_callbacks on_begin_headers_callback_def is_request_headers_def
        on_frame_recv_callback_def Let_def flip: s1_def s2_def split: if_splits)
  moreover have "find_stream (dispatch_request ?a s2) ?sid = Some ?a" using s2(1) by simp
  ultimately show ?thesis
    using s2 by (simp add: dispatch_request_def with_stream_def update_object_def find_stream_def)
qed

lemma request_reaches_handler:
  assumes "fr_type f = NGHTTP2_HEADERS" "fr_cat f = HCAT_REQUEST" "find_stream s (fr_stream_id f) = None"
    and "plain_fields hs" "ss_handler s"
    and "run_callbacks K N (headers_callbacks f (request_nva path cl hs)) s = t"
  shows "ss_spawned t = ss_spawned s @ [length (ss_objects s)] \<and>
    find_stream t (fr_stream_id f) = Some (length (ss_objects s)) \<and>
    handle_request K N (length (ss_objects s)) t =
      Some (Handler_called
        \<lparr>rq_path = path, rq_content_length = cl,
         rq_headers = (case cl of None \<Rightarrow> [] | Some n \<Rightarrow> [(''content-length'', to_string (unat n))]) @ hs,
         rq_reader = length (ss_objects s)\<rparr> (length (ss_objects s)), t)"
  using request_headers_received [OF assms(1-3,6)] assms(5)
  by (auto simp: handle_request_def request_fields [OF assms(4)] new_stream_def on_read_eof_def
      split: option.split)

text \<open>
  C23. A request arrives as it was sent: when the fields a client submits for a path, a content
  length and a list of headers reach a server session as the HEADERS frame of a new stream, exactly
  one handler is dispatched, and it is called with that path, that content length and, after the
  content-length field, exactly those headers in their order.
\<close>

theorem request_roundtrip:
  assumes "fr_type f = NGHTTP2_HEADERS" "fr_cat f = HCAT_REQUEST" "find_stream s (fr_stream_id f) = None"
    and "plain_fields hs" "ss_handler s"
    and "run_callbacks K N (headers_callbacks f (request_nva path cl hs)) s = t"
  shows "\<exists>a. ss_spawned t = ss_spawned s @ [a] \<and> find_stream t (fr_stream_id f) = Some a \<and>
    handle_request K N a t =
      Some (Handler_called
        \<lparr>rq_path = path, rq_content_length = cl,
         rq_headers = (case cl of None \<Rightarrow> [] | Some n \<Rightarrow> [(''content-length'', to_string (unat n))]) @ hs,
         rq_reader = a\<rparr> a, t)"
  using request_reaches_handler [OF assms] by blast

theorem request_roundtrip_witness:
  "\<exists>a. handle_request flat_capy demo_N a
      (run_callbacks flat_capy demo_N
        (headers_callbacks (request_frame 1 True) (request_nva ''/echo'' (Some 12) [(''x'', ''y'')])) demo_ready)
    = Some (Handler_called
        \<lparr>rq_path = ''/echo'', rq_content_length = Some 12,
         rq_headers = [(''content-length'', ''12''), (''x'', ''y'')], rq_reader = a\<rparr> a,
       run_callbacks flat_capy demo_N
        (headers_callbacks (request_frame 1 True) (request_nva ''/echo'' (Some 12) [(''x'', ''y'')])) demo_ready)"
  using request_roundtrip [of "request_frame 1 True" demo_ready "[(''x'', ''y'')]" flat_capy demo_N
      "''/echo''" "Some 12" _, OF _ _ _ _ _ refl]
  by (auto simp: request_frame_def demo_ready_def new_session_def find_stream_def plain_fields_def
      pseudo_def decimal_examples)

text \<open>
  C24. A response arrives as it was sent: the fields a server submits for a status and a list of
  headers, received by the stream of a client, wake a coroutine waiting for the status and make
  \<open>status()\<close> return that status, for every status below 2 to the 31, with exactly those headers in
  their order.
\<close>

theorem response_roundtrip:
  assumes "event_ok K" "session_inv s" "find_stream s sid = Some a" "plain_fields hs"
    and "unat status < 2 ^ 31" "fr_stream_id f = sid"
    and "t = run_callbacks K N (map (\<lambda>(name, value). Cb_header f name value) (response_nva status hs)) s"
  shows "may_resume K None (st_status_ready (ss_objects t ! a)) \<and>
    status_resume None (ss_objects t ! a) = Status_done (None, status) \<and>
    fst (status_co K (ss_objects t ! a)) = Status_done (None, status) \<and>
    st_headers (ss_objects t ! a) = st_headers (ss_objects s ! a) @ hs"
proof -
  have "\<not> sint status < 0" using assms(5) by (simp add: sint_less_0_iff)
  moreover have "ss_objects t ! a = fields_received K (response_nva status hs) (ss_objects s ! a)"
    using assms(2,3,6,7) by (simp add: header_callbacks object_with_stream)
  ultimately show ?thesis
    using assms(1)
    by (simp add: response_fields [OF assms(4)] may_resume_def event_ok_def status_resume_def status_co_def)
qed

theorem response_roundtrip_witness:
  "status_resume None (ss_objects (run_callbacks flat_capy demo_N
     (map (\<lambda>(name, value). Cb_header (request_frame 3 False) name value)
        (response_nva 404 [(''a'', ''b'')])) demo_session) ! 1) = Status_done (None, 404)"
  using response_roundtrip [OF library_okD(1) [OF flat_capy_ok] demo_session_inv demo_session_find(2),
      of "[(''a'', ''b'')]" 404 "request_frame 3 False" _ demo_N, OF _ _ _ refl]
  by (simp add: plain_fields_def pseudo_def request_frame_def)

section \<open>Submitting a request\<close>

text \<open>
  \<open>submit_request\<close> on each of its branches: a server session refuses it and stays as it was; a
  rejection by nghttp2 is reported as an invalid argument and leaves the table of streams as it
  was; otherwise the stream the caller gets is the object nghttp2 holds as the data source of the
  request, it carries the identifier nghttp2 assigned, it is registered under it, and the send
  loop is poked.
\<close>

theorem submit_request_result:
  assumes "event_ok K" "session_inv s" "ss_native s = Some g"
    and "ng_submit_request2 N g (request_nva path cl hs) (length (ss_objects s)) = (sid, g')"
    and "find_stream s sid = None"
  shows "\<exists>e handle t. submit_request K N path cl hs s = Some ((e, handle), t) \<and> session_inv t \<and>
    (if ss_role s = Role_server
     then e = Some Errc_operation_not_permitted \<and> handle = None \<and> t = s
     else if sid < 0
     then e = Some Errc_invalid_argument \<and> handle = None \<and> ss_streams t = ss_streams s
     else e = None \<and> handle = Some (length (ss_objects s)) \<and>
       find_stream t sid = handle \<and> st_id (ss_objects t ! length (ss_objects s)) = sid \<and>
       (\<forall>j. j \<noteq> sid \<longrightarrow> find_stream t j = find_stream s j) \<and> ev_is_set K (ss_write_ready t))"
proof -
  obtain r t where t: "submit_request K N path cl hs s = Some (r, t)"
    using assms(3,4) by (fastforce simp: submit_request_def Let_def)
  have inv: "session_inv t" by (rule submit_request_inv [OF assms(2) t])
  show ?thesis
  proof (cases "ss_role s")
    case Role_server
    with assms(2) show ?thesis by (simp add: submit_request_def)
  next
    case Role_client
    then show ?thesis
      using t inv assms
      by (auto simp: submit_request_def Let_def update_object_def set_id_def new_stream_def
          find_stream_def start_write_def table.lookup_insert event_ok_def nth_append
          split: if_splits)
  qed
qed

theorem submit_request_result_witness:
  "\<exists>t. submit_request flat_capy demo_N ''/'' None [] (demo_ready\<lparr>ss_role := Role_client\<rparr>)
      = Some ((None, Some 0), t) \<and> find_stream t 1 = Some 0"
  using submit_request_result [OF library_okD(1) [OF flat_capy_ok],
      of "demo_ready\<lparr>ss_role := Role_client\<rparr>" "()" demo_N "''/''" None "[]" 1 "()"]
  by (simp add: demo_ready_def new_session_def session_inv_def find_stream_def)
    (auto simp: demo_ng_def)

section \<open>A request without a handler, and the teardown\<close>

text \<open>
  A request for which no handler is configured gets an empty response: the response is
  submitted with status 200 for the stream's own identifier, and the first time nghttp2 asks its
  data provider it is told that the body is empty and ended, which completes the write.
\<close>

theorem request_without_handler:
  assumes "event_ok K" "source_ok K rest" "a < length (ss_objects s)" "\<not> st_closed (ss_objects s ! a)"
    and "\<not> ss_handler s" "ss_native s = Some g"
    and "ng_submit_response2 N g (st_id (ss_objects s ! a)) [('':status'', ''200'')] a = (0, g')"
  shows "\<exists>t t'. handle_request K N a s = Some (Closed_empty None Write_parked, t) \<and>
    data_source_read_callback K a len t = (Reply_data (Copied []) True, t') \<and>
    may_resume K None (st_write_progress (ss_objects t' ! a))"
proof -
  have "response_nva 200 [] = [('':status'', ''200'')]"
    by (simp add: response_nva_def make_nv_def decimal_examples)
  then have sub: "submit_response K N a 200 [] s = Some (None, start_write K (s\<lparr>ss_native := Some g'\<rparr>))"
    using assms(6,7) by (simp add: submit_response_def)
  have empty: "cb_copy K (cb_array K []) n = []" "cb_byte_size K (cb_consume K (cb_array K []) m) = 0" for n m
    using assms(2) unfolding source_ok_def by (metis concat.simps(1) length_0_conv list.size(3) take_Nil zero_le)+
  show ?thesis
    using assms(1,3-5)
    by (simp add: handle_request_def sub write_eof_def write_impl_def Let_def data_source_read_callback_def
        update_object_def producer_callback_def empty may_resume_def event_ok_def)
qed

theorem request_without_handler_witness:
  "\<exists>t. handle_request flat_capy demo_N 0 (demo_session\<lparr>ss_handler := False\<rparr>)
      = Some (Closed_empty None Write_parked, t)"
proof -
  let ?s = "demo_session\<lparr>ss_handler := False\<rparr>"
  have "0 < length (ss_objects ?s)" "\<not> st_closed (ss_objects ?s ! 0)" "ss_native ?s = Some ()"
    by (simp_all add: demo_session_eval set_path_def new_stream_def)
  moreover have "ng_submit_response2 demo_N () sid nva a = (0, ())" for sid nva a
    by (simp add: demo_ng_def)
  ultimately show ?thesis
    using request_without_handler [OF library_okD(1,4) [OF flat_capy_ok], of 0 ?s] by fastforce
qed

text \<open>
  The teardown of \<open>run\<close> closes every stream that is still registered and no other, each one
  exactly once, so that all its coroutines are woken, and it leaves the table empty.
\<close>

theorem run_teardown_closes_all:
  assumes "session_inv s" "a < length (ss_objects s)"
  shows "ss_streams (run_teardown K s) = [] \<and>
    ss_objects (run_teardown K s) ! a =
      (if \<exists>sid. find_stream s sid = Some a then on_close K (ss_objects s ! a) else ss_objects s ! a)"
proof -
  have fold: "ss_objects (foldl (\<lambda>s (sid, b). update_object b (on_close K) s) u xs) ! a =
      (if a \<in> snd ` set xs then on_close K (ss_objects u ! a) else ss_objects u ! a)"
    if "distinct (map snd xs)" "a < length (ss_objects u)" for xs and u :: "('a, 'b, 'c, 'd) session"
    using that
  proof (induction xs arbitrary: u)
    case (Cons x xs)
    then show ?case by (cases x) (auto simp: object_update_object)
  qed simp
  have "(\<exists>sid. find_stream s sid = Some a) \<longleftrightarrow> a \<in> snd ` set (ss_streams s)"
    using find_stream_registered [OF assms(1)] by force
  moreover have "distinct (map snd (ss_streams s))" using assms(1) by (simp add: session_inv_def)
  ultimately show ?thesis
    using fold [of "ss_streams s" "s\<lparr>ss_streams := []\<rparr>"] assms(2)
    by (simp add: run_teardown_def teardown_fold(2))
qed

theorem run_teardown_closes_all_witness:
  "ss_streams (run_teardown flat_capy demo_closed) = [] \<and>
   ss_objects (run_teardown flat_capy demo_closed) ! 1 = on_close flat_capy (ss_objects demo_closed ! 1)"
proof -
  have "find_stream demo_closed 3 = Some 1"
    by (simp add: demo_closed_def find_stream_close demo_session_find)
  moreover from session_invD(1) [OF demo_closed_facts(1) this] have "1 < length (ss_objects demo_closed)" .
  ultimately show ?thesis
    using run_teardown_closes_all [OF demo_closed_facts(1), of 1 flat_capy] by auto
qed

end
