(* ===== verification/Session_Loops.thy ===== *)
theory Session_Loops
  imports Session_Messages
begin

text \<open>
  The two loops of \<open>Session::Impl::run\<close> in \<open>src/session.cpp\<close>. \<open>send_loop\<close> collects what nghttp2
  wants to send and writes it to the transport; \<open>recv_loop\<close> feeds nghttp2 with what the transport
  received. They run concurrently with each other and with the users of the session; the only
  thing between them is the event \<open>write_ready_\<close>.

  The transport is a parameter of the system: a write ends with all bytes written or with an error
  after some of them, a read ends with an error or with at most a buffer full of bytes.
\<close>

section \<open>The send loop\<close>

text \<open>
  Where the loop is: at the top with the accumulator \<open>pending\<close>, in \<open>capy::write\<close> with the bytes of
  the two-buffer sequence, waiting for \<open>write_ready_\<close>, or at its end.
\<close>

datatype send_state =
    Send_top "byte list"
  | Send_writing "byte list"
  | Send_waiting
  | Send_done

text \<open>
  One iteration up to its first suspension. \<open>cap\<close> is \<open>pending.capacity()\<close>: at least 1460 after
  \<open>reserve(1460)\<close>, and constant, because the loop only inserts what fits and \<open>clear()\<close> keeps it.
  The first component of the result is what \<open>nghttp2_session_mem_send2\<close> returned.
\<close>

definition send_iteration ::
  "('e, 'b, 'c) capy \<Rightarrow> 'ng nghttp2 \<Rightarrow> nat \<Rightarrow> byte list \<Rightarrow> ('ng, 'e, 'b, 'c) session
    \<Rightarrow> ((int + byte list) \<times> send_state \<times> ('ng, 'e, 'b, 'c) session) option" where
  "send_iteration K N cap pending s =
     (case ss_native s of
        None \<Rightarrow> None
      | Some g \<Rightarrow>
          (case run_ng_call K N (ng_mem_send2 N g) s of
             (Inl nread, s1) \<Rightarrow> Some (Inl nread, Send_done, s1)
           | (Inr data, s1) \<Rightarrow>
               if data \<noteq> [] \<and> length data \<le> cap - length pending
               then Some (Inr data, Send_top (pending @ data), s1)
               else if 0 < length pending + length data
               then Some (Inr data, Send_writing (pending @ data), s1)
               else
                 (case ss_native s1 of
                    None \<Rightarrow> None
                  | Some g1 \<Rightarrow>
                      if \<not> ng_want_read N g1 \<and> \<not> ng_want_write N g1
                      then Some (Inr data, Send_done, s1)
                      else
                        Some (Inr data, Send_waiting,
                              s1\<lparr>ss_write_ready := ev_clear K (ss_write_ready s1)\<rparr>))))"

definition send_written :: "ec \<Rightarrow> send_state" where
  "send_written e = (if e \<noteq> None then Send_done else Send_top [])"

definition send_resume :: "ec \<Rightarrow> send_state" where
  "send_resume e = (if e \<noteq> None then Send_done else Send_top [])"

lemma fits_iff: "data \<noteq> [] \<Longrightarrow> length data \<le> cap - n \<longleftrightarrow> n + length data \<le> cap"
  by (cases data) auto

lemma send_iteration_top:
  "send_iteration K N cap pending s = Some (r, Send_top pending', s1) \<Longrightarrow>
     \<exists>data. r = Inr data \<and> data \<noteq> [] \<and> pending' = pending @ data \<and> length pending' \<le> cap"
  by (auto simp: send_iteration_def fits_iff split: option.splits prod.splits sum.splits if_splits)

text \<open>The loop from the top to its next suspension.\<close>

function send_run ::
  "('e, 'b, 'c) capy \<Rightarrow> 'ng nghttp2 \<Rightarrow> nat \<Rightarrow> byte list \<Rightarrow> ('ng, 'e, 'b, 'c) session
    \<Rightarrow> (byte list \<times> send_state \<times> ('ng, 'e, 'b, 'c) session) option" where
  "send_run K N cap pending s =
     (case send_iteration K N cap pending s of
        None \<Rightarrow> None
      | Some (Inr data, Send_top pending', s1) \<Rightarrow>
          map_option (\<lambda>(more, st, s2). (data @ more, st, s2)) (send_run K N cap pending' s1)
      | Some (Inr data, st, s1) \<Rightarrow> Some (data, st, s1)
      | Some (Inl nread, st, s1) \<Rightarrow> Some ([], st, s1))"
  by pat_completeness auto

termination
proof (relation "measure (\<lambda>(K, N, cap, pending, s). cap - length pending)", goal_cases)
  case (2 K N cap pending s x1 x2 x3 x4 x5 x6)
  then show ?case
    by (auto dest!: send_iteration_top simp: less_diff_conv2 simp flip: length_greater_0_conv)
qed simp

declare send_run.simps [simp del]

section \<open>The receive loop\<close>

text \<open>At the loop condition, in \<open>read_some\<close>, or at the end.\<close>

datatype recv_state = Recv_top | Recv_reading | Recv_done

definition recv_finish ::
  "('e, 'b, 'c) capy \<Rightarrow> 'ng nghttp2 \<Rightarrow> ('ng, 'e, 'b, 'c) session \<Rightarrow> ('ng, 'e, 'b, 'c) session" where
  "recv_finish K N s = start_write K (with_native (\<lambda>g. ng_terminate_session N g NGHTTP2_NO_ERROR) s)"

text \<open>The loop condition, up to the next read or through the end of the function.\<close>

definition recv_check ::
  "('e, 'b, 'c) capy \<Rightarrow> 'ng nghttp2 \<Rightarrow> ('ng, 'e, 'b, 'c) session
    \<Rightarrow> (recv_state \<times> ('ng, 'e, 'b, 'c) session) option" where
  "recv_check K N s =
     (case ss_native s of
        None \<Rightarrow> None
      | Some g \<Rightarrow>
          if ng_want_read N g \<or> ng_want_write N g then Some (Recv_reading, s)
          else Some (Recv_done, recv_finish K N s))"

text \<open>The size of the receive buffer.\<close>

definition recv_buffer_size :: nat where
  "recv_buffer_size = 64 * 1024"

definition recv_resume ::
  "('e, 'b, 'c) capy \<Rightarrow> 'ng nghttp2 \<Rightarrow> ec \<Rightarrow> byte list \<Rightarrow> ('ng, 'e, 'b, 'c) session
    \<Rightarrow> (recv_state \<times> ('ng, 'e, 'b, 'c) session) option" where
  "recv_resume K N e bytes s =
     (if e \<noteq> None then Some (Recv_done, recv_finish K N s)
      else
        (case ss_native s of
           None \<Rightarrow> None
         | Some g \<Rightarrow>
             (case run_ng_call K N (ng_mem_recv2 N g bytes) s of
                (rv, s1) \<Rightarrow>
                  if rv < 0
                  then Some (Recv_done, recv_finish K N (start_write K
                         (with_native (\<lambda>g. ng_terminate_session N g NGHTTP2_PROTOCOL_ERROR) s1)))
                  else recv_check K N (start_write K s1))))"

section \<open>The connection\<close>

text \<open>
  The session system with both loops. \<open>cn_produced\<close> is everything nghttp2 gave to the send loop,
  \<open>cn_wire\<close> everything the transport accepted; these histories are not part of the program.
  \<open>cn_over\<close> says that \<open>run\<close> has returned.
\<close>

record ('ng, 'e, 'b, 'c) connection =
  cn_sys :: "('ng, 'e, 'b, 'c) session_sys"
  cn_send :: send_state
  cn_recv :: recv_state
  cn_over :: bool
  cn_produced :: "byte list"
  cn_wire :: "byte list"

abbreviation cn_session :: "('ng, 'e, 'b, 'c) connection \<Rightarrow> ('ng, 'e, 'b, 'c) session" where
  "cn_session c \<equiv> sy_session (cn_sys c)"

definition set_session ::
  "('ng, 'e, 'b, 'c) session \<Rightarrow> ('ng, 'e, 'b, 'c) connection \<Rightarrow> ('ng, 'e, 'b, 'c) connection" where
  "set_session s c = c\<lparr>cn_sys := (cn_sys c)\<lparr>sy_session := s\<rparr>\<rparr>"

fun produced :: "int + byte list \<Rightarrow> byte list" where
  "produced (Inl nread) = []"
| "produced (Inr data) = data"

inductive conn_step ::
  "('e, 'b, 'c) capy \<Rightarrow> 'ng nghttp2 \<Rightarrow> ('b \<Rightarrow> byte list) \<Rightarrow> nat
    \<Rightarrow> ('ng, 'e, 'b, 'c) connection \<Rightarrow> ('ng, 'e, 'b, 'c) connection \<Rightarrow> bool"
  for K N written cap where
  conn_send:
    "cn_send c = Send_top pending \<Longrightarrow>
     send_iteration K N cap pending (cn_session c) = Some (r, st, s) \<Longrightarrow>
     conn_step K N written cap c
       ((set_session s c)\<lparr>cn_send := st, cn_produced := cn_produced c @ produced r\<rparr>)"
| conn_written:
    "cn_send c = Send_writing bytes \<Longrightarrow> n \<le> length bytes \<Longrightarrow> (e = None \<Longrightarrow> n = length bytes) \<Longrightarrow>
     conn_step K N written cap c (c\<lparr>cn_send := send_written e, cn_wire := cn_wire c @ take n bytes\<rparr>)"
| conn_wake:
    "cn_send c = Send_waiting \<Longrightarrow> may_resume K e (ss_write_ready (cn_session c)) \<Longrightarrow>
     conn_step K N written cap c (c\<lparr>cn_send := send_resume e\<rparr>)"
| conn_recv_start:
    "cn_recv c = Recv_top \<Longrightarrow> recv_check K N (cn_session c) = Some (st, s) \<Longrightarrow>
     conn_step K N written cap c ((set_session s c)\<lparr>cn_recv := st\<rparr>)"
| conn_recv:
    "cn_recv c = Recv_reading \<Longrightarrow> length bytes \<le> recv_buffer_size \<Longrightarrow>
     recv_resume K N e bytes (cn_session c) = Some (st, s) \<Longrightarrow>
     conn_step K N written cap c ((set_session s c)\<lparr>cn_recv := st\<rparr>)"
| conn_user:
    "user_step K N written (cn_sys c) y \<Longrightarrow> conn_step K N written cap c (c\<lparr>cn_sys := y\<rparr>)"
| conn_teardown:
    "cn_send c = Send_done \<Longrightarrow> cn_recv c = Recv_done \<Longrightarrow> \<not> cn_over c \<Longrightarrow>
     conn_step K N written cap c ((set_session (run_teardown K (cn_session c)) c)\<lparr>cn_over := True\<rparr>)"

section \<open>Invariants\<close>

text \<open>Everything nghttp2 produced is on the wire or on its way there, in order.\<close>

definition send_inv :: "nat \<Rightarrow> ('ng, 'e, 'b, 'c) connection \<Rightarrow> bool" where
  "send_inv cap c \<longleftrightarrow>
     (case cn_send c of
        Send_top pending \<Rightarrow> length pending \<le> cap \<and> cn_produced c = cn_wire c @ pending
      | Send_writing bytes \<Rightarrow> bytes \<noteq> [] \<and> cn_produced c = cn_wire c @ bytes
      | Send_waiting \<Rightarrow> cn_produced c = cn_wire c
      | Send_done \<Rightarrow> \<exists>lost. cn_produced c = cn_wire c @ lost)"

definition conn_inv ::
  "('e, 'b, 'c) capy \<Rightarrow> ('b \<Rightarrow> byte list) \<Rightarrow> ('b \<Rightarrow> nat) \<Rightarrow> ('c \<Rightarrow> byte list) \<Rightarrow> nat
    \<Rightarrow> ('ng, 'e, 'b, 'c) connection \<Rightarrow> bool" where
  "conn_inv K written room rest cap c \<longleftrightarrow>
     session_sys_inv K written room rest (cn_sys c) \<and> ss_native (cn_session c) \<noteq> None \<and> send_inv cap c \<and>
     (cn_over c \<longrightarrow> cn_send c = Send_done \<and> cn_recv c = Recv_done)"

text \<open>The state when \<open>run\<close> reaches \<open>when_all(send_loop(), recv_loop())\<close>.\<close>

definition conn_starts ::
  "('e, 'b, 'c) capy \<Rightarrow> 'ng nghttp2 \<Rightarrow> ('b \<Rightarrow> byte list) \<Rightarrow> ('b \<Rightarrow> nat) \<Rightarrow> ('c \<Rightarrow> byte list)
    \<Rightarrow> ('ng, 'e, 'b, 'c) connection \<Rightarrow> bool" where
  "conn_starts K N written room rest c \<longleftrightarrow>
     library_ok K written room rest \<and>
     (\<exists>r handler s. run_setup N (new_session K r handler) = Inr s \<and>
        c = \<lparr>cn_sys = \<lparr>sy_session = s, sy_writing = {}, sy_asking = {}\<rparr>, cn_send = Send_top [],
             cn_recv = Recv_top, cn_over = False, cn_produced = [], cn_wire = []\<rparr>)"

subsection \<open>The library session stays\<close>

interpretation call_native: callback_relation K N "\<lambda>s cbs t. ss_native t \<noteq> None"
  for K :: "('e, 'b, 'c) capy" and N :: "'ng nghttp2"
  by unfold_locales simp_all

lemma native_frame [simp]:
  "ss_native (start_write K s) = ss_native s"
  "ss_native (update_object a u s) = ss_native s"
  by (simp_all add: start_write_def update_object_def)

lemma apply_effects_native [simp]:
  "(ss_native (apply_effects K N es s) = None) = (ss_native s = None)"
proof (induction es arbitrary: s)
  case (Cons e es)
  then show ?case by (cases e) (simp_all add: apply_effects_def with_native_def)
qed (simp add: apply_effects_def)

lemma with_native_Some [simp]: "(ss_native (with_native f s) = None) = (ss_native s = None)"
  by (simp add: with_native_def)

lemma submit_response_native:
  "submit_response K N a status hs s = Some (e, t) \<Longrightarrow> ss_native t \<noteq> None"
  by (auto simp: submit_response_def Let_def split: option.splits prod.splits if_splits)

lemma stream_result_native [simp]:
  "(ss_native (stream_result K N a st effs s) = None) = (ss_native s = None)"
  by (simp add: stream_result_def)

lemma user_step_native:
  "user_step K N written y z \<Longrightarrow> ss_native (sy_session y) \<noteq> None \<Longrightarrow> ss_native (sy_session z) \<noteq> None"
proof (induction rule: user_step.induct)
  case (user_request path cl hs y r s)
  then show ?case by (auto elim: submit_request_cases)
next
  case (user_handle a y h s)
  from user_handle.hyps(3) show ?case
    by (cases rule: handle_request_result) (use user_handle.prems submit_response_native in auto)
qed (auto dest: submit_response_native)

subsection \<open>The event stays set\<close>

definition poked :: "('e, 'b, 'c) capy \<Rightarrow> ('ng, 'e, 'b, 'c) session \<Rightarrow> bool" where
  "poked K s \<longleftrightarrow> ev_is_set K (ss_write_ready s)"

lemma poked_start_write [simp]: "event_ok K \<Longrightarrow> poked K (start_write K s)"
  by (simp add: poked_def start_write_def event_ok_def)

lemma poked_frame [simp]:
  "poked K (update_object a u s) = poked K s"
  "poked K (with_native f s) = poked K s"
  "poked K (s\<lparr>ss_native := g\<rparr>) = poked K s"
  "poked K (s\<lparr>ss_streams := m\<rparr>) = poked K s"
  "poked K (dispatch_request a s) = poked K s"
  "poked K (with_stream sid u s) = poked K s"
  by (simp_all add: poked_def update_object_def with_native_def dispatch_request_def with_stream_def
      split: option.split)

lemma run_callback_poked [simp]: "poked K (snd (run_callback K N cb s)) = poked K s"
proof (cases cb)
  case (Cb_begin_headers f)
  then show ?thesis
    by (simp add: on_begin_headers_callback_def create_stream_def Let_def poked_def)
next
  case (Cb_stream_close j e)
  then show ?thesis by (simp add: on_stream_close_callback_def close_stream_def Let_def split: option.split)
qed (simp_all add: on_header_callback_field on_frame_recv_callback_def on_data_chunk_recv_callback_def
      data_source_read_callback_def Let_def split: option.split prod.split)

interpretation call_poked: callback_relation K N "\<lambda>s cbs t. poked K t = poked K s"
  for K :: "('e, 'b, 'c) capy" and N :: "'ng nghttp2"
  by unfold_locales simp_all

lemma apply_effects_poked: "event_ok K \<Longrightarrow> poked K s \<Longrightarrow> poked K (apply_effects K N es s)"
proof (induction es arbitrary: s)
  case (Cons e es)
  then show ?case by (cases e) (simp_all add: apply_effects_def)
qed (simp add: apply_effects_def)

lemma user_step_poked:
  "user_step K N written y z \<Longrightarrow> event_ok K \<Longrightarrow> poked K (sy_session y) \<Longrightarrow> poked K (sy_session z)"
proof (induction rule: user_step.induct)
  case (user_request path cl hs y r s)
  from user_request.hyps show ?case
    by (cases rule: submit_request_cases) (use user_request.prems in \<open>auto simp: poked_def\<close>,
      use user_request.prems in \<open>simp add: poked_start_write [unfolded poked_def]\<close>)
next
  case (user_response a y status hs e s)
  then show ?case
    by (auto simp: submit_response_def Let_def split: option.splits prod.splits if_splits)
next
  case (user_handle a y h s)
  from user_handle.hyps(3) show ?case
  proof (cases rule: handle_request_result)
    case (closed e out s1 st effs)
    have "poked K s1" using closed(2) user_handle.prems
      by (auto simp: submit_response_def Let_def split: option.splits prod.splits if_splits)
    with closed(4) user_handle.prems show ?thesis by (simp add: stream_result_def apply_effects_poked)
  qed (use user_handle.prems in simp)
qed (simp_all add: stream_result_def apply_effects_poked)

subsection \<open>Preservation\<close>

lemma send_iteration_cases:
  assumes "send_iteration K N cap pending s = Some (r, st, t)"
  obtains (failed) nread where "r = Inl nread" "st = Send_done" "t = snd (run_ng_call K N (ng_mem_send2 N (the (ss_native s))) s)"
  | (buffered) data where "r = Inr data" "st = Send_top (pending @ data)" "data \<noteq> []"
      "length (pending @ data) \<le> cap" "t = snd (run_ng_call K N (ng_mem_send2 N (the (ss_native s))) s)"
  | (writing) data where "r = Inr data" "st = Send_writing (pending @ data)" "pending @ data \<noteq> []"
      "t = snd (run_ng_call K N (ng_mem_send2 N (the (ss_native s))) s)"
  | (finished) "r = Inr []" "pending = []" "st = Send_done"
      "t = snd (run_ng_call K N (ng_mem_send2 N (the (ss_native s))) s)"
  | (waiting) s1 where "r = Inr []" "pending = []" "st = Send_waiting"
      "s1 = snd (run_ng_call K N (ng_mem_send2 N (the (ss_native s))) s)"
      "t = s1\<lparr>ss_write_ready := ev_clear K (ss_write_ready s1)\<rparr>"
proof -
  from assms obtain g where g: "ss_native s = Some g"
    by (auto simp: send_iteration_def split: option.splits)
  obtain x s1 where c: "run_ng_call K N (ng_mem_send2 N g) s = (x, s1)" by fastforce
  have s1: "s1 = snd (run_ng_call K N (ng_mem_send2 N (the (ss_native s))) s)" by (simp add: g c)
  note it = assms [unfolded send_iteration_def g option.case c prod.case]
  show thesis
  proof (cases x)
    case (Inl nread)
    with it s1 show thesis by (intro failed [of nread]) auto
  next
    case (Inr data)
    consider (fits) "data \<noteq> []" "length data \<le> cap - length pending"
      | (full) "\<not> (data \<noteq> [] \<and> length data \<le> cap - length pending)" "0 < length pending + length data"
      | (none) "data = []" "pending = []" by fastforce
    then show thesis
    proof cases
      case fits
      with it Inr s1 show thesis by (intro buffered [of data]) (simp_all add: fits_iff)
    next
      case full
      with it Inr s1 show thesis by (intro writing [of data]) auto
    next
      case none
      with it Inr s1 finished waiting [of s1] show thesis by (auto split: option.splits if_splits)
    qed
  qed
qed

lemma session_inv_write_ready [simp]: "session_inv (s\<lparr>ss_write_ready := e\<rparr>) = session_inv s"
  by (simp add: session_inv_def)

lemma send_iteration_sys_inv:
  assumes "session_sys_inv K written room rest y"
    and "send_iteration K N cap pending (sy_session y) = Some (r, st, t)"
  shows "session_sys_inv K written room rest (y\<lparr>sy_session := t\<rparr>) \<and> ss_native t \<noteq> None"
proof -
  let ?s1 = "snd (run_ng_call K N (ng_mem_send2 N (the (ss_native (sy_session y)))) (sy_session y))"
  have inv: "session_sys_inv K written room rest (y\<lparr>sy_session := ?s1\<rparr>)"
    by (rule sys_inv_call [OF assms(1)]) (rule prod.collapse [symmetric])
  from sys_inv_poke [OF this, of "?s1\<lparr>ss_write_ready := ev_clear K (ss_write_ready ?s1)\<rparr>"]
  have clear: "session_sys_inv K written room rest
      (y\<lparr>sy_session := ?s1\<lparr>ss_write_ready := ev_clear K (ss_write_ready ?s1)\<rparr>\<rparr>)" by simp
  have native: "ss_native ?s1 \<noteq> None" by (rule call_native.rel_call)
  from assms(2) show ?thesis
    by (cases rule: send_iteration_cases) (use inv clear native in simp_all)
qed

lemma send_iteration_send_inv:
  assumes "send_inv cap c" "cn_send c = Send_top pending"
    and "send_iteration K N cap pending (cn_session c) = Some (r, st, s)"
  shows "send_inv cap ((set_session s c)\<lparr>cn_send := st, cn_produced := cn_produced c @ produced r\<rparr>)"
  using assms(3)
  by (cases rule: send_iteration_cases) (use assms(1,2) in \<open>auto simp: send_inv_def set_session_def\<close>)

lemma send_inv_frame [simp]:
  "send_inv cap (c\<lparr>cn_sys := y\<rparr>) = send_inv cap c" "send_inv cap (c\<lparr>cn_recv := st\<rparr>) = send_inv cap c"
  "send_inv cap (c\<lparr>cn_over := b\<rparr>) = send_inv cap c"
  by (simp_all add: send_inv_def split: send_state.split)

lemma recv_finish_sys_inv:
  assumes "session_sys_inv K written room rest (y\<lparr>sy_session := s\<rparr>)" "ss_native s \<noteq> None"
  shows "session_sys_inv K written room rest (y\<lparr>sy_session := recv_finish K N s\<rparr>) \<and>
    ss_native (recv_finish K N s) \<noteq> None"
  using sys_inv_poke [OF assms(1), of "recv_finish K N s"] assms(2)
  by (simp add: recv_finish_def)

lemma recv_check_sys_inv:
  assumes "session_sys_inv K written room rest (y\<lparr>sy_session := s\<rparr>)" "recv_check K N s = Some (st, t)"
  shows "session_sys_inv K written room rest (y\<lparr>sy_session := t\<rparr>) \<and> ss_native t \<noteq> None"
  using assms recv_finish_sys_inv [OF assms(1)]
  by (auto simp: recv_check_def split: option.splits if_splits)

lemma recv_resume_sys_inv:
  assumes "session_sys_inv K written room rest y" "ss_native (sy_session y) \<noteq> None"
    and "recv_resume K N e bytes (sy_session y) = Some (st, t)"
  shows "session_sys_inv K written room rest (y\<lparr>sy_session := t\<rparr>) \<and> ss_native t \<noteq> None"
proof (cases "e = None")
  case False
  with assms show ?thesis using recv_finish_sys_inv [where K = K and written = written and room = room and rest = rest and y = y and s = "sy_session y" and N = N]
    by (simp add: recv_resume_def)
next
  case True
  from assms(2) obtain g where g: "ss_native (sy_session y) = Some g" by blast
  obtain rv s1 where c: "run_ng_call K N (ng_mem_recv2 N g bytes) (sy_session y) = (rv, s1)" by fastforce
  have inv: "session_sys_inv K written room rest (y\<lparr>sy_session := s1\<rparr>)" and nat: "ss_native s1 \<noteq> None"
    using sys_inv_call [OF assms(1) c] call_native.rel_call [where K = K and N = N and call = "ng_mem_recv2 N g bytes" and s = "sy_session y"] c
    by simp_all
  let ?t = "start_write K (with_native (\<lambda>g. ng_terminate_session N g NGHTTP2_PROTOCOL_ERROR) s1)"
  have "session_sys_inv K written room rest (y\<lparr>sy_session := ?t\<rparr>)"
    using sys_inv_poke [OF inv, of ?t] by simp
  moreover have "session_sys_inv K written room rest (y\<lparr>sy_session := start_write K s1\<rparr>)"
    using sys_inv_poke [OF inv, of "start_write K s1"] by simp
  ultimately show ?thesis
    using assms(3) True nat recv_finish_sys_inv [where K = K and written = written and room = room and rest = rest and y = y and s = ?t and N = N]
      recv_check_sys_inv [where K = K and written = written and room = room and rest = rest and y = y and s = "start_write K s1" and N = N and st = st and t = t]
    by (simp add: recv_resume_def g c split: if_splits)
qed

lemma conn_starts_inv:
  "conn_starts K N written room rest c \<Longrightarrow> conn_inv K written room rest cap c"
proof -
  assume "conn_starts K N written room rest c"
  then obtain r handler s where lib: "library_ok K written room rest"
    and s: "run_setup N (new_session K r handler) = Inr s"
    and c: "c = \<lparr>cn_sys = \<lparr>sy_session = s, sy_writing = {}, sy_asking = {}\<rparr>, cn_send = Send_top [],
             cn_recv = Recv_top, cn_over = False, cn_produced = [], cn_wire = []\<rparr>"
    by (auto simp: conn_starts_def)
  let ?y = "\<lparr>sy_session = new_session K r handler, sy_writing = {}, sy_asking = {}\<rparr>"
  have "session_sys_inv K written room rest ?y"
    using lib by (intro session_starts_inv) (auto simp: session_starts_def)
  from session_step_inv [OF session_setup [of N ?y s K] this] s
  have "session_sys_inv K written room rest \<lparr>sy_session = s, sy_writing = {}, sy_asking = {}\<rparr>" by simp
  moreover have "ss_native s \<noteq> None" using run_setup_result [OF s] by auto
  ultimately show ?thesis by (simp add: conn_inv_def c send_inv_def)
qed

lemma run_teardown_native: "ss_native (run_teardown K s) = ss_native s"
proof -
  have "ss_native (foldl (\<lambda>s (sid, a). update_object a (on_close K) s) u xs) = ss_native u"
    for u :: "('a, 'b, 'c, 'd) session" and xs :: "(stream_id \<times> addr) list"
    by (induction xs arbitrary: u) (auto split: prod.split)
  then show ?thesis by (simp add: run_teardown_def)
qed

lemma conn_step_inv:
  assumes "conn_step K N written cap c d" "conn_inv K written room rest cap c"
  shows "conn_inv K written room rest cap d"
  using assms
proof (induction rule: conn_step.induct)
  case (conn_send c pending r st s)
  with send_iteration_sys_inv [of K written room rest "cn_sys c"] send_iteration_send_inv [of cap c]
  show ?case by (simp add: conn_inv_def set_session_def)
next
  case (conn_written c bytes n e)
  then have "\<exists>lost. bytes = take n bytes @ lost" by (metis append_take_drop_id)
  with conn_written show ?case by (auto simp: conn_inv_def send_inv_def send_written_def)
next
  case (conn_wake c e)
  then show ?case by (auto simp: conn_inv_def send_inv_def send_resume_def)
next
  case (conn_recv_start c st s)
  then show ?case using recv_check_sys_inv [where K = K and written = written and room = room and rest = rest and y = "cn_sys c" and s = "cn_session c" and N = N and st = st and t = s]
    by (simp add: conn_inv_def set_session_def)
next
  case (conn_recv c bytes e st s)
  then show ?case using recv_resume_sys_inv [of K written room rest "cn_sys c" N e bytes st s]
    by (simp add: conn_inv_def set_session_def)
next
  case (conn_user c y)
  then show ?case
    using user_step_inv [OF conn_user.hyps] user_step_native [OF conn_user.hyps]
    by (simp add: conn_inv_def)
next
  case (conn_teardown c)
  have "session_step K N written (cn_sys c) ((cn_sys c)\<lparr>sy_session := run_teardown K (cn_session c)\<rparr>)"
    by (rule session_teardown)
  from session_step_inv [OF this] conn_teardown show ?case
    by (simp add: conn_inv_def set_session_def run_teardown_native)
qed

interpretation conn_invariant: step_invariant "conn_starts K N written room rest"
  "conn_step K N written cap" "conn_inv K written room rest cap"
  for K :: "('e, 'b, 'c) capy" and N :: "'ng nghttp2" and written room rest cap
  by unfold_locales (auto intro: conn_starts_inv conn_step_inv)

lemma recv_resume_pokes:
  assumes "event_ok K" "recv_resume K N e bytes s = Some (st, t)"
  shows "poked K t"
  using assms
  by (auto simp: recv_resume_def recv_check_def recv_finish_def split: option.splits prod.splits if_splits)

lemma send_iteration_total:
  assumes "ss_native s \<noteq> None"
  obtains r st t where "send_iteration K N cap pending s = Some (r, st, t)" "ss_native t \<noteq> None"
proof -
  obtain g where g: "ss_native s = Some g" using assms by blast
  obtain x s1 where c: "run_ng_call K N (ng_mem_send2 N g) s = (x, s1)" by fastforce
  have "ss_native s1 \<noteq> None"
    using call_native.rel_call [where K = K and N = N and call = "ng_mem_send2 N g" and s = s] c by simp
  then have "\<exists>r st t. send_iteration K N cap pending s = Some (r, st, t) \<and> ss_native t \<noteq> None"
    by (auto simp: send_iteration_def g c split: sum.split)
  with that show thesis by blast
qed

lemma fits_measure:
  "data \<noteq> [] \<Longrightarrow> length (pending @ data) \<le> cap \<Longrightarrow> cap - length (pending @ data) < cap - length pending"
  by (cases data) auto

section \<open>Properties\<close>

text \<open>The bytes the send loop holds.\<close>

fun in_transit :: "send_state \<Rightarrow> byte list" where
  "in_transit (Send_top pending) = pending"
| "in_transit (Send_writing bytes) = bytes"
| "in_transit _ = []"

text \<open>
  C5. The send loop puts on the wire exactly what nghttp2 produces, in order: in every reachable
  state of a connection what the transport accepted, followed by what the loop holds, is what
  nghttp2 has produced so far. While the loop waits it holds nothing, so everything produced has
  been written, and its accumulator never outgrows the reserved capacity. Only when the loop has
  ended, after an error, can a tail of what was produced be missing.
\<close>

theorem send_loop_in_order:
  assumes "reachable (conn_starts K N written room rest) (conn_step K N written cap) c"
  shows "(cn_send c \<noteq> Send_done \<longrightarrow> cn_produced c = cn_wire c @ in_transit (cn_send c)) \<and>
    (\<exists>lost. cn_produced c = cn_wire c @ lost) \<and>
    (\<forall>pending. cn_send c = Send_top pending \<longrightarrow> length pending \<le> cap)"
  using conn_invariant.inv_reachable [OF assms]
  by (cases "cn_send c") (auto simp: conn_inv_def send_inv_def)

text \<open>A connection whose library has three bytes to send each time it is asked.\<close>

definition demo_send_ng :: "unit nghttp2" where
  "demo_send_ng = (demo_ng demo_open)\<lparr>ng_mem_send2 := (\<lambda>_. Ng_return (Inr [1, 2, 3]) ())\<rparr>"

definition demo_conn :: "(unit, bool, byte list \<times> nat, nat \<times> byte list) connection" where
  "demo_conn =
     \<lparr>cn_sys = \<lparr>sy_session = demo_ready, sy_writing = {}, sy_asking = {}\<rparr>, cn_send = Send_top [],
      cn_recv = Recv_top, cn_over = False, cn_produced = [], cn_wire = []\<rparr>"

definition demo_conn_sent :: "(unit, bool, byte list \<times> nat, nat \<times> byte list) connection" where
  "demo_conn_sent = demo_conn\<lparr>cn_send := Send_top [1, 2, 3], cn_produced := [1, 2, 3]\<rparr>"

lemma demo_conn_reach:
  "reachable (conn_starts flat_capy demo_send_ng fst snd snd) (conn_step flat_capy demo_send_ng fst 4) demo_conn"
  by (rule reachable_init)
    (auto simp: conn_starts_def flat_capy_ok demo_conn_def demo_ready_def run_setup_def demo_send_ng_def
      demo_ng_def intro!: exI [of _ Role_server] exI [of _ True])

lemma demo_conn_sent_reach:
  "reachable (conn_starts flat_capy demo_send_ng fst snd snd) (conn_step flat_capy demo_send_ng fst 4) demo_conn_sent"
proof (rule reachable_step [OF demo_conn_reach])
  show "conn_step flat_capy demo_send_ng fst 4 demo_conn demo_conn_sent"
    using conn_send [of demo_conn "[]" flat_capy demo_send_ng 4 "Inr [1, 2, 3]" "Send_top [1, 2, 3]" demo_ready fst]
    by (simp add: demo_conn_def demo_conn_sent_def send_iteration_def demo_ready_def demo_send_ng_def set_session_def)
qed

theorem send_loop_in_order_witness:
  "cn_produced demo_conn_sent = [1, 2, 3] \<and>
   cn_produced demo_conn_sent = cn_wire demo_conn_sent @ in_transit (cn_send demo_conn_sent)"
  using send_loop_in_order [OF demo_conn_sent_reach] by (simp add: demo_conn_sent_def)

text \<open>
  C30. The send loop does not spin: from the top it reaches, after finitely many calls of
  \<open>nghttp2_session_mem_send2\<close>, a write of everything it has collected, or a wait with nothing
  collected and the event cleared, or its end.
\<close>

theorem send_run_suspends:
  assumes "event_ok K" "ss_native s \<noteq> None"
  shows "\<exists>data st t. send_run K N cap pending s = Some (data, st, t) \<and>
    (case st of
       Send_top _ \<Rightarrow> False
     | Send_writing bytes \<Rightarrow> bytes = pending @ data \<and> bytes \<noteq> []
     | Send_waiting \<Rightarrow> pending = [] \<and> data = [] \<and> \<not> ev_is_set K (ss_write_ready t)
     | Send_done \<Rightarrow> True)"
  using assms(2)
proof (induction "cap - length pending" arbitrary: pending s rule: less_induct)
  case less
  from send_iteration_total [OF less.prems] obtain r st t where
    it: "send_iteration K N cap pending s = Some (r, st, t)" "ss_native t \<noteq> None" .
  from it(1) show ?case
  proof (cases rule: send_iteration_cases)
    case (buffered data)
    from less.hyps [OF fits_measure [OF buffered(3,4)] it(2)] obtain more st' t' where
      "send_run K N cap (pending @ data) t = Some (more, st', t')"
      "case st' of Send_top _ \<Rightarrow> False | Send_writing bytes \<Rightarrow> bytes = (pending @ data) @ more \<and> bytes \<noteq> []
       | Send_waiting \<Rightarrow> pending @ data = [] \<and> more = [] \<and> \<not> ev_is_set K (ss_write_ready t')
       | Send_done \<Rightarrow> True" by blast
    then show ?thesis
      by (subst send_run.simps) (auto simp: it(1) buffered split: send_state.splits)
  next
    case (waiting s1)
    have "send_run K N cap pending s = Some ([], Send_waiting, t)"
      using it(1) waiting(1,3) by (subst send_run.simps) simp
    with waiting assms(1) show ?thesis by (simp add: event_ok_def)
  next
    case finished
    have "send_run K N cap pending s = Some ([], Send_done, t)"
      using it(1) finished(1,3) by (subst send_run.simps) simp
    then show ?thesis by simp
  qed (subst send_run.simps, simp add: it(1))+
qed

theorem send_run_suspends_witness:
  "\<exists>data bytes t. send_run flat_capy demo_send_ng 4 [] demo_ready = Some (data, Send_writing bytes, t) \<and>
     bytes = data \<and> bytes = [1, 2, 3, 1, 2, 3]"
proof -
  have it: "send_iteration flat_capy demo_send_ng 4 p demo_ready =
      Some (Inr [1, 2, 3], if p = [] then Send_top [1, 2, 3] else Send_writing (p @ [1, 2, 3]), demo_ready)"
    if "p = [] \<or> length p = 3" for p
    using that by (auto simp: send_iteration_def demo_ready_def demo_send_ng_def)
  have "send_run flat_capy demo_send_ng 4 [] demo_ready
      = Some ([1, 2, 3, 1, 2, 3], Send_writing [1, 2, 3, 1, 2, 3], demo_ready)"
    by (subst send_run.simps, simp add: it, subst send_run.simps, simp add: it)
  then show ?thesis
    using send_run_suspends [OF library_okD(1) [OF flat_capy_ok], of demo_ready demo_send_ng 4 "[]"]
    by (auto simp: demo_ready_def)
qed

text \<open>
  C26. A poke is never lost: while the send loop waits on a set event, no step of the receive loop,
  of a user or of a request handler takes the event back, so the loop stays ready to resume; and
  when it resumes without being cancelled it goes back to the top and asks nghttp2 again.
\<close>

theorem poke_is_not_lost:
  assumes "event_ok K" "conn_step K N written cap c d"
    and "cn_send c = Send_waiting" "ev_is_set K (ss_write_ready (cn_session c))"
  shows "cn_send d = Send_waiting \<and> may_resume K None (ss_write_ready (cn_session d))
    \<or> cn_send d = Send_top [] \<or> cn_send d = Send_done"
  using assms(2)
proof cases
  case (conn_wake e)
  then show ?thesis by (simp add: send_resume_def)
next
  case (conn_recv_start st s)
  with assms show ?thesis
    by (auto simp: recv_check_def recv_finish_def set_session_def may_resume_def poked_start_write [unfolded poked_def]
        split: option.splits if_splits)
next
  case (conn_recv bytes e st s)
  with assms(1,3) recv_resume_pokes [OF assms(1) conn_recv(4)] show ?thesis
    by (simp add: set_session_def may_resume_def poked_def)
next
  case (conn_user y)
  with assms user_step_poked [OF conn_user(2) assms(1)] show ?thesis
    by (simp add: may_resume_def poked_def)
qed (use assms in simp_all)

theorem poke_is_not_lost_witness:
  "may_resume flat_capy None (ss_write_ready (recv_finish flat_capy demo_N (start_write flat_capy demo_ready)))"
proof -
  let ?c = "demo_conn\<lparr>cn_sys := \<lparr>sy_session = start_write flat_capy demo_ready, sy_writing = {}, sy_asking = {}\<rparr>,
    cn_send := Send_waiting, cn_recv := Recv_reading\<rparr>"
  let ?d = "(set_session (recv_finish flat_capy demo_N (start_write flat_capy demo_ready)) ?c)\<lparr>cn_recv := Recv_done\<rparr>"
  have "conn_step flat_capy demo_N fst 1460 ?c ?d"
    by (rule conn_recv [where bytes = "[]" and e = "Some Error_eof"]) (simp_all add: recv_resume_def)
  moreover have "ev_is_set flat_capy (ss_write_ready (start_write flat_capy demo_ready))"
    using poked_start_write [OF library_okD(1) [OF flat_capy_ok], of demo_ready] by (simp add: poked_def)
  ultimately show ?thesis
    using poke_is_not_lost [OF library_okD(1) [OF flat_capy_ok], of demo_N fst 1460 ?c ?d]
    by (simp add: set_session_def)
qed

text \<open>
  The receive loop always wakes the send loop: after each block of received bytes, whether
  nghttp2 accepted it or not, and after a failed read the event is set; and when the loop ends, the
  last thing nghttp2 was asked to do is to terminate the session, so that there is a GOAWAY for
  the send loop to flush.
\<close>

theorem recv_loop_wakes_send_loop:
  assumes "event_ok K" "ss_native s \<noteq> None"
  shows "\<exists>st t. recv_resume K N e bytes s = Some (st, t) \<and> ev_is_set K (ss_write_ready t) \<and> st \<noteq> Recv_top \<and>
    (st = Recv_done \<longrightarrow> (\<exists>g. ss_native t = Some (ng_terminate_session N g NGHTTP2_NO_ERROR)))"
proof -
  from assms(2) obtain g where g: "ss_native s = Some g" by blast
  obtain rv s1 where c: "run_ng_call K N (ng_mem_recv2 N g bytes) s = (rv, s1)" by fastforce
  then obtain g1 where g1: "ss_native s1 = Some g1"
    using call_native.rel_call [where K = K and N = N and call = "ng_mem_recv2 N g bytes" and s = s] by auto
  have "recv_resume K N e bytes s \<noteq> None"
    by (auto simp: recv_resume_def recv_check_def g c g1)
  then obtain st t where t: "recv_resume K N e bytes s = Some (st, t)" by auto
  moreover have "st \<noteq> Recv_top \<and>
      (st = Recv_done \<longrightarrow> (\<exists>g. ss_native t = Some (ng_terminate_session N g NGHTTP2_NO_ERROR)))"
    using t by (auto simp: recv_resume_def recv_check_def recv_finish_def with_native_def g c g1 split: if_splits)
  ultimately show ?thesis using recv_resume_pokes [OF assms(1) t] by (auto simp: poked_def)
qed

theorem recv_loop_wakes_send_loop_witness:
  "\<exists>st t. recv_resume flat_capy demo_N (Some Error_eof) [] demo_ready = Some (st, t) \<and>
     ev_is_set flat_capy (ss_write_ready t)"
  using recv_loop_wakes_send_loop [OF library_okD(1) [OF flat_capy_ok], of demo_ready demo_N "Some Error_eof" "[]"]
  by (auto simp: demo_ready_def)

text \<open>
  The loops respect the session: in every reachable state of a connection the session system's
  invariant holds, so the table is consistent and every stream object is in a state the stream
  system can reach.
\<close>

theorem connection_refines_streams:
  assumes "reachable (conn_starts K N written room rest) (conn_step K N written cap) c"
    and "find_stream (cn_session c) sid = Some a"
  shows "st_id (ss_objects (cn_session c) ! a) = sid \<and>
    (\<exists>g. reachable (starts K written room rest) (stream_step K written rest) g \<and>
         sys_stream g = ss_objects (cn_session c) ! a)"
proof -
  have inv: "session_inv (cn_session c)" and link: "linked K written room rest (cn_sys c)"
    using conn_invariant.inv_reachable [OF assms(1)] by (auto simp: conn_inv_def session_sys_inv_def)
  from session_invD [OF inv assms(2)] link show ?thesis by (auto simp: linked_def)
qed

lemma demo_conn_open_reach:
  "reachable (conn_starts flat_capy demo_N fst snd snd) (conn_step flat_capy demo_N fst 1460)
    (demo_conn\<lparr>cn_recv := Recv_reading, cn_sys := demo_sys\<rparr>)"
proof -
  let ?R = "reachable (conn_starts flat_capy demo_N fst snd snd) (conn_step flat_capy demo_N fst 1460)"
  have "?R demo_conn"
    by (rule reachable_init)
      (auto simp: conn_starts_def flat_capy_ok demo_conn_def demo_ready_def run_setup_def
        demo_ng_def intro!: exI [of _ Role_server] exI [of _ True])
  moreover have "conn_step flat_capy demo_N fst 1460 demo_conn (demo_conn\<lparr>cn_recv := Recv_reading\<rparr>)"
    using conn_recv_start [of demo_conn flat_capy demo_N Recv_reading demo_ready fst 1460]
    by (simp add: demo_conn_def recv_check_def demo_ready_def demo_ng_def set_session_def)
  moreover have "recv_resume flat_capy demo_N None [] demo_ready
      = Some (Recv_reading, start_write flat_capy demo_session)"
  proof -
    have "run_ng_call flat_capy demo_N (script demo_open (0 :: int)) demo_ready = (0, demo_session)"
      by (simp add: demo_session_def prod_eq_iff script_returns)
    moreover have "ss_native demo_ready = Some ()" "ng_want_read demo_N ()"
      by (simp_all add: demo_ready_def demo_ng_def)
    ultimately show ?thesis
      by (simp add: recv_resume_def demo_ng_recv recv_check_def demo_session_eval)
  qed
  then have "conn_step flat_capy demo_N fst 1460 (demo_conn\<lparr>cn_recv := Recv_reading\<rparr>)
      (demo_conn\<lparr>cn_recv := Recv_reading, cn_sys := demo_sys\<rparr>)"
    using conn_recv [of "demo_conn\<lparr>cn_recv := Recv_reading\<rparr>" "[]" flat_capy demo_N None Recv_reading
        "start_write flat_capy demo_session" fst 1460]
    by (simp add: demo_conn_def demo_sys_def set_session_def)
  ultimately show ?thesis by (blast intro: reachable_step)
qed

theorem connection_refines_streams_witness:
  "\<exists>g. demo_reach g \<and> sys_stream g = ss_objects (start_write flat_capy demo_session) ! 1"
  using connection_refines_streams [OF demo_conn_open_reach, of 3 1]
  by (auto simp: demo_sys_def demo_session_find)

end
