(* ===== verification/Session_Lifetime.thy ===== *)
theory Session_Lifetime
  imports Session_Loops
begin

text \<open>
  The lifetime of streams. The first part is about the end of a session: after \<open>run\<close> has returned,
  \<open>submit_request\<close> still hands out streams, and nothing ever wakes a coroutine on one of them.

  The second part is about the raw pointers to \<open>Stream\<close> objects that nghttp2 keeps as data
  providers. The table of the session is what keeps such an object alive. With what nghttp2 documents of
  stream identifiers and data providers, every provider nghttp2 may still call belongs to a stream
  of the table, and the table holds exactly the streams that are open.
\<close>

section \<open>Streams opened after the end\<close>

text \<open>A stream on which nothing has happened and nobody can be woken.\<close>

definition idle_stream :: "('e, 'b, 'c) capy \<Rightarrow> ('e, 'b, 'c) stream \<Rightarrow> bool" where
  "idle_stream K st \<longleftrightarrow>
     \<not> st_closed st \<and> \<not> st_read_eof st \<and> st_status st < 0 \<and> st_chunks st = [] \<and>
     (\<forall>sink. st_read_sink st = Some sink \<longrightarrow> sink_copied sink = 0) \<and>
     \<not> ev_is_set K (st_status_ready st) \<and> \<not> ev_is_set K (st_read_ready st) \<and>
     \<not> ev_is_set K (st_write_progress st)"

lemma idle_new: "event_ok K \<Longrightarrow> idle_stream K (set_id lp sid (new_stream K i prefix))"
  by (simp add: idle_stream_def set_id_def new_stream_def event_ok_def)

lemma idle_coroutines:
  assumes "event_ok K" "idle_stream K st"
  shows "read_some K bp st = Some (out, st', effs) \<Longrightarrow> idle_stream K st'"
    and "st_read_sink st = Some sink \<Longrightarrow> may_resume K e (st_read_ready st) \<Longrightarrow>
      read_some_resume K e sink st = (out, st', effs) \<Longrightarrow> idle_stream K st'"
    and "write_impl K buffers eof st = (wout, st', effs) \<Longrightarrow> idle_stream K st'"
    and "write_impl_resume e st = (r, st') \<Longrightarrow> idle_stream K st'"
    and "status_co K st = (sout, st') \<Longrightarrow> idle_stream K st'"
  using assms
  by (auto simp: idle_stream_def event_ok_def read_some_def drain_chunks.simps read_park_def
      read_some_resume_def write_impl_def write_impl_resume_def status_co_def may_resume_def Let_def
      split: if_splits)

definition idle_at :: "('e, 'b, 'c) capy \<Rightarrow> addr \<Rightarrow> ('ng, 'e, 'b, 'c) session \<Rightarrow> bool" where
  "idle_at K a s \<longleftrightarrow> a < length (ss_objects s) \<and> idle_stream K (ss_objects s ! a)"

lemma idle_at_result:
  assumes "idle_at K a s" "b < length (ss_objects s)" "idle_stream K (ss_objects s ! b) \<Longrightarrow> idle_stream K st"
  shows "idle_at K a (stream_result K N b st effs s)"
  using assms by (auto simp: idle_at_def stream_result_objects nth_list_update)

lemma idle_at_request:
  assumes "idle_at K a s" "submit_request K N path cl hs s = Some (r, t)"
  shows "idle_at K a t"
  using assms(2)
  by (cases rule: submit_request_cases) (use assms(1) in \<open>auto simp: idle_at_def nth_append\<close>)

lemma idle_at_user:
  assumes "user_step K N written y z" "event_ok K" "session_inv (sy_session y)" "idle_at K a (sy_session y)"
  shows "idle_at K a (sy_session z)"
  using assms
proof (induction rule: user_step.induct)
  case (user_request path cl hs y r s)
  then show ?case using idle_at_request by simp
next
  case (user_response b y status hs e s)
  then show ?case using submit_response_result(1) by (fastforce simp: idle_at_def)
next
  case (user_handle b y h s)
  from user_handle.hyps(3) show ?case
  proof (cases rule: handle_request_result)
    case (closed e out s1 st effs)
    have objs: "ss_objects s1 = objects y" using submit_response_result(1) [OF closed(2)] .
    then have "idle_at K a s1" using user_handle.prems(3) by (simp add: idle_at_def)
    moreover have "b < length (ss_objects s1)"
      using user_handle.hyps(1) user_handle.prems(2) objs by (simp add: session_inv_def)
    moreover have "idle_stream K (ss_objects s1 ! b) \<Longrightarrow> idle_stream K st"
      using idle_coroutines(3) [OF user_handle.prems(1)] closed(3) by (simp add: write_eof_def)
    ultimately show ?thesis by (simp add: closed(4) idle_at_result)
  qed (use user_handle.prems in simp)
next
  case (user_read b y bp out st effs)
  from idle_at_result [OF user_read.prems(3) user_read.hyps(1) idle_coroutines(1) [OF user_read.prems(1) _ user_read.hyps(4)]]
  show ?case by simp
next
  case (user_read_wake b y sink e out st effs)
  from idle_at_result [OF user_read_wake.prems(3) user_read_wake.hyps(1) idle_coroutines(2) [OF user_read_wake.prems(1) _ user_read_wake.hyps(2-4)]]
  show ?case by simp
next
  case (user_write b y buffers eof st effs)
  from idle_at_result [OF user_write.prems(3) user_write.hyps(1) idle_coroutines(3) [OF user_write.prems(1) _ user_write.hyps(3)]]
  show ?case by simp
next
  case (user_write_wake b y e r st)
  from idle_at_result [OF user_write_wake.prems(3) user_write_wake.hyps(1) idle_coroutines(4) [OF user_write_wake.prems(1) _ user_write_wake.hyps(4)]]
  show ?case by simp
next
  case (user_ask b y out st)
  from idle_at_result [OF user_ask.prems(3) user_ask.hyps(1) idle_coroutines(5) [OF user_ask.prems(1) _ user_ask.hyps(3)]]
  show ?case by simp
qed simp

text \<open>After the end of \<open>run\<close> only users act on the session.\<close>

lemma conn_step_over:
  assumes "conn_step K N written cap c d" "conn_inv K written room rest cap c" "cn_over c"
  shows "cn_over d \<and> user_step K N written (cn_sys c) (cn_sys d)"
  using assms by cases (auto simp: conn_inv_def)

lemma idle_after_end:
  assumes "(conn_step K N written cap)\<^sup>*\<^sup>* c d" "conn_inv K written room rest cap c" "cn_over c"
    and "idle_at K a (cn_session c)"
  shows "conn_inv K written room rest cap d \<and> cn_over d \<and> idle_at K a (cn_session d)"
  using assms
proof (induction rule: rtranclp_induct)
  case (step d e)
  then have d: "conn_inv K written room rest cap d" "cn_over d" "idle_at K a (cn_session d)" by blast+
  note e = conn_step_over [OF step.hyps(2) d(1,2)]
  have "event_ok K" "session_inv (cn_session d)"
    using d(1) by (auto simp: conn_inv_def session_sys_inv_def library_ok_def)
  with e d(3) have "idle_at K a (cn_session e)" by (auto intro: idle_at_user)
  with e conn_step_inv [OF step.hyps(2) d(1)] show ?case by blast
qed (use assms in blast)

text \<open>
  C35. A request submitted after the session has ended is never answered and never fails: when \<open>run\<close>
  has returned, both loops are over and all streams have been closed, yet a call of
  \<open>submit_request\<close> can still succeed, and then in every state the connection can get into neither
  the status, nor the end of a read, nor that of a write on the new stream can be reported; whoever
  waits for one of them waits until it is cancelled.
\<close>

theorem request_after_end_is_never_answered:
  assumes "reachable (conn_starts K N written room rest) (conn_step K N written cap) c" "cn_over c"
    and "submit_request K N path cl hs (cn_session c) = Some ((None, Some a), s)"
    and "(conn_step K N written cap)\<^sup>*\<^sup>* (set_session s c) d"
  shows "let st = ss_objects (cn_session d) ! a in
    st_status st < 0 \<and> \<not> st_closed st \<and> \<not> may_resume K None (st_status_ready st) \<and>
    \<not> may_resume K None (st_read_ready st) \<and> \<not> may_resume K None (st_write_progress st)"
proof -
  note inv = conn_invariant.inv_reachable [OF assms(1)]
  have K: "event_ok K" using inv by (auto simp: conn_inv_def session_sys_inv_def library_ok_def)
  have "conn_step K N written cap c (set_session s c)"
    using conn_user [OF user_request [of K N path cl hs "cn_sys c" "(None, Some a)" s written]] assms(3)
    by (simp add: set_session_def)
  from conn_step_inv [OF this inv] have "conn_inv K written room rest cap (set_session s c)" .
  moreover have "idle_at K a s"
    using assms(3) idle_new [OF K]
    by (auto simp: submit_request_def idle_at_def update_object_def Let_def
        split: if_splits option.splits prod.splits)
  ultimately have "idle_at K a (cn_session d)"
    using idle_after_end [OF assms(4)] assms(2) by (simp add: set_session_def)
  then show ?thesis by (simp add: idle_at_def idle_stream_def may_resume_def Let_def)
qed

text \<open>A connection whose library has nothing to send or to receive: both loops end at once.\<close>

definition ended_ng :: "unit nghttp2" where
  "ended_ng = (demo_ng [])\<lparr>ng_want_read := (\<lambda>_. False)\<rparr>"

type_synonym demo_connection = "(unit, bool, byte list \<times> nat, nat \<times> byte list) connection"

definition idle_conn :: "role \<Rightarrow> demo_connection" where
  "idle_conn r =
     \<lparr>cn_sys = \<lparr>sy_session = (new_session flat_capy r False)\<lparr>ss_native := Some ()\<rparr>,
                sy_writing = {}, sy_asking = {}\<rparr>,
      cn_send = Send_top [], cn_recv = Recv_top, cn_over = False, cn_produced = [], cn_wire = []\<rparr>"

definition ended_session :: "role \<Rightarrow> (unit, bool, byte list \<times> nat, nat \<times> byte list) session" where
  "ended_session r = (new_session flat_capy r False)\<lparr>ss_native := Some (), ss_write_ready := True\<rparr>"

definition sent_conn :: "role \<Rightarrow> demo_connection" where
  "sent_conn r = (idle_conn r)\<lparr>cn_send := Send_done\<rparr>"

definition closing_conn :: "role \<Rightarrow> demo_connection" where
  "closing_conn r = (set_session (ended_session r) (sent_conn r))\<lparr>cn_recv := Recv_done\<rparr>"

definition ended_conn :: "role \<Rightarrow> demo_connection" where
  "ended_conn r = (closing_conn r)\<lparr>cn_over := True\<rparr>"

lemmas ended_eval = idle_conn_def sent_conn_def closing_conn_def ended_conn_def ended_session_def
  ended_ng_def demo_ng_def set_session_def new_session_def

lemma ended_conn_steps:
  "conn_step flat_capy ended_ng fst cap (idle_conn r) (sent_conn r)"
  "conn_step flat_capy ended_ng fst cap (sent_conn r) (closing_conn r)"
  "conn_step flat_capy ended_ng fst cap (closing_conn r) (ended_conn r)"
proof -
  show "conn_step flat_capy ended_ng fst cap (idle_conn r) (sent_conn r)"
    using conn_send [of "idle_conn r" "[]" flat_capy ended_ng cap "Inr []" Send_done "cn_session (idle_conn r)" fst]
    by (simp add: ended_eval send_iteration_def)
  show "conn_step flat_capy ended_ng fst cap (sent_conn r) (closing_conn r)"
    using conn_recv_start [of "sent_conn r" flat_capy ended_ng Recv_done "ended_session r" fst cap]
    by (simp add: ended_eval recv_check_def recv_finish_def start_write_def with_native_def flat_capy_def)
  show "conn_step flat_capy ended_ng fst cap (closing_conn r) (ended_conn r)"
    using conn_teardown [of "closing_conn r" flat_capy ended_ng fst cap]
    by (simp add: ended_eval run_teardown_def)
qed

abbreviation ended_reach :: "demo_connection \<Rightarrow> bool" where
  "ended_reach \<equiv> reachable (conn_starts flat_capy ended_ng fst snd snd) (conn_step flat_capy ended_ng fst 1460)"

lemma ended_conn_reach: "ended_reach (ended_conn r)"
proof -
  have "ended_reach (idle_conn r)"
    by (rule reachable_init)
      (auto simp: conn_starts_def flat_capy_ok idle_conn_def run_setup_def ended_ng_def demo_ng_def
        intro!: exI [of _ r] exI [of _ False])
  from reachable_step [OF this ended_conn_steps(1)] have "ended_reach (sent_conn r)" .
  from reachable_step [OF this ended_conn_steps(2)] have "ended_reach (closing_conn r)" .
  from reachable_step [OF this ended_conn_steps(3)] show ?thesis .
qed

theorem request_after_end_is_never_answered_witness:
  "\<exists>s. submit_request flat_capy ended_ng ''/'' None [] (cn_session (ended_conn Role_client)) = Some ((None, Some 0), s) \<and>
     \<not> may_resume flat_capy None (st_status_ready (ss_objects s ! 0))"
proof -
  let ?c = "ended_conn Role_client"
  obtain s where s: "submit_request flat_capy ended_ng ''/'' None [] (cn_session ?c) = Some ((None, Some 0), s)"
    by (simp add: submit_request_def ended_eval Let_def)
  have "cn_over ?c" by (simp add: ended_conn_def)
  from request_after_end_is_never_answered [OF ended_conn_reach this s rtranclp.rtrancl_refl] s show ?thesis
    by (auto simp: Let_def set_session_def)
qed

section \<open>Data providers\<close>

text \<open>
  The session with what nghttp2 knows: the identifiers it has used, the streams that are open, and
  the data provider of a stream, which is the raw pointer the program passed. \<open>lf_begun\<close> counts the
  requests that began to arrive, \<open>lf_over\<close> says that \<open>run\<close> has returned.
\<close>

record ('ng, 'e, 'b, 'c) lifetime =
  lf_session :: "('ng, 'e, 'b, 'c) session"
  lf_used :: "stream_id set"
  lf_open :: "stream_id set"
  lf_provider :: "stream_id \<rightharpoonup> addr"
  lf_begun :: nat
  lf_over :: bool

text \<open>
  What nghttp2 documents: the identifier of a new stream is not zero and has not been used before,
  and the data provider is asked for data of open streams only. After \<open>run\<close> nobody calls nghttp2
  for input or output.
\<close>

definition callback_allowed :: "('ng, 'e, 'b, 'c) lifetime \<Rightarrow> callback \<Rightarrow> bool" where
  "callback_allowed x cb \<longleftrightarrow>
     \<not> lf_over x \<and>
     (case cb of
        Cb_begin_headers f \<Rightarrow> is_request_headers f \<longrightarrow> fr_stream_id f \<notin> lf_used x \<and> fr_stream_id f \<noteq> 0
      | Cb_data_source_read a len \<Rightarrow> \<exists>sid \<in> lf_open x. lf_provider x sid = Some a
      | _ \<Rightarrow> True)"

fun lf_callback :: "callback \<Rightarrow> ('ng, 'e, 'b, 'c) lifetime \<Rightarrow> ('ng, 'e, 'b, 'c) lifetime" where
  "lf_callback (Cb_begin_headers f) x =
     (if is_request_headers f
      then x\<lparr>lf_used := insert (fr_stream_id f) (lf_used x), lf_open := insert (fr_stream_id f) (lf_open x),
             lf_begun := lf_begun x + 1\<rparr>
      else x)"
| "lf_callback (Cb_stream_close sid e) x = x\<lparr>lf_open := lf_open x - {sid}\<rparr>"
| "lf_callback _ x = x"

text \<open>A coroutine of a user on a stream: what it may turn the stream into.\<close>

definition coroutine_result :: "('e, 'b, 'c) capy \<Rightarrow> ('e, 'b, 'c) stream \<Rightarrow> ('e, 'b, 'c) stream \<Rightarrow> bool" where
  "coroutine_result K st st' \<longleftrightarrow>
     (\<exists>bp out effs. read_some K bp st = Some (out, st', effs)) \<or>
     (\<exists>e sink out effs. read_some_resume K e sink st = (out, st', effs)) \<or>
     (\<exists>buffers eof out effs. write_impl K buffers eof st = (out, st', effs)) \<or>
     (\<exists>e r. write_impl_resume e st = (r, st')) \<or> (\<exists>out. status_co K st = (out, st'))"

inductive lifetime_step ::
  "('e, 'b, 'c) capy \<Rightarrow> 'ng nghttp2 \<Rightarrow> ('ng, 'e, 'b, 'c) lifetime \<Rightarrow> ('ng, 'e, 'b, 'c) lifetime \<Rightarrow> bool"
  for K N where
  lifetime_callback:
    "callback_allowed x cb \<Longrightarrow>
     lifetime_step K N x
       (lf_callback cb (x\<lparr>lf_session := snd (run_callback K N cb ((lf_session x)\<lparr>ss_native := Some g\<rparr>))\<rparr>))"
| lifetime_native:
    "lifetime_step K N x (x\<lparr>lf_session := (lf_session x)\<lparr>ss_native := g, ss_write_ready := e\<rparr>\<rparr>)"
| lifetime_request:
    "submit_request K N path cl hs (lf_session x) = Some ((None, Some a), s) \<Longrightarrow>
     sid = st_id (ss_objects s ! a) \<Longrightarrow> sid \<notin> lf_used x \<Longrightarrow> sid \<noteq> 0 \<Longrightarrow>
     lifetime_step K N x
       (x\<lparr>lf_session := s, lf_used := insert sid (lf_used x), lf_open := insert sid (lf_open x),
          lf_provider := (lf_provider x)(sid \<mapsto> a)\<rparr>)"
| lifetime_request_failed:
    "submit_request K N path cl hs (lf_session x) = Some ((Some e, b), s) \<Longrightarrow>
     lifetime_step K N x (x\<lparr>lf_session := s\<rparr>)"
| lifetime_response:
    "a \<in> set (ss_spawned (lf_session x)) \<Longrightarrow>
     submit_response K N a status hs (lf_session x) = Some (e, s) \<Longrightarrow>
     lifetime_step K N x
       (x\<lparr>lf_session := s,
          lf_provider := (if e = None then (lf_provider x)(st_id (ss_objects s ! a) \<mapsto> a) else lf_provider x)\<rparr>)"
| lifetime_coroutine:
    "a < length (ss_objects (lf_session x)) \<Longrightarrow> coroutine_result K (ss_objects (lf_session x) ! a) st \<Longrightarrow>
     lifetime_step K N x (x\<lparr>lf_session := stream_result K N a st effs (lf_session x)\<rparr>)"
| lifetime_end:
    "\<not> lf_over x \<Longrightarrow>
     lifetime_step K N x (x\<lparr>lf_session := run_teardown K (lf_session x), lf_over := True\<rparr>)"

subsection \<open>What a step does to identifiers, the table and the counter\<close>

definition ids :: "('ng, 'e, 'b, 'c) session \<Rightarrow> stream_id list" where
  "ids s = map st_id (ss_objects s)"

lemma ids_nth: "a < length (ss_objects s) \<Longrightarrow> ids s ! a = st_id (ss_objects s ! a)"
  by (simp add: ids_def)

lemma length_ids: "length (ids s) = length (ss_objects s)"
  by (simp add: ids_def)

lemma ids_update_object:
  assumes "\<And>st. st_id (u st) = st_id st"
  shows "ids (update_object a u s) = ids s"
  by (rule nth_equalityI) (auto simp: object_update_object assms ids_nth length_ids)

lemma ids_with_stream: "(\<And>st. st_id (u st) = st_id st) \<Longrightarrow> ids (with_stream sid u s) = ids s"
  by (simp add: with_stream_def ids_update_object split: option.split)

lemma ids_frame [simp]:
  "ids (s\<lparr>ss_native := g\<rparr>) = ids s" "ids (with_native f s) = ids s" "ids (start_write K s) = ids s"
  "ids (dispatch_request a s) = ids s" "ids (s\<lparr>ss_streams := m\<rparr>) = ids s" "ids (s\<lparr>ss_write_ready := e\<rparr>) = ids s"
  by (simp_all add: ids_def)

fun begun_id :: "callback \<Rightarrow> stream_id list" where
  "begun_id (Cb_begin_headers f) = (if is_request_headers f then [fr_stream_id f] else [])"
| "begun_id _ = []"

lemma ids_put:
  "(a < length (ss_objects s) \<Longrightarrow> st_id st = st_id (ss_objects s ! a)) \<Longrightarrow> ids (update_object a (\<lambda>_. st) s) = ids s"
  by (rule nth_equalityI) (auto simp: object_update_object ids_nth length_ids)

lemma data_source_ids: "ids (snd (data_source_read_callback K a len s)) = ids s"
  by (auto simp: data_source_read_callback_def intro!: ids_put dest: producer_callback_frame split: prod.split)

lemma run_callback_ids: "ids (snd (run_callback K N cb s)) = ids s @ begun_id cb"
proof (cases cb)
  case (Cb_begin_headers f)
  then show ?thesis
    by (simp add: on_begin_headers_callback_def create_stream_def Let_def ids_def new_stream_def)
next
  case (Cb_stream_close sid e)
  then show ?thesis
    by (simp add: on_stream_close_callback_def close_stream_def Let_def ids_update_object split: option.split)
qed (simp_all add: on_header_callback_field ids_with_stream on_frame_recv_callback_def Let_def
    on_data_chunk_recv_callback_def data_source_ids split: option.split)

lemma run_callback_table:
  assumes "\<And>f. cb = Cb_begin_headers f \<Longrightarrow> is_request_headers f \<Longrightarrow> find_stream s (fr_stream_id f) = None"
  shows "find_stream (snd (run_callback K N cb s)) sid \<noteq> None \<longleftrightarrow>
    sid \<in> set (begun_id cb) \<or> find_stream s sid \<noteq> None \<and> \<not> closes sid cb"
  using assms
  by (cases cb)
    (auto simp: on_begin_headers_callback_def create_stream_def find_stream_def [of "_\<lparr>ss_objects := _, ss_streams := _, ss_request_counter := _\<rparr>"]
      table.lookup_insert Let_def on_header_callback_field closes_def on_data_chunk_recv_callback_def
      on_stream_close_callback_def find_stream_close simp flip: find_stream_def)

lemma run_callback_spawned:
  "set (ss_spawned (snd (run_callback K N cb s))) \<subseteq> set (ss_spawned s) \<union> {a. \<exists>sid. find_stream s sid = Some a}"
proof (cases cb)
  case (Cb_frame_recv f)
  then show ?thesis
    by (auto simp: on_frame_recv_callback_def Let_def with_stream_def update_object_def dispatch_request_def
        split: option.splits if_splits)
qed (auto simp: on_begin_headers_callback_def create_stream_def Let_def on_header_callback_field
    with_stream_def update_object_def on_data_chunk_recv_callback_def with_native_def
    on_stream_close_callback_def close_stream_def data_source_read_callback_def
    split: option.splits prod.splits if_splits)

lemma run_callback_counter:
  "ss_request_counter (snd (run_callback K N cb s)) = ss_request_counter s + word_of_nat (length (begun_id cb))"
  by (cases cb)
    (auto simp: on_begin_headers_callback_def create_stream_def Let_def on_header_callback_field
      with_stream_def update_object_def on_data_chunk_recv_callback_def with_native_def
      on_stream_close_callback_def close_stream_def data_source_read_callback_def
      on_frame_recv_callback_def dispatch_request_def split: option.splits prod.splits)

lemma coroutine_result_frame:
  "coroutine_result K st st' \<Longrightarrow> st_id st' = st_id st \<and> st_closed st' = st_closed st"
  unfolding coroutine_result_def by (auto dest: coroutine_frames)

subsection \<open>The invariant\<close>

text \<open>A data provider is the object that carries the identifier of its stream.\<close>

definition provider_ok :: "stream_id list \<Rightarrow> (stream_id \<rightharpoonup> addr) \<Rightarrow> bool" where
  "provider_ok xs p \<longleftrightarrow> (\<forall>sid a. p sid = Some a \<longrightarrow> sid \<noteq> 0 \<and> a < length xs \<and> xs ! a = sid)"

lemma provider_okD: "provider_ok xs p \<Longrightarrow> p sid = Some a \<Longrightarrow> sid \<noteq> 0 \<and> a < length xs \<and> xs ! a = sid"
  by (simp add: provider_ok_def)

lemma provider_ok_append:
  assumes "provider_ok xs p"
  shows "provider_ok (xs @ ys) p"
  unfolding provider_ok_def
proof (intro allI impI)
  fix sid a
  assume "p sid = Some a"
  from provider_okD [OF assms this] show "sid \<noteq> 0 \<and> a < length (xs @ ys) \<and> (xs @ ys) ! a = sid"
    by (simp add: nth_append)
qed

lemma provider_ok_upd:
  "provider_ok xs p \<Longrightarrow> a < length xs \<Longrightarrow> xs ! a = sid \<Longrightarrow> sid \<noteq> 0 \<Longrightarrow> provider_ok xs (p(sid \<mapsto> a))"
  unfolding provider_ok_def by (metis fun_upd_apply option.inject)

definition lifetime_inv :: "('ng, 'e, 'b, 'c) lifetime \<Rightarrow> bool" where
  "lifetime_inv x \<longleftrightarrow>
     (let s = lf_session x in
      session_inv s \<and> lf_open x \<subseteq> lf_used x \<and> 0 \<notin> lf_used x \<and>
      (\<not> lf_over x \<longrightarrow> (\<forall>sid. sid \<in> lf_open x \<longleftrightarrow> find_stream s sid \<noteq> None)) \<and>
      set (ids s) \<subseteq> insert 0 (lf_used x) \<and> distinct (filter (\<lambda>i. i \<noteq> 0) (ids s)) \<and>
      provider_ok (ids s) (lf_provider x) \<and>
      (\<forall>a \<in> set (ss_spawned s). ids s ! a \<noteq> 0) \<and>
      ss_request_counter s = word_of_nat (lf_begun x))"

text \<open>Steps that leave the identifiers, the table, the handlers and the counter alone.\<close>

lemma lifetime_inv_frame:
  assumes "lifetime_inv x" "session_inv s" "ids s = ids (lf_session x)"
    "find_stream s = find_stream (lf_session x)" "ss_spawned s = ss_spawned (lf_session x)"
    "ss_request_counter s = ss_request_counter (lf_session x)"
  shows "lifetime_inv (x\<lparr>lf_session := s\<rparr>)"
  using assms by (simp add: lifetime_inv_def Let_def)

lemma distinct_nonzero_nth:
  assumes "distinct (filter (\<lambda>i. i \<noteq> 0) xs)" "a < length xs" "b < length xs" "xs ! a = xs ! b" "xs ! a \<noteq> (0 :: int)"
  shows "a = b"
  using assms
proof (induction xs arbitrary: a b)
  case (Cons x xs)
  show ?case
  proof (cases a; cases b)
    fix j assume "a = 0" "b = Suc j"
    with Cons.prems have "x \<noteq> 0" "x \<in> set xs" by auto
    with Cons.prems(1) show ?thesis by simp
  next
    fix i assume "a = Suc i" "b = 0"
    with Cons.prems have "x \<noteq> 0" "x \<in> set xs" by (auto dest: sym)
    with Cons.prems(1) show ?thesis by simp
  next
    fix i j assume "a = Suc i" "b = Suc j"
    with Cons show ?thesis by (auto split: if_splits)
  qed simp
qed simp

lemma lf_callback_fields:
  "lf_session (lf_callback cb x) = lf_session x" "lf_provider (lf_callback cb x) = lf_provider x"
  "lf_over (lf_callback cb x) = lf_over x" "lf_used (lf_callback cb x) = set (begun_id cb) \<union> lf_used x"
  "lf_begun (lf_callback cb x) = lf_begun x + length (begun_id cb)"
  "sid \<in> lf_open (lf_callback cb x) \<longleftrightarrow> sid \<in> set (begun_id cb) \<or> sid \<in> lf_open x \<and> \<not> closes sid cb"
  by (induction cb x rule: lf_callback.induct) (auto simp: closes_def)

lemma lifetime_inv_callback:
  assumes inv: "lifetime_inv x" and ok: "callback_allowed x cb"
  shows "lifetime_inv (lf_callback cb (x\<lparr>lf_session := snd (run_callback K N cb ((lf_session x)\<lparr>ss_native := Some g\<rparr>))\<rparr>))"
proof -
  let ?s = "(lf_session x)\<lparr>ss_native := Some g\<rparr>" and ?t = "snd (run_callback K N cb ((lf_session x)\<lparr>ss_native := Some g\<rparr>))"
  have over: "\<not> lf_over x" using ok by (simp add: callback_allowed_def)
  have fresh: "set (begun_id cb) \<inter> insert 0 (lf_used x) = {}" "distinct (begun_id cb)"
    using ok by (auto simp: callback_allowed_def split: callback.splits)
  have I: "session_inv ?s" "lf_open x \<subseteq> lf_used x" "0 \<notin> lf_used x"
    "\<And>sid. sid \<in> lf_open x \<longleftrightarrow> find_stream ?s sid \<noteq> None"
    "set (ids ?s) \<subseteq> insert 0 (lf_used x)" "distinct (filter (\<lambda>i. i \<noteq> 0) (ids ?s))"
    "provider_ok (ids ?s) (lf_provider x)"
    "\<And>a. a \<in> set (ss_spawned ?s) \<Longrightarrow> ids ?s ! a \<noteq> 0" "ss_request_counter ?s = word_of_nat (lf_begun x)"
    using inv over by (simp_all add: lifetime_inv_def Let_def)
  have table: "find_stream ?t sid \<noteq> None \<longleftrightarrow>
      sid \<in> set (begun_id cb) \<or> find_stream ?s sid \<noteq> None \<and> \<not> closes sid cb" for sid
  proof (rule run_callback_table)
    fix f assume "cb = Cb_begin_headers f" "is_request_headers f"
    with fresh(1) I(2) have "fr_stream_id f \<notin> lf_open x" by auto
    with I(4) show "find_stream ?s (fr_stream_id f) = None" by simp
  qed
  have spawned: "ids ?t ! a \<noteq> 0" if a: "a \<in> set (ss_spawned ?t)" for a
  proof -
    consider "a \<in> set (ss_spawned ?s)" | sid where "find_stream ?s sid = Some a"
      using run_callback_spawned [of K N cb ?s] a by blast
    then have "a < length (ids ?s) \<and> ids ?s ! a \<noteq> 0"
    proof cases
      case 1
      with I(1,8) show ?thesis by (auto simp: session_inv_def length_ids)
    next
      case (2 sid)
      then have "sid \<noteq> 0" using I(2-4) by (metis option.discI subsetD)
      with session_invD [OF I(1) 2] show ?thesis by (simp add: ids_nth length_ids)
    qed
    then show ?thesis by (simp add: run_callback_ids nth_append)
  qed
  let ?x = "lf_callback cb (x\<lparr>lf_session := ?t\<rparr>)"
  have "lf_open ?x \<subseteq> lf_used ?x" using I(2) by (auto simp: lf_callback_fields)
  moreover have "0 \<notin> lf_used ?x" using I(3) fresh(1) by (auto simp: lf_callback_fields)
  moreover have "\<forall>sid. sid \<in> lf_open ?x \<longleftrightarrow> find_stream ?t sid \<noteq> None"
    unfolding table using I(4) by (simp add: lf_callback_fields)
  moreover have "set (ids ?t) \<subseteq> insert 0 (lf_used ?x)"
    using I(5) by (auto simp: lf_callback_fields run_callback_ids)
  moreover have "distinct (filter (\<lambda>i. i \<noteq> 0) (ids ?t))"
    using I(5,6) fresh by (auto simp: run_callback_ids)
  moreover have "provider_ok (ids ?t) (lf_provider ?x)"
    using provider_ok_append [OF I(7)] by (simp add: lf_callback_fields run_callback_ids)
  moreover have "ss_request_counter ?t = word_of_nat (lf_begun ?x)"
    using I(9) by (simp add: lf_callback_fields run_callback_counter)
  ultimately show ?thesis
    using spawned run_callback_inv [OF I(1), of K N cb]
    by (simp add: lifetime_inv_def Let_def lf_callback_fields(1,3))
qed

lemma lifetime_inv_request:
  assumes inv: "lifetime_inv x"
    and req: "submit_request K N path cl hs (lf_session x) = Some ((None, Some a), s)"
    and sid: "sid = st_id (ss_objects s ! a)" "sid \<notin> lf_used x" "sid \<noteq> 0"
  shows "lifetime_inv (x\<lparr>lf_session := s, lf_used := insert sid (lf_used x), lf_open := insert sid (lf_open x),
    lf_provider := (lf_provider x)(sid \<mapsto> a)\<rparr>)"
proof -
  let ?s = "lf_session x"
  from req obtain g j where j: "ss_objects s = ss_objects ?s @
        [set_id (log_prefix (ss_role ?s)) j (new_stream K 0 (log_prefix (ss_role ?s) 0))]"
      "a = length (ss_objects ?s)" "ss_streams s = emplace j a (ss_streams ?s)"
      "ss_spawned s = ss_spawned ?s" "ss_request_counter s = ss_request_counter ?s"
    by (auto simp: submit_request_def Let_def update_object_def start_write_def
        split: if_splits option.splits prod.splits)
  with sid(1) have "j = sid" by (simp add: set_id_def)
  with j have ids: "ids s = ids ?s @ [sid]" and a: "a = length (ids ?s)"
    by (simp_all add: ids_def set_id_def)
  have I: "session_inv ?s" "lf_open x \<subseteq> lf_used x" "0 \<notin> lf_used x"
    "set (ids ?s) \<subseteq> insert 0 (lf_used x)" "distinct (filter (\<lambda>i. i \<noteq> 0) (ids ?s))"
    "provider_ok (ids ?s) (lf_provider x)"
    using inv by (simp_all add: lifetime_inv_def Let_def)
  have "provider_ok (ids s) ((lf_provider x)(sid \<mapsto> a))"
    using provider_ok_append [OF I(6)] sid(3) ids a by (intro provider_ok_upd) simp_all
  moreover have "find_stream s i \<noteq> None \<longleftrightarrow> i = sid \<or> find_stream ?s i \<noteq> None" for i
    using j(3) \<open>j = sid\<close> by (auto simp: find_stream_def table.lookup_insert)
  moreover have "\<forall>b \<in> set (ss_spawned ?s). b < length (ids ?s)"
    using I(1) by (auto simp: session_inv_def length_ids)
  ultimately show ?thesis
    using inv I sid(2,3) ids a j(4,5) submit_request_inv [OF I(1) req]
    by (auto simp: lifetime_inv_def Let_def nth_append split: if_splits)
qed

lemma lifetime_inv_request_failed:
  assumes inv: "lifetime_inv x"
    and req: "submit_request K N path cl hs (lf_session x) = Some ((Some e, b), s)"
  shows "lifetime_inv (x\<lparr>lf_session := s\<rparr>)"
proof -
  let ?s = "lf_session x"
  from req have "s = ?s \<or> (\<exists>g. s = ?s\<lparr>ss_objects := ss_objects ?s @ [new_stream K 0 (log_prefix (ss_role ?s) 0)],
      ss_native := Some g\<rparr>)"
    by (auto simp: submit_request_def Let_def split: if_splits option.splits prod.splits)
  then show ?thesis
  proof
    assume "\<exists>g. s = ?s\<lparr>ss_objects := ss_objects ?s @ [new_stream K 0 (log_prefix (ss_role ?s) 0)], ss_native := Some g\<rparr>"
    then have s: "ids s = ids ?s @ [0]" "find_stream s = find_stream ?s" "ss_spawned s = ss_spawned ?s"
      "ss_request_counter s = ss_request_counter ?s"
      by (auto simp: ids_def new_stream_def find_stream_def fun_eq_iff)
    have "session_inv ?s" using inv by (simp add: lifetime_inv_def Let_def)
    then have "\<forall>b \<in> set (ss_spawned ?s). b < length (ids ?s)" by (auto simp: session_inv_def length_ids)
    moreover have "provider_ok (ids s) (lf_provider x)"
      using inv s(1) by (simp add: lifetime_inv_def provider_ok_append Let_def)
    ultimately show ?thesis using inv s submit_request_inv [OF \<open>session_inv ?s\<close> req]
      by (auto simp: lifetime_inv_def Let_def nth_append)
  qed (use inv in simp)
qed

lemma lifetime_inv_response:
  assumes inv: "lifetime_inv x" and a: "a \<in> set (ss_spawned (lf_session x))"
    and res: "submit_response K N a status hs (lf_session x) = Some (e, s)"
  shows "lifetime_inv (x\<lparr>lf_session := s,
    lf_provider := (if e = None then (lf_provider x)(st_id (ss_objects s ! a) \<mapsto> a) else lf_provider x)\<rparr>)"
proof -
  let ?s = "lf_session x"
  have s: "ids s = ids ?s" "find_stream s = find_stream ?s" "session_inv s = session_inv ?s"
    "ss_spawned s = ss_spawned ?s" "ss_request_counter s = ss_request_counter ?s"
    using submit_response_result [OF res] res
    by (auto simp: ids_def submit_response_def start_write_def Let_def split: option.splits prod.splits if_splits)
  have "a < length (ids s)" using inv a s by (auto simp: lifetime_inv_def session_inv_def length_ids Let_def)
  then have "ids s ! a = st_id (ss_objects s ! a)" by (simp add: ids_nth length_ids)
  with inv a s \<open>a < length (ids s)\<close> show ?thesis
    by (auto simp: lifetime_inv_def Let_def provider_ok_upd)
qed

lemma update_object_others:
  "ss_spawned (update_object a u s) = ss_spawned s"
  "ss_request_counter (update_object a u s) = ss_request_counter s"
  by (simp_all add: update_object_def)

lemma close_all_frame:
  fixes s :: "('ng, 'e, 'b, 'c) session" and K :: "('e, 'b, 'c) capy"
  defines "close_all \<equiv> foldl (\<lambda>s (sid, a). update_object a (on_close K) s)"
  shows "ids (close_all s m) = ids s" "ss_spawned (close_all s m) = ss_spawned s"
    "ss_request_counter (close_all s m) = ss_request_counter s"
  unfolding close_all_def
  by (induction m arbitrary: s) (auto simp: ids_update_object update_object_others)

lemma run_teardown_frame:
  "ids (run_teardown K s) = ids s" "ss_spawned (run_teardown K s) = ss_spawned s"
  "ss_request_counter (run_teardown K s) = ss_request_counter s"
  by (simp_all add: run_teardown_def close_all_frame)

lemma apply_effects_others:
  "ss_spawned (apply_effects K N es s) = ss_spawned s"
  "ss_request_counter (apply_effects K N es s) = ss_request_counter s"
proof -
  have "ss_spawned (apply_effect K N e s) = ss_spawned s \<and>
      ss_request_counter (apply_effect K N e s) = ss_request_counter s" for e s
    by (cases e) (simp_all add: with_native_def start_write_def split: option.split)
  then show "ss_spawned (apply_effects K N es s) = ss_spawned s"
    "ss_request_counter (apply_effects K N es s) = ss_request_counter s"
    by (induction es arbitrary: s) (simp_all add: apply_effects_def)
qed

lemma lifetime_step_inv:
  assumes "lifetime_step K N x y" "lifetime_inv x"
  shows "lifetime_inv y"
  using assms
proof (induction rule: lifetime_step.induct)
  case (lifetime_callback x cb g)
  then show ?case by (intro lifetime_inv_callback)
next
  case (lifetime_native x g e)
  then show ?case
    by (intro lifetime_inv_frame) (auto simp: lifetime_inv_def session_inv_def ids_def find_stream_def fun_eq_iff Let_def)
next
  case (lifetime_request path cl hs x a s sid)
  then show ?case by (intro lifetime_inv_request)
next
  case (lifetime_request_failed path cl hs x e b s)
  then show ?case by (intro lifetime_inv_request_failed)
next
  case (lifetime_response a x status hs e s)
  then show ?case by (intro lifetime_inv_response)
next
  case (lifetime_coroutine a x st effs)
  note f = coroutine_result_frame [OF lifetime_coroutine.hyps(2)]
  have "session_inv (stream_result K N a st effs (lf_session x))"
    using lifetime_coroutine.prems f by (intro stream_result_inv) (auto simp: lifetime_inv_def Let_def)
  moreover have "ids (stream_result K N a st effs (lf_session x)) = ids (lf_session x)"
    using f ids_put [of a "lf_session x" st] by (simp add: stream_result_def ids_def)
  ultimately show ?case
    using lifetime_coroutine.prems by (intro lifetime_inv_frame) (simp_all add: stream_result_def apply_effects_others update_object_others)
next
  case (lifetime_end x)
  then show ?case
    by (simp add: lifetime_inv_def Let_def run_teardown_inv run_teardown_frame)
qed

text \<open>A session starts with no stream, and nghttp2 has used no identifier.\<close>

definition lifetime_starts :: "('e, 'b, 'c) capy \<Rightarrow> ('ng, 'e, 'b, 'c) lifetime \<Rightarrow> bool" where
  "lifetime_starts K x \<longleftrightarrow>
     (\<exists>r handler g. x =
        \<lparr>lf_session = (new_session K r handler)\<lparr>ss_native := g\<rparr>, lf_used = {}, lf_open = {},
         lf_provider = Map.empty, lf_begun = 0, lf_over = False\<rparr>)"

lemma lifetime_starts_inv: "lifetime_starts K x \<Longrightarrow> lifetime_inv x"
  by (auto simp: lifetime_starts_def lifetime_inv_def new_session_def session_inv_def find_stream_def
      ids_def provider_ok_def Let_def)

interpretation lifetime_reach: step_invariant "lifetime_starts K" "lifetime_step K N" lifetime_inv
  for K :: "('e, 'b, 'c) capy" and N :: "'ng nghttp2"
  by unfold_locales (auto intro: lifetime_starts_inv lifetime_step_inv)

subsection \<open>Library calls make these steps\<close>

text \<open>What nghttp2 promises of a sequence of callbacks; each one may open or close streams.\<close>

fun callbacks_allowed :: "('ng, 'e, 'b, 'c) lifetime \<Rightarrow> callback list \<Rightarrow> bool" where
  "callbacks_allowed x [] \<longleftrightarrow> True"
| "callbacks_allowed x (cb # cbs) \<longleftrightarrow> callback_allowed x cb \<and> callbacks_allowed (lf_callback cb x) cbs"

lemma lf_callback_session: "lf_callback cb (x\<lparr>lf_session := s\<rparr>) = (lf_callback cb x)\<lparr>lf_session := s\<rparr>"
  by (cases cb) simp_all

lemma callbacks_allowed_session: "callbacks_allowed (x\<lparr>lf_session := s\<rparr>) cbs = callbacks_allowed x cbs"
proof (induction cbs arbitrary: x)
  case (Cons cb cbs)
  then show ?case by (simp add: lf_callback_session callback_allowed_def cong: callback.case_cong)
qed simp

lemma lf_callbacks_session: "fold lf_callback cbs (x\<lparr>lf_session := s\<rparr>) = (fold lf_callback cbs x)\<lparr>lf_session := s\<rparr>"
  by (induction cbs arbitrary: x) (simp_all add: lf_callback_session)

interpretation call_lifetime: callback_relation K N
  "\<lambda>s cbs t. \<forall>x. lf_session x = s \<longrightarrow> callbacks_allowed x cbs \<longrightarrow>
     (lifetime_step K N)\<^sup>*\<^sup>* x ((fold lf_callback cbs x)\<lparr>lf_session := t\<rparr>)"
  for K :: "('e, 'b, 'c) capy" and N :: "'ng nghttp2"
proof (unfold_locales, goal_cases)
  case (1 s g)
  show ?case
  proof (intro allI impI)
    fix x :: "('ng, 'e, 'b, 'c) lifetime"
    assume "lf_session x = s"
    then show "(lifetime_step K N)\<^sup>*\<^sup>* x ((fold lf_callback [] x)\<lparr>lf_session := s\<lparr>ss_native := Some g\<rparr>\<rparr>)"
      using lifetime_native [where x = x and K = K and N = N and g = "Some g" and e = "ss_write_ready s"]
      by (intro r_into_rtranclp) simp
  qed
next
  case (2 cb g s cbs t)
  show ?case
  proof (intro allI impI)
    fix x :: "('ng, 'e, 'b, 'c) lifetime"
    assume s: "lf_session x = s" and ok: "callbacks_allowed x (cb # cbs)"
    let ?u = "snd (run_callback K N cb (s\<lparr>ss_native := Some g\<rparr>))"
    let ?y = "lf_callback cb (x\<lparr>lf_session := ?u\<rparr>)"
    have "lifetime_step K N x ?y"
      using lifetime_callback [of x cb K N g] ok s by simp
    moreover have "(lifetime_step K N)\<^sup>*\<^sup>* ?y ((fold lf_callback cbs ?y)\<lparr>lf_session := t\<rparr>)"
      using 2 ok by (simp add: lf_callback_session callbacks_allowed_session)
    ultimately show "(lifetime_step K N)\<^sup>*\<^sup>* x ((fold lf_callback (cb # cbs) x)\<lparr>lf_session := t\<rparr>)"
      by (simp add: lf_callback_session lf_callbacks_session converse_rtranclp_into_rtranclp)
  qed
qed

text \<open>
  A library call of the loops whose callbacks keep to what nghttp2 promises is a sequence of steps of
  this system, so the properties below hold after every \<open>nghttp2_session_mem_recv2\<close> and
  \<open>nghttp2_session_mem_send2\<close>.
\<close>

lemma library_call_reachable:
  assumes "reachable (lifetime_starts K) (lifetime_step K N) x"
    and "callbacks_allowed x (callbacks_of K N call (lf_session x))"
  shows "reachable (lifetime_starts K) (lifetime_step K N)
    ((fold lf_callback (callbacks_of K N call (lf_session x)) x)\<lparr>lf_session := snd (run_ng_call K N call (lf_session x))\<rparr>)"
  using call_lifetime.rel_call [of "lf_session x" K N "call"] assms(2) by (blast intro: reachable_star assms(1))

text \<open>A client that has submitted a request, and a server to which two requests have come.\<close>

type_synonym demo_life = "(unit, bool, byte list \<times> nat, nat \<times> byte list) lifetime"

definition life_start :: "role \<Rightarrow> demo_life" where
  "life_start r =
     \<lparr>lf_session = (new_session flat_capy r True)\<lparr>ss_native := Some ()\<rparr>, lf_used = {}, lf_open = {},
      lf_provider = Map.empty, lf_begun = 0, lf_over = False\<rparr>"

definition life_request :: "stream_id \<Rightarrow> demo_life \<Rightarrow> demo_life" where
  "life_request sid x =
     (let cb = Cb_begin_headers (request_frame sid False)
      in lf_callback cb (x\<lparr>lf_session := snd (run_callback flat_capy demo_N cb ((lf_session x)\<lparr>ss_native := Some ()\<rparr>))\<rparr>))"

abbreviation life_reach :: "demo_life \<Rightarrow> bool" where
  "life_reach \<equiv> reachable (lifetime_starts flat_capy) (lifetime_step flat_capy demo_N)"

lemma life_start_reach: "life_reach (life_start r)"
  by (rule reachable_init) (auto simp: lifetime_starts_def life_start_def)

lemma life_request_reach:
  assumes "life_reach x" "\<not> lf_over x" "sid \<notin> lf_used x" "sid \<noteq> 0"
  shows "life_reach (life_request sid x)"
  unfolding life_request_def Let_def
  by (rule reachable_step [OF assms(1)], rule lifetime_callback)
    (use assms(2-4) in \<open>simp add: callback_allowed_def request_frame_def\<close>)

definition life_server :: demo_life where
  "life_server = life_request 3 (life_request 1 (life_start Role_server))"

lemma life_server_facts: "life_reach life_server" "\<not> lf_over life_server" "lf_open life_server = {1, 3}"
  "lf_begun life_server = 2"
proof -
  show "life_reach life_server"
    unfolding life_server_def
    by (intro life_request_reach life_start_reach)
      (simp_all add: life_request_def life_start_def lf_callback_fields request_frame_def is_request_headers_def)
qed (auto simp: life_server_def life_request_def life_start_def request_frame_def is_request_headers_def)

definition life_client :: demo_life where
  "life_client =
     (let s = snd (the (submit_request flat_capy demo_N ''/'' None [] (lf_session (life_start Role_client))))
      in (life_start Role_client)\<lparr>lf_session := s, lf_used := {1}, lf_open := {1}, lf_provider := [1 \<mapsto> 0]\<rparr>)"

lemma life_client_reach: "life_reach life_client"
proof -
  let ?x = "life_start Role_client"
  obtain s where s: "submit_request flat_capy demo_N ''/'' None [] (lf_session ?x) = Some ((None, Some 0), s)"
      "st_id (ss_objects s ! 0) = 1"
    by (simp add: life_start_def submit_request_def new_session_def demo_ng_def update_object_def set_id_def Let_def)
  from lifetime_request [OF s(1) refl] s(2)
  have "lifetime_step flat_capy demo_N ?x life_client"
    by (simp add: life_client_def s(1)) (simp add: life_start_def)
  then show ?thesis using life_start_reach by (rule reachable_step [rotated])
qed

section \<open>No dangling pointers\<close>

text \<open>
  C11. A data provider never dangles: as long as \<open>run\<close> has not returned, the pointer nghttp2 keeps for
  an open stream points to the very object the session's table holds for that stream, so the object
  is alive; it carries the identifier of the stream and has not been closed.
\<close>

theorem provider_never_dangles:
  assumes "reachable (lifetime_starts K) (lifetime_step K N) x" "\<not> lf_over x"
    and "sid \<in> lf_open x" "lf_provider x sid = Some a"
  shows "find_stream (lf_session x) sid = Some a \<and> a < length (ss_objects (lf_session x)) \<and>
    st_id (ss_objects (lf_session x) ! a) = sid \<and> \<not> st_closed (ss_objects (lf_session x) ! a)"
proof -
  let ?s = "lf_session x"
  have inv: "session_inv ?s" "distinct (filter (\<lambda>i. i \<noteq> 0) (ids ?s))" "provider_ok (ids ?s) (lf_provider x)"
    "sid \<in> lf_open x \<longleftrightarrow> find_stream ?s sid \<noteq> None"
    using lifetime_reach.inv_reachable [OF assms(1)] assms(2) by (simp_all add: lifetime_inv_def Let_def)
  then obtain b where b: "find_stream ?s sid = Some b" using assms(3) by auto
  note s = session_invD [OF inv(1) b] and p = provider_okD [OF inv(3) assms(4)]
  have "a = b"
    using p s by (intro distinct_nonzero_nth [OF inv(2)]) (simp_all add: length_ids ids_nth)
  with b s show ?thesis by simp
qed

theorem provider_never_dangles_witness:
  "find_stream (lf_session life_client) 1 = Some 0 \<and> \<not> st_closed (ss_objects (lf_session life_client) ! 0)"
  using provider_never_dangles [OF life_client_reach, of 1 0]
  by (simp add: life_client_def life_start_def)

text \<open>
  The table of a session is exactly the set of open streams: while \<open>run\<close> has not returned, a
  stream has an entry if and only if nghttp2 has opened it, by the headers of a request or by a
  submitted request, and has not reported its end.
\<close>

theorem table_is_the_open_streams:
  assumes "reachable (lifetime_starts K) (lifetime_step K N) x" "\<not> lf_over x"
  shows "dom (find_stream (lf_session x)) = lf_open x"
  using lifetime_reach.inv_reachable [OF assms(1)] assms(2) by (auto simp: lifetime_inv_def dom_def Let_def)

theorem table_is_the_open_streams_witness: "dom (find_stream (lf_session life_server)) = {1, 3}"
  using table_is_the_open_streams [OF life_server_facts(1,2)] by (simp add: life_server_facts)

text \<open>
  The request counter of a session is the number of requests that began to arrive, modulo $2^{64}$.
\<close>

theorem request_counter_counts:
  assumes "reachable (lifetime_starts K) (lifetime_step K N) x"
  shows "unat (ss_request_counter (lf_session x)) = lf_begun x mod 2 ^ 64"
  using lifetime_reach.inv_reachable [OF assms] by (simp add: lifetime_inv_def Let_def unat_of_nat)

theorem request_counter_counts_witness: "unat (ss_request_counter (lf_session life_server)) = 2"
  using request_counter_counts [OF life_server_facts(1)] by (simp add: life_server_facts)

end
