(* ===== verification/Task_Group.thy ===== *)
theory Task_Group
  imports Prelude
begin

text \<open>
  The service of \<open>src/task_group.hpp\<close> that counts the coroutines spawned into it, and the
  destructor of \<open>Server::Impl\<close> (\<open>src/server.cpp\<close>), which asks all of them to stop and drives the
  event loop until the count is zero.
\<close>

section \<open>The group\<close>

record task_group =
  tg_stop_requested :: bool
  tg_count :: size_t

definition new_group :: task_group where
  "new_group = \<lparr>tg_stop_requested = False, tg_count = 0\<rparr>"

text \<open>
  \<open>spawn\<close> counts the task before it starts it; \<open>task_completed\<close> is the handler that
  \<open>run_async\<close> calls when the task returns or ends with an exception.
\<close>

definition spawn :: "task_group \<Rightarrow> task_group" where
  "spawn tg = tg\<lparr>tg_count := tg_count tg + 1\<rparr>"

definition task_completed :: "task_group \<Rightarrow> task_group" where
  "task_completed tg = tg\<lparr>tg_count := tg_count tg - 1\<rparr>"

definition request_stop :: "task_group \<Rightarrow> task_group" where
  "request_stop tg = tg\<lparr>tg_stop_requested := True\<rparr>"

definition shutdown :: "task_group \<Rightarrow> task_group" where
  "shutdown tg = request_stop tg"

section \<open>The group with its tasks\<close>

text \<open>A running task may spawn others into the group, as a session does with its handlers.\<close>

record group_sys =
  gs_group :: task_group
  gs_running :: "nat set"

inductive group_step :: "group_sys \<Rightarrow> group_sys \<Rightarrow> bool" where
  group_spawn:
    "t \<notin> gs_running s \<Longrightarrow>
     group_step s (s\<lparr>gs_group := spawn (gs_group s), gs_running := insert t (gs_running s)\<rparr>)"
| group_completed:
    "t \<in> gs_running s \<Longrightarrow>
     group_step s (s\<lparr>gs_group := task_completed (gs_group s), gs_running := gs_running s - {t}\<rparr>)"
| group_stop:
    "group_step s (s\<lparr>gs_group := request_stop (gs_group s)\<rparr>)"

definition group_starts :: "group_sys \<Rightarrow> bool" where
  "group_starts s \<longleftrightarrow> s = \<lparr>gs_group = new_group, gs_running = {}\<rparr>"

definition group_inv :: "group_sys \<Rightarrow> bool" where
  "group_inv s \<longleftrightarrow>
     finite (gs_running s) \<and> tg_count (gs_group s) = word_of_nat (card (gs_running s))"

lemma group_step_inv: "group_step s t \<Longrightarrow> group_inv s \<Longrightarrow> group_inv t"
proof (induction rule: group_step.induct)
  case (group_completed t s)
  then have "finite (gs_running s)" by (simp add: group_inv_def)
  from card.remove [OF this group_completed.hyps] group_completed show ?case
    unfolding group_inv_def task_completed_def by simp
qed (simp_all add: group_inv_def spawn_def request_stop_def)

interpretation group: step_invariant group_starts group_step group_inv
proof unfold_locales
  show "group_starts s \<Longrightarrow> group_inv s" for s
    by (simp add: group_starts_def group_inv_def new_group_def)
qed (rule group_step_inv)

section \<open>Draining\<close>

text \<open>
  The event loop of the corosio library, with everything it can run as its state \<open>'w\<close>: \<open>sc_stop\<close>
  makes it run nothing more until \<open>sc_restart\<close>, \<open>sc_poll\<close>
  runs the handlers that are ready and returns how many it ran, \<open>sc_run_one\<close> waits for one and
  runs it, \<open>sc_group\<close> finds the task group service in the state.
\<close>

record 'w scheduler =
  sc_stop :: "'w \<Rightarrow> 'w"
  sc_restart :: "'w \<Rightarrow> 'w"
  sc_poll :: "'w \<Rightarrow> nat \<times> 'w"
  sc_run_one :: "'w \<Rightarrow> nat \<times> 'w"
  sc_group :: "'w \<Rightarrow> task_group"
  sc_set_group :: "task_group \<Rightarrow> 'w \<Rightarrow> 'w"

text \<open>One round of the loop of \<open>Server::Impl::~Impl\<close>.\<close>

definition drain_round :: "'w scheduler \<Rightarrow> 'w \<Rightarrow> 'w" where
  "drain_round S w =
     (case sc_poll S (sc_restart S w) of (n, w1) \<Rightarrow> if n = 0 then snd (sc_run_one S w1) else w1)"

partial_function (option) drain_loop :: "'w scheduler \<Rightarrow> 'w \<Rightarrow> 'w option" where
  "drain_loop S w =
     (if tg_count (sc_group S w) > 0 then drain_loop S (drain_round S w) else Some w)"

definition server_destroy :: "'w scheduler \<Rightarrow> 'w \<Rightarrow> 'w option" where
  "server_destroy S w = drain_loop S (sc_set_group S (request_stop (sc_group S w)) w)"

text \<open>\<open>Server::stop\<close>; the destructor restarts the event loop in every round.\<close>

definition Server_stop :: "'w scheduler \<Rightarrow> 'w \<Rightarrow> 'w" where
  "Server_stop S w = sc_stop S w"

section \<open>Properties\<close>

text \<open>
  The count is exact: in every reachable state of a group with fewer than 2 to the 64 running
  tasks it is the number of spawned coroutines that have not completed yet, so it is zero exactly
  when none is left, whatever the order in which tasks are spawned, spawn further tasks, complete
  and are asked to stop.
\<close>

theorem group_count_exact:
  assumes "reachable group_starts group_step s" "card (gs_running s) < 2 ^ 64"
  shows "unat (tg_count (gs_group s)) = card (gs_running s) \<and>
    (tg_count (gs_group s) = 0 \<longleftrightarrow> gs_running s = {})"
proof -
  have inv: "finite (gs_running s)" "tg_count (gs_group s) = word_of_nat (card (gs_running s))"
    using group.inv_reachable [OF assms(1)] by (simp_all add: group_inv_def)
  have "unat (tg_count (gs_group s)) = card (gs_running s)"
    using assms(2) by (simp add: inv(2) unat_of_nat take_bit_nat_eq_self)
  then show ?thesis
    using inv(1) by (metis card_eq_0_iff unat_eq_0)
qed

definition demo_group :: group_sys where
  "demo_group = \<lparr>gs_group = \<lparr>tg_stop_requested = False, tg_count = 2\<rparr>, gs_running = {7, 9}\<rparr>"

lemma demo_group_reach: "reachable group_starts group_step demo_group"
proof -
  let ?a = "\<lparr>gs_group = new_group, gs_running = {}\<rparr>"
  let ?b = "\<lparr>gs_group = spawn new_group, gs_running = {7}\<rparr>"
  have "reachable group_starts group_step ?a" by (rule reachable_init) (simp add: group_starts_def)
  moreover have "group_step ?a ?b" using group_spawn [of 7 ?a] by simp
  moreover have "group_step ?b demo_group"
    using group_spawn [of 9 ?b] by (simp add: demo_group_def spawn_def new_group_def insert_commute)
  ultimately show ?thesis by (blast intro: reachable_step)
qed

theorem group_count_exact_witness: "unat (tg_count (gs_group demo_group)) = 2"
  using group_count_exact [OF demo_group_reach] by (simp add: demo_group_def)

lemma drain_loop_count:
  assumes "drain_loop S w = Some w'"
  shows "tg_count (sc_group S w') = 0"
  by (rule drain_loop.raw_induct [OF _ assms]) (auto simp: word_gt_0 split: if_splits)

text \<open>
  The destructor of the server terminates and leaves nothing behind: if every round of the
  event loop brings the cancelled coroutines closer to their end, the drain loop returns, the stop
  was requested before the first round, and no counted coroutine is left when the members of the
  server begin to be destroyed.
\<close>

theorem server_destroy_drains:
  fixes work :: "'w \<Rightarrow> nat"
  assumes "\<And>w. tg_count (sc_group S w) > 0 \<Longrightarrow> tg_stop_requested (sc_group S w) \<Longrightarrow>
      work (drain_round S w) < work w \<and> tg_stop_requested (sc_group S (drain_round S w))"
    and "\<And>g w. sc_group S (sc_set_group S g w) = g"
  shows "\<exists>w'. server_destroy S w = Some w' \<and> tg_count (sc_group S w') = 0"
proof -
  have "\<exists>w'. drain_loop S w = Some w'" if "tg_stop_requested (sc_group S w)" for w
    using that
  proof (induction "work w" arbitrary: w rule: less_induct)
    case less
    show ?case
    proof (cases "tg_count (sc_group S w) > 0")
      case True
      note round = assms(1) [OF this less.prems]
      from less.hyps [OF conjunct1 [OF round] conjunct2 [OF round]]
      obtain w' where "drain_loop S (drain_round S w) = Some w'" ..
      with True show ?thesis by (subst drain_loop.simps) auto
    qed (subst drain_loop.simps, simp)
  qed
  moreover have "tg_stop_requested (sc_group S (sc_set_group S (request_stop (sc_group S w)) w))"
    by (simp add: assms(2) request_stop_def)
  ultimately obtain w' where "server_destroy S w = Some w'"
    unfolding server_destroy_def by blast
  moreover from this have "tg_count (sc_group S w') = 0"
    unfolding server_destroy_def by (rule drain_loop_count)
  ultimately show ?thesis by blast
qed

text \<open>A scheduler whose state is the group alone, and that ends one task with every handler it runs.\<close>

definition demo_scheduler :: "task_group scheduler" where
  "demo_scheduler =
     \<lparr>sc_stop = (\<lambda>w. w), sc_restart = (\<lambda>w. w), sc_poll = (\<lambda>w. (0, w)), sc_run_one = (\<lambda>w. (1, task_completed w)),
      sc_group = (\<lambda>w. w), sc_set_group = (\<lambda>g w. g)\<rparr>"

lemma unat_minus_one_less: "0 < n \<Longrightarrow> unat (n - 1 :: size_t) < unat n"
  by (simp add: measure_unat word_gt_0)

theorem server_destroy_drains_witness:
  "\<exists>w'. server_destroy demo_scheduler \<lparr>tg_stop_requested = False, tg_count = 3\<rparr> = Some w' \<and> tg_count w' = 0"
  using server_destroy_drains [of demo_scheduler "\<lambda>w. unat (tg_count w)"
      "\<lparr>tg_stop_requested = False, tg_count = 3\<rparr>"]
  by (simp add: demo_scheduler_def drain_round_def task_completed_def unat_minus_one_less)

end
