(* ===== verification/Logging.thy ===== *)
theory Logging
  imports Prelude
begin

text \<open>
  Log levels and their names (\<open>include/nghttp2-corosio/logging.hpp\<close>), the formatters for
  endpoints and header fields (\<open>include/nghttp2-corosio/formatter.hpp\<close>), and the stepping event
  loop that depends on the log level (\<open>include/nghttp2-corosio/run_io_context.hpp\<close>). Printing
  itself and the clock are outside the model.
\<close>

section \<open>Log levels\<close>

datatype LogLevel = Debug | Info | Warn | Error | Off

text \<open>The order of the enumeration.\<close>

fun severity :: "LogLevel \<Rightarrow> nat" where
  "severity Debug = 0"
| "severity Info = 1"
| "severity Warn = 2"
| "severity Error = 3"
| "severity Off = 4"

lemma severity_inject [simp]: "severity x = severity y \<longleftrightarrow> x = y"
  by (cases x; cases y) simp_all

instantiation LogLevel :: linorder
begin

definition less_eq_LogLevel :: "LogLevel \<Rightarrow> LogLevel \<Rightarrow> bool" where
  "x \<le> y \<longleftrightarrow> severity x \<le> severity y"

definition less_LogLevel :: "LogLevel \<Rightarrow> LogLevel \<Rightarrow> bool" where
  "x < y \<longleftrightarrow> severity x < severity y"

instance
  by standard (auto simp: less_eq_LogLevel_def less_LogLevel_def)

end

definition default_log_level :: LogLevel where
  "default_log_level = Info"

text \<open>\<open>std::invalid_argument\<close> with its message is the left value.\<close>

definition parse_log_level :: "string \<Rightarrow> string + LogLevel" where
  "parse_log_level name =
     (if name = ''debug'' then Inr Debug
      else if name = ''info'' then Inr Info
      else if name = ''warn'' then Inr Warn
      else if name = ''error'' then Inr Error
      else if name = ''off'' then Inr Off
      else Inl (''unknown log level '' @ [CHR 0x27] @ name @ [CHR 0x27]
        @ '' (want debug/info/warn/error/off)''))"

fun log_level_name :: "LogLevel \<Rightarrow> string" where
  "log_level_name Debug = ''debug''"
| "log_level_name Info = ''info''"
| "log_level_name Warn = ''warn''"
| "log_level_name Error = ''error''"
| "log_level_name Off = ''off''"

definition ansi :: "string \<Rightarrow> string \<Rightarrow> string" where
  "ansi code s = CHR 0x1B # ''['' @ code @ ''m'' @ s @ CHR 0x1B # ''[0m''"

fun log_level_color_name :: "LogLevel \<Rightarrow> string" where
  "log_level_color_name Debug = ansi ''2'' ''debug''"
| "log_level_color_name Info = ''info''"
| "log_level_color_name Warn = ansi ''33'' ''warn''"
| "log_level_color_name Error = ansi ''1;31'' ''error''"
| "log_level_color_name Off = ''off''"

text \<open>The condition of \<open>NGHTTP2_COROSIO_LOG\<close>, and the line it prints.\<close>

definition logs :: "LogLevel \<Rightarrow> LogLevel \<Rightarrow> bool" where
  "logs threshold level \<longleftrightarrow> threshold \<le> level"

definition log_line :: "string \<Rightarrow> LogLevel \<Rightarrow> LogLevel \<Rightarrow> string \<Rightarrow> string option" where
  "log_line timestamp threshold level message =
     (if logs threshold level
      then Some (''['' @ timestamp @ ''] ['' @ log_level_color_name level @ ''] '' @ message)
      else None)"

text \<open>The macros for the levels, and those that put the log prefix in front of the message.\<close>

definition logd :: "string \<Rightarrow> LogLevel \<Rightarrow> string \<Rightarrow> string option" where
  "logd timestamp threshold message = log_line timestamp threshold Debug message"

definition logi :: "string \<Rightarrow> LogLevel \<Rightarrow> string \<Rightarrow> string option" where
  "logi timestamp threshold message = log_line timestamp threshold Info message"

definition logw :: "string \<Rightarrow> LogLevel \<Rightarrow> string \<Rightarrow> string option" where
  "logw timestamp threshold message = log_line timestamp threshold Warn message"

definition loge :: "string \<Rightarrow> LogLevel \<Rightarrow> string \<Rightarrow> string option" where
  "loge timestamp threshold message = log_line timestamp threshold Error message"

definition prefixed :: "string \<Rightarrow> string \<Rightarrow> string" where
  "prefixed prefix x = ''['' @ prefix @ ''] '' @ x"

definition mlogd :: "string \<Rightarrow> string \<Rightarrow> LogLevel \<Rightarrow> string \<Rightarrow> string option" where
  "mlogd prefix timestamp threshold x = logd timestamp threshold (prefixed prefix x)"

definition mlogi :: "string \<Rightarrow> string \<Rightarrow> LogLevel \<Rightarrow> string \<Rightarrow> string option" where
  "mlogi prefix timestamp threshold x = logi timestamp threshold (prefixed prefix x)"

definition mlogw :: "string \<Rightarrow> string \<Rightarrow> LogLevel \<Rightarrow> string \<Rightarrow> string option" where
  "mlogw prefix timestamp threshold x = logw timestamp threshold (prefixed prefix x)"

definition mloge :: "string \<Rightarrow> string \<Rightarrow> LogLevel \<Rightarrow> string \<Rightarrow> string option" where
  "mloge prefix timestamp threshold x = loge timestamp threshold (prefixed prefix x)"

text \<open>\<open>set_log_level\<close> stores the threshold that every later line is compared with.\<close>

definition set_log_level :: "LogLevel \<Rightarrow> LogLevel \<Rightarrow> LogLevel" where
  "set_log_level level old = level"

definition decode_log_level :: "string \<Rightarrow> LogLevel option" where
  "decode_log_level s = (case parse_log_level s of Inl _ \<Rightarrow> None | Inr l \<Rightarrow> Some l)"

interpretation log_level: codec log_level_name decode_log_level "\<lambda>_. True"
proof unfold_locales
  fix x
  show "decode_log_level (log_level_name x) = Some x"
    by (cases x) (simp_all add: decode_log_level_def parse_log_level_def)
qed

section \<open>Formatters\<close>

datatype part = Part_name_and_value | Part_name | Part_value

text \<open>
  \<open>parse\<close> of the formatter for \<open>nghttp2_nv\<close>: it is given the text from the colon of a replacement
  field on, and returns what is selected and the rest of the text. \<open>None\<close> is the
  \<open>std::format_error\<close>.
\<close>

definition nv_parse :: "string \<Rightarrow> (part \<times> string) option" where
  "nv_parse ctx =
     (case ctx of
        [] \<Rightarrow> Some (Part_name_and_value, ctx)
      | c # rest \<Rightarrow>
          (let (what, it) =
             (if c = CHR ''n'' then (Part_name, rest)
              else if c = CHR ''v'' then (Part_value, rest)
              else (Part_name_and_value, ctx))
           in if it \<noteq> [] \<and> hd it \<noteq> CHR ''}'' then None else Some (what, it)))"

definition nv_format :: "part \<Rightarrow> string \<times> string \<Rightarrow> string" where
  "nv_format what nv =
     (if what = Part_name \<or> what = Part_name_and_value then fst nv else [])
     @ (if what = Part_name_and_value then ''='' else [])
     @ (if what = Part_value \<or> what = Part_name_and_value then snd nv else [])"

text \<open>
  \<open>NGHTTP2_COROSIO_ENABLE_FMT_OSTREAM\<close>: a type is formatted as its \<open>operator<<\<close> prints it. The
  operators for the address types belong to the corosio library, as does the endpoint.
\<close>

definition ostream_format :: "('x \<Rightarrow> string) \<Rightarrow> 'x \<Rightarrow> string" where
  "ostream_format print_to value = print_to value"

record ('v4, 'v6) endpoint =
  ep_is_v6 :: bool
  ep_v4_address :: 'v4
  ep_v6_address :: 'v6
  ep_port :: "16 word"

definition endpoint_format :: "('v4 \<Rightarrow> string) \<Rightarrow> ('v6 \<Rightarrow> string) \<Rightarrow> ('v4, 'v6) endpoint \<Rightarrow> string" where
  "endpoint_format print_v4 print_v6 ep =
     (if ep_is_v6 ep
      then ''['' @ ostream_format print_v6 (ep_v6_address ep) @ '']:'' @ to_string (unat (ep_port ep))
      else ostream_format print_v4 (ep_v4_address ep) @ '':'' @ to_string (unat (ep_port ep)))"

section \<open>The event loop\<close>

text \<open>
  \<open>io_context\<close> is not part of the repository: \<open>run_one\<close> runs at most one handler and returns how
  many it ran, \<open>run\<close> runs handlers until there are none and returns their number.
\<close>

record 'w io_context =
  ioc_run_one :: "'w \<Rightarrow> nat \<times> 'w"
  ioc_run :: "'w \<Rightarrow> (nat \<times> 'w) option"

text \<open>The loop of \<open>run_io_context\<close> at debug level; it may run forever.\<close>

partial_function (option) step_io_context :: "'w io_context \<Rightarrow> nat \<Rightarrow> 'w \<Rightarrow> (nat \<times> 'w) option" where
  "step_io_context C i w =
     (case ioc_run_one C w of
        (n, w1) \<Rightarrow> if n = 0 then Some (i, w1) else step_io_context C (i + 1) w1)"

definition run_io_context :: "'w io_context \<Rightarrow> LogLevel \<Rightarrow> 'w \<Rightarrow> (nat \<times> 'w) option" where
  "run_io_context C level w = (if level > Debug then ioc_run C w else step_io_context C 0 w)"

text \<open>What the documentation of \<open>run\<close> says in terms of \<open>run_one\<close>.\<close>

inductive runs :: "'w io_context \<Rightarrow> 'w \<Rightarrow> nat \<Rightarrow> 'w \<Rightarrow> bool" for C :: "'w io_context" where
  runs_out: "ioc_run_one C w = (0, w1) \<Longrightarrow> runs C w 0 w1"
| runs_one: "ioc_run_one C w = (Suc 0, w1) \<Longrightarrow> runs C w1 n w2 \<Longrightarrow> runs C w (Suc n) w2"

definition run_contract :: "'w io_context \<Rightarrow> bool" where
  "run_contract C \<longleftrightarrow>
     (\<forall>w. fst (ioc_run_one C w) \<le> 1) \<and> (\<forall>w n w'. ioc_run C w = Some (n, w') \<longleftrightarrow> runs C w n w')"

lemma step_runs: "runs C w n w' \<Longrightarrow> step_io_context C i w = Some (i + n, w')"
  by (induction arbitrary: i rule: runs.induct) (subst step_io_context.simps, simp)+

lemma runs_step:
  assumes "step_io_context C i w = Some y" and one: "\<forall>w. fst (ioc_run_one C w) \<le> 1"
  shows "\<exists>n. fst y = i + n \<and> runs C w n (snd y)"
  using one
proof (rule step_io_context.raw_induct [OF _ assms(1), THEN mp, rotated])
  fix f :: "'a io_context \<Rightarrow> nat \<Rightarrow> 'a \<Rightarrow> (nat \<times> 'a) option" and C i w y
  assume IH: "\<And>C i w y. f C i w = Some y \<Longrightarrow>
      (\<forall>w. fst (ioc_run_one C w) \<le> 1) \<longrightarrow> (\<exists>n. fst y = i + n \<and> runs C w n (snd y))"
    and body: "(case ioc_run_one C w of (n, w1) \<Rightarrow> if n = 0 then Some (i, w1) else f C (i + 1) w1) = Some y"
  show "(\<forall>w. fst (ioc_run_one C w) \<le> 1) \<longrightarrow> (\<exists>n. fst y = i + n \<and> runs C w n (snd y))"
  proof
    assume one: "\<forall>w. fst (ioc_run_one C w) \<le> 1"
    obtain n w1 where w1: "ioc_run_one C w = (n, w1)" by fastforce
    with one have "n \<le> 1" by (metis fst_conv)
    show "\<exists>n. fst y = i + n \<and> runs C w n (snd y)"
    proof (cases "n = 0")
      case True
      with body w1 show ?thesis by (auto intro: runs_out)
    next
      case False
      with \<open>n \<le> 1\<close> have n: "n = Suc 0" by simp
      with body w1 have "f C (i + 1) w1 = Some y" by simp
      from IH [OF this] one obtain m where "fst y = i + 1 + m" "runs C w1 m (snd y)" by auto
      with w1 n show ?thesis by (intro exI [of _ "Suc m"]) (auto intro: runs_one)
    qed
  qed
qed

section \<open>Properties\<close>

text \<open>
  Raising the threshold only takes lines away, and a line that is printed does not depend on it;
  at the level \<open>off\<close> nothing is printed.
\<close>

lemma log_line_threshold:
  assumes "log_line ts threshold level msg = Some line" "threshold' \<le> threshold"
  shows "log_line ts threshold' level msg = Some line"
  using assms by (auto simp: log_line_def logs_def split: if_splits)

lemma log_line_off: "level \<noteq> Off \<Longrightarrow> log_line ts Off level msg = None"
  by (cases level) (simp_all add: log_line_def logs_def less_eq_LogLevel_def)

text \<open>
  The formats are unambiguous: two endpoints of the same kind with the same text have the same
  port, and their addresses print the same.
\<close>

lemma last_colon:
  assumes "a @ CHR '':'' # to_string n = b @ CHR '':'' # to_string m"
  shows "a = b \<and> n = m"
proof -
  have colon: "CHR '':'' \<notin> set (to_string k)" for k
  proof
    assume "CHR '':'' \<in> set (to_string k)"
    from to_string_digits [OF this] show False by (simp add: is_digit_def)
  qed
  have d: "takeWhile (\<lambda>c. c \<noteq> CHR '':'') (rev (xs @ CHR '':'' # to_string k)) = rev (to_string k)" for xs k
    using colon [of k] by (simp add: takeWhile_append takeWhile_eq_all_conv)
  from d [of a n] d [of b m] assms have "rev (to_string n) = rev (to_string m)" by metis
  then have s: "to_string n = to_string m" by simp
  then have "n = m" by (metis decimal_value_to_string)
  with s assms show ?thesis by simp
qed

lemma endpoint_format_inject:
  assumes "endpoint_format p4 p6 x = endpoint_format p4 p6 y" "ep_is_v6 x = ep_is_v6 y"
  shows "ep_port x = ep_port y \<and>
    (if ep_is_v6 x then p6 (ep_v6_address x) = p6 (ep_v6_address y) else p4 (ep_v4_address x) = p4 (ep_v4_address y))"
proof (cases "ep_is_v6 x")
  case True
  with assms last_colon [of "p6 (ep_v6_address x) @ '']''" "unat (ep_port x)" "p6 (ep_v6_address y) @ '']''" "unat (ep_port y)"]
  show ?thesis by (auto simp: endpoint_format_def ostream_format_def word_unat_eq_iff)
next
  case False
  with assms last_colon [of "p4 (ep_v4_address x)" "unat (ep_port x)" "p4 (ep_v4_address y)" "unat (ep_port y)"]
  show ?thesis by (auto simp: endpoint_format_def ostream_format_def word_unat_eq_iff)
qed

text \<open>
  The names of the log levels are parsed back to the levels they name, and nothing else is
  accepted: every other text is rejected with an error, so a misspelt level on the command line
  cannot silently become another level.
\<close>

theorem parse_log_level_iff:
  "parse_log_level s = Inr level \<longleftrightarrow> s = log_level_name level"
proof
  assume "s = log_level_name level"
  then show "parse_log_level s = Inr level"
    using log_level.decode_encode [of level] by (auto simp: decode_log_level_def split: sum.splits)
next
  assume "parse_log_level s = Inr level"
  then show "s = log_level_name level"
    by (auto simp: parse_log_level_def split: if_splits)
qed

text \<open>
  The stepping event loop used at debug level is equivalent to \<open>io_context::run\<close>: for every
  log level \<open>run_io_context\<close> returns exactly when \<open>run\<close> returns, with the same number of handlers
  and in the same state, so that turning on debug output does not change what the server does.
\<close>

theorem run_io_context_level_independent:
  assumes "run_contract C"
  shows "run_io_context C level w = ioc_run C w"
proof (cases "level > Debug")
  case False
  have one: "\<forall>w. fst (ioc_run_one C w) \<le> 1" and run: "ioc_run C w = Some (n, w') \<longleftrightarrow> runs C w n w'" for n w'
    using assms by (auto simp: run_contract_def)
  have "step_io_context C 0 w = Some (n, w') \<longleftrightarrow> ioc_run C w = Some (n, w')" for n w'
    using step_runs [of C w n w' 0] runs_step [of C 0 w "(n, w')", OF _ one] by (auto simp: run)
  with False show ?thesis
    unfolding run_io_context_def by (metis not_None_eq surj_pair)
qed (simp add: run_io_context_def)

text \<open>A context with a number of handlers that only have to be run.\<close>

definition countdown :: "nat io_context" where
  "countdown = \<lparr>ioc_run_one = (\<lambda>w. if w = 0 then (0, 0) else (1, w - 1)), ioc_run = (\<lambda>w. Some (w, 0))\<rparr>"

lemma countdown_runs: "runs countdown w n w' \<longleftrightarrow> n = w \<and> w' = 0"
proof
  show "runs countdown w n w' \<Longrightarrow> n = w \<and> w' = 0"
    by (induction rule: runs.induct) (auto simp: countdown_def split: if_splits)
  have "runs countdown w w 0"
  proof (induction w)
    case (Suc w)
    show ?case by (rule runs_one [OF _ Suc.IH]) (simp add: countdown_def)
  qed (rule runs_out, simp add: countdown_def)
  then show "n = w \<and> w' = 0 \<Longrightarrow> runs countdown w n w'" by simp
qed

theorem run_io_context_level_independent_witness:
  "run_io_context countdown Debug 3 = Some (3, 0)"
proof -
  have "run_contract countdown"
    unfolding run_contract_def countdown_runs by (auto simp: countdown_def)
  from run_io_context_level_independent [OF this] show ?thesis by (simp add: countdown_def)
qed

end
