(* ===== verification/Server_Client.thy ===== *)
theory Server_Client
  imports Session_Loops Task_Group Logging
begin

text \<open>
  Where sessions come from: the accept loop of \<open>Server::Impl\<close> (\<open>src/server.cpp\<close>) makes one for
  every connection it accepts, \<open>Client::Impl::connect\<close> (\<open>src/client.cpp\<close>) makes one for a
  connection it opens. Both wrap the socket in TLS when they are told to, insist on the ALPN
  protocol h2 then, and spawn the session into the task group. What the sockets and the TLS layer
  answer is an argument of the definitions.
\<close>

section \<open>The server\<close>

text \<open>The fields of \<open>Config\<close>: whether a handler and a TLS context are configured.\<close>

record config =
  cf_listen_address :: string
  cf_port :: "16 word"
  cf_handler :: bool
  cf_tls :: bool

definition default_config :: config where
  "default_config = \<lparr>cf_listen_address = ''::'', cf_port = 8080, cf_handler = False, cf_tls = False\<rparr>"

text \<open>The state of \<open>Server::Impl\<close>: the task group of its context and the sessions it spawned.\<close>

record ('ng, 'e, 'b, 'c) server =
  sv_config :: config
  sv_group :: task_group
  sv_sessions :: "('ng, 'e, 'b, 'c) session list"

text \<open>
  The constructors of \<open>Server::Impl\<close> and of \<open>Server\<close>: the latter starts the accept loop as a task of
  the group of the context, which \<open>use_service\<close> creates.
\<close>

definition new_server_impl :: "config \<Rightarrow> ('ng, 'e, 'b, 'c) server" where
  "new_server_impl cfg = \<lparr>sv_config = cfg, sv_group = new_group, sv_sessions = []\<rparr>"

definition server_start :: "('ng, 'e, 'b, 'c) server \<Rightarrow> ('ng, 'e, 'b, 'c) server" where
  "server_start s = s\<lparr>sv_group := spawn (sv_group s)\<rparr>"

definition new_server :: "config \<Rightarrow> ('ng, 'e, 'b, 'c) server" where
  "new_server cfg = server_start (new_server_impl cfg)"

text \<open>
  One pass through the accept loop: how \<open>accept\<close> ended and whether a stop was requested then; if a
  TLS context is configured, how the handshake ended and which protocol it negotiated.
\<close>

record accept_event =
  ae_ec :: ec
  ae_stop :: bool
  ae_handshake :: ec
  ae_alpn :: string

datatype accept_outcome =
    Accept_loop_ends
  | Accept_failed
  | Handshake_failed
  | Alpn_rejected
  | Session_accepted

definition accept_one :: "config \<Rightarrow> accept_event \<Rightarrow> accept_outcome" where
  "accept_one cfg ev =
     (if ae_ec ev \<noteq> None then (if ae_stop ev then Accept_loop_ends else Accept_failed)
      else if cf_tls cfg
      then (if ae_handshake ev \<noteq> None then Handshake_failed
            else if ae_alpn ev \<noteq> ''h2'' then Alpn_rejected
            else Session_accepted)
      else Session_accepted)"

definition accept_session ::
  "('e, 'b, 'c) capy \<Rightarrow> ('ng, 'e, 'b, 'c) server \<Rightarrow> ('ng, 'e, 'b, 'c) server" where
  "accept_session K s =
     s\<lparr>sv_sessions := sv_sessions s @ [new_session K Role_server (cf_handler (sv_config s))],
       sv_group := spawn (sv_group s)\<rparr>"

text \<open>The loop; the Boolean says whether it has ended or waits for the next connection.\<close>

fun accept_loop ::
  "('e, 'b, 'c) capy \<Rightarrow> accept_event list \<Rightarrow> ('ng, 'e, 'b, 'c) server
    \<Rightarrow> bool \<times> ('ng, 'e, 'b, 'c) server" where
  "accept_loop K [] s = (False, s)"
| "accept_loop K (ev # evs) s =
     (case accept_one (sv_config s) ev of
        Accept_loop_ends \<Rightarrow> (True, s)
      | Session_accepted \<Rightarrow> accept_loop K evs (accept_session K s)
      | _ \<Rightarrow> accept_loop K evs s)"

definition server_run :: "'w io_context \<Rightarrow> LogLevel \<Rightarrow> 'w \<Rightarrow> (nat \<times> 'w) option" where
  "server_run C level w = run_io_context C level w"

section \<open>The main programs\<close>

text \<open>
  \<open>std::atoi\<close>, for values that an \<open>int\<close> can hold: leading white space, a sign and the digits
  that follow; the rest is ignored. The port is its value cut to 16 bits.
\<close>

definition is_space :: "char \<Rightarrow> bool" where
  "is_space c \<longleftrightarrow> c \<in> {CHR '' '', CHR 0x09, CHR 0x0A, CHR 0x0B, CHR 0x0C, CHR 0x0D}"

definition atoi :: "string \<Rightarrow> int" where
  "atoi s =
     (case dropWhile is_space s of
        [] \<Rightarrow> 0
      | c # rest \<Rightarrow>
          if c = CHR ''-'' then - int (decimal_value (takeWhile is_digit rest))
          else if c = CHR ''+'' then int (decimal_value (takeWhile is_digit rest))
          else int (decimal_value (takeWhile is_digit (c # rest))))"

definition parse_port :: "string \<Rightarrow> 16 word" where
  "parse_port s = word_of_int (atoi s)"

definition main_port :: "string list \<Rightarrow> 16 word" where
  "main_port argv = (if 1 < length argv then parse_port (argv ! 1) else 8080)"

text \<open>
  \<open>main\<close> of \<open>main.cpp\<close>: \<open>bind_ec\<close> and \<open>listen_ec\<close> are what the socket answers, each error is thrown
  as an exception; else the accept loop runs on the port.
\<close>

definition tcp_main :: "string list \<Rightarrow> ec \<Rightarrow> ec \<Rightarrow> error_code + 16 word" where
  "tcp_main argv bind_ec listen_ec =
     (case bind_ec of
        Some e \<Rightarrow> Inl e
      | None \<Rightarrow> (case listen_ec of Some e \<Rightarrow> Inl e | None \<Rightarrow> Inr (main_port argv)))"

text \<open>\<open>main\<close> of \<open>server_main.cpp\<close> up to the construction of the server; a bad level is an exception.\<close>

definition server_main :: "string list \<Rightarrow> string + (config \<times> LogLevel)" where
  "server_main argv =
     (let cfg = (if 1 < length argv then default_config\<lparr>cf_port := parse_port (argv ! 1)\<rparr> else default_config);
          level = (if 2 < length argv then parse_log_level (argv ! 2) else Inr default_log_level)
      in case level of
           Inl err \<Rightarrow> Inl err
         | Inr l \<Rightarrow> Inr (cfg\<lparr>cf_handler := True\<rparr>, set_log_level l default_log_level))"

lemma parse_port_to_string: "parse_port (to_string n) = word_of_nat n"
proof -
  have digits: "is_digit c" if "c \<in> set (to_string n)" for c using that by (rule to_string_digits)
  obtain c rest where cr: "to_string n = c # rest" by (cases "to_string n") auto
  with digits have c: "is_digit c" by simp
  then have "\<not> is_space c" "c \<noteq> CHR ''-''" "c \<noteq> CHR ''+''"
    by (auto simp: is_digit_def is_space_def)
  moreover have "takeWhile is_digit (to_string n) = to_string n"
    using digits by (simp add: takeWhile_eq_all_conv)
  then have "int (decimal_value (takeWhile is_digit (c # rest))) = int n"
    by (simp only: flip: cr) simp
  ultimately have "atoi (to_string n) = int n" by (simp add: atoi_def cr)
  then show ?thesis by (simp add: parse_port_def)
qed

text \<open>
  The port of the command line is taken modulo $2^{16}$ without a check: for an argument that is the
  decimal text of a number, both programs use its last 16 bits, so a port above 65535 silently
  becomes another one.
\<close>

theorem port_argument_wraps:
  assumes "n < 2 ^ 31"
  shows "unat (main_port [program, to_string n]) = n mod 2 ^ 16 \<and>
    tcp_main [program, to_string n] None None = Inr (word_of_nat n) \<and>
    (\<exists>cfg level. server_main [program, to_string n] = Inr (cfg, level) \<and> unat (cf_port cfg) = n mod 2 ^ 16)"
  by (simp add: main_port_def tcp_main_def server_main_def parse_port_to_string unat_of_nat)

theorem port_argument_wraps_witness: "unat (main_port [''server'', to_string 70000]) = 4464"
  using port_argument_wraps [of 70000 "''server''"] by simp

section \<open>The client\<close>

datatype connect_action =
    Act_connect
  | Act_no_delay
  | Act_set_hostname string
  | Act_handshake
  | Act_spawn_session

text \<open>
  \<open>connect\<close>: \<open>conn_ec\<close>, \<open>hs_ec\<close> and \<open>alpn\<close> are what the socket and the TLS layer answer. The
  result is the actions in order, the error code and the new session.
\<close>

definition connect ::
  "('e, 'b, 'c) capy \<Rightarrow> bool \<Rightarrow> string \<Rightarrow> ec \<Rightarrow> ec \<Rightarrow> string \<Rightarrow> task_group
    \<Rightarrow> connect_action list \<times> (ec \<times> ('ng, 'e, 'b, 'c) session option) \<times> task_group" where
  "connect K tls hostname conn_ec hs_ec alpn tg =
     (if conn_ec \<noteq> None then ([Act_connect], (conn_ec, None), tg)
      else
        (let opened = [Act_connect, Act_no_delay];
             session = new_session K Role_client False
         in if tls
            then
              (let shaken = opened @ (if hostname \<noteq> [] then [Act_set_hostname hostname] else [])
                     @ [Act_handshake]
               in if hs_ec \<noteq> None then (shaken, (hs_ec, None), tg)
                  else if alpn \<noteq> ''h2''
                  then (shaken, (Some Errc_protocol_not_supported, None), tg)
                  else (shaken @ [Act_spawn_session], (None, Some session), spawn tg))
            else (opened @ [Act_spawn_session], (None, Some session), spawn tg)))"

section \<open>Properties\<close>

definition serves :: "config \<Rightarrow> accept_event \<Rightarrow> bool" where
  "serves cfg ev \<longleftrightarrow>
     ae_ec ev = None \<and> (cf_tls cfg \<longrightarrow> ae_handshake ev = None \<and> ae_alpn ev = ''h2'')"

definition stops :: "accept_event \<Rightarrow> bool" where
  "stops ev \<longleftrightarrow> ae_ec ev \<noteq> None \<and> ae_stop ev"

lemma accept_one_iff:
  "accept_one cfg ev = Accept_loop_ends \<longleftrightarrow> stops ev"
  "accept_one cfg ev = Session_accepted \<longleftrightarrow> serves cfg ev"
  by (auto simp: accept_one_def stops_def serves_def)

lemma accept_loop_Cons:
  "accept_loop K (ev # evs) s =
     (if stops ev then (True, s)
      else if serves (sv_config s) ev then accept_loop K evs (accept_session K s)
      else accept_loop K evs s)"
  using accept_one_iff [of "sv_config s" ev] by (cases "accept_one (sv_config s) ev") auto

text \<open>
  The accept loop serves exactly the connections it should: failed accepts, failed handshakes
  and connections that did not negotiate h2 over TLS cost the server nothing but that connection,
  every other connection gets one session with the configured handler, counted in the task group,
  and the loop ends at the first failed accept after a stop was requested and at no other event.
\<close>

theorem accept_loop_result:
  assumes "accept_loop K evs s = (fin, t)"
  shows "let served = filter (serves (sv_config s)) (takeWhile (\<lambda>ev. \<not> stops ev) evs) in
    sv_sessions t = sv_sessions s
      @ replicate (length served) (new_session K Role_server (cf_handler (sv_config s))) \<and>
    tg_count (sv_group t) = tg_count (sv_group s) + word_of_nat (length served) \<and>
    fin = (\<exists>ev \<in> set evs. stops ev)"
  using assms
proof (induction evs arbitrary: s)
  case (Cons ev evs)
  have "sv_config (accept_session K s) = sv_config s"
    "sv_sessions (accept_session K s) = sv_sessions s @ [new_session K Role_server (cf_handler (sv_config s))]"
    "tg_count (sv_group (accept_session K s)) = tg_count (sv_group s) + 1"
    by (simp_all add: accept_session_def spawn_def)
  with Cons.IH [of "accept_session K s"] Cons.IH [of s] Cons.prems show ?case
    by (auto simp: accept_loop_Cons Let_def simp del: accept_loop.simps(2) split: if_splits)
qed simp

definition demo_accepts :: "accept_event list" where
  "demo_accepts =
     [\<lparr>ae_ec = None, ae_stop = False, ae_handshake = None, ae_alpn = ''http/1.1''\<rparr>,
      \<lparr>ae_ec = None, ae_stop = False, ae_handshake = None, ae_alpn = ''h2''\<rparr>,
      \<lparr>ae_ec = Some (Transport_error 24), ae_stop = False, ae_handshake = None, ae_alpn = []\<rparr>,
      \<lparr>ae_ec = Some Error_canceled, ae_stop = True, ae_handshake = None, ae_alpn = []\<rparr>]"

definition demo_server :: "(unit, bool, byte list \<times> nat, nat \<times> byte list) server" where
  "demo_server = new_server (default_config\<lparr>cf_tls := True\<rparr>)"

theorem accept_loop_result_witness:
  "fst (accept_loop flat_capy demo_accepts demo_server) \<and>
   length (sv_sessions (snd (accept_loop flat_capy demo_accepts demo_server))) = 1 \<and>
   tg_count (sv_group (snd (accept_loop flat_capy demo_accepts demo_server))) = 2"
  using accept_loop_result [of flat_capy demo_accepts demo_server
      "fst (accept_loop flat_capy demo_accepts demo_server)"
      "snd (accept_loop flat_capy demo_accepts demo_server)"]
  by (simp add: demo_accepts_def demo_server_def new_server_def new_server_impl_def server_start_def default_config_def
      spawn_def new_group_def serves_def stops_def Let_def)

text \<open>
  \<open>connect\<close> either delivers a session or explains why not: there is a session exactly when
  there is no error; the error is that of the first stage that failed, and a TLS connection on
  which h2 was not negotiated is the error protocol not supported; the session is spawned into the
  task group exactly when it is delivered, and always after the socket was configured and, with
  TLS, after the handshake.
\<close>

theorem connect_result:
  "case connect K tls hostname conn_ec hs_ec alpn tg of
     (actions, (e, session), tg') \<Rightarrow>
       e = (if conn_ec \<noteq> None then conn_ec
            else if tls \<and> hs_ec \<noteq> None then hs_ec
            else if tls \<and> alpn \<noteq> ''h2'' then Some Errc_protocol_not_supported
            else None) \<and>
       session = (if e = None then Some (new_session K Role_client False) else None) \<and>
       tg_count tg' = tg_count tg + (if e = None then 1 else 0) \<and>
       (e = None \<longleftrightarrow> last actions = Act_spawn_session) \<and>
       Act_spawn_session \<notin> set (butlast actions) \<and>
       (e = None \<and> tls \<longrightarrow> Act_handshake \<in> set actions)"
  by (auto simp: connect_def spawn_def Let_def)

theorem connect_result_witness:
  "fst (fst (snd (connect flat_capy True ''host'' None None ''http/1.1'' new_group ::
      connect_action list \<times> (ec \<times> (unit, bool, byte list \<times> nat, nat \<times> byte list) session option) \<times> task_group)))
    = Some Errc_protocol_not_supported"
  using connect_result [where K = flat_capy and tls = True and hostname = "''host''" and conn_ec = None
      and hs_ec = None and alpn = "''http/1.1''" and tg = new_group, where ?'a = unit]
  by (simp add: case_prod_unfold)

end
