(* ===== verification/Server_System.thy ===== *)
theory Server_System
  imports Session_Lifetime Server_Client
begin

text \<open>
  The server with everything it has started: the accept loop, a \<open>run\<close> coroutine for every accepted
  connection, and the request handlers the sessions spawn, all counted by one task group. Each
  session is a connection of theory \<open>Session_Loops\<close>, so what is proved of one connection holds of
  every connection of the server. The count of the group is the number of coroutines that have not
  ended; that is what makes the drain loop of the destructor a proof that nothing is left suspended.
\<close>

section \<open>What a session keeps\<close>

text \<open>A session never changes its role or its handler, and it only ever adds request handlers.\<close>

definition session_grows :: "('ng, 'e, 'b, 'c) session \<Rightarrow> ('ng, 'e, 'b, 'c) session \<Rightarrow> bool" where
  "session_grows s t \<longleftrightarrow>
     ss_role t = ss_role s \<and> ss_handler t = ss_handler s \<and> (\<exists>as. ss_spawned t = ss_spawned s @ as)"

lemma session_grows_refl [simp]: "session_grows s s"
  by (simp add: session_grows_def)

lemma session_grows_trans: "session_grows s t \<Longrightarrow> session_grows t u \<Longrightarrow> session_grows s u"
  by (auto simp: session_grows_def)

lemma session_grows_frame [simp]:
  "session_grows s (start_write K t) = session_grows s t"
  "session_grows s (with_native f t) = session_grows s t"
  "session_grows s (update_object a u t) = session_grows s t"
  "session_grows s (t\<lparr>ss_native := g\<rparr>) = session_grows s t"
  "session_grows s (t\<lparr>ss_write_ready := e\<rparr>) = session_grows s t"
  "session_grows s (t\<lparr>ss_streams := m\<rparr>) = session_grows s t"
  "session_grows s (t\<lparr>ss_objects := os\<rparr>) = session_grows s t"
  "session_grows s (t\<lparr>ss_request_counter := n\<rparr>) = session_grows s t"
  by (auto simp: session_grows_def start_write_def with_native_def update_object_def split: option.split)

lemma session_grows_with_stream [simp]: "session_grows s (with_stream sid u t) = session_grows s t"
  by (simp add: with_stream_def split: option.split)

lemma session_grows_dispatch: "session_grows s (dispatch_request a s)"
  by (simp add: session_grows_def dispatch_request_def)

lemma session_grows_effects [simp]: "session_grows s (apply_effects K N es t) = session_grows s t"
proof -
  have "session_grows s (apply_effect K N e t) = session_grows s t" for e t by (cases e) simp_all
  then show ?thesis by (induction es arbitrary: t) (simp_all add: apply_effects_def)
qed

lemma apply_effects_streams: "ss_streams (apply_effects K N es s) = ss_streams s"
proof -
  have "ss_streams (apply_effect K N e s) = ss_streams s" for e s
    by (cases e) (simp_all add: with_native_def start_write_def split: option.split)
  then show ?thesis by (induction es arbitrary: s) (simp_all add: apply_effects_def)
qed

lemma run_callback_grows: "session_grows s (snd (run_callback K N cb s))"
proof (cases cb)
  case (Cb_frame_recv f)
  then show ?thesis
    by (auto simp: on_frame_recv_callback_def Let_def session_grows_dispatch split: option.split)
qed (auto simp: on_begin_headers_callback_def create_stream_def Let_def on_header_callback_field
    on_data_chunk_recv_callback_def on_stream_close_callback_def close_stream_def
    data_source_read_callback_def split: option.split prod.split)

interpretation call_grows: callback_relation K N "\<lambda>s cbs t. session_grows s t"
  for K :: "('e, 'b, 'c) capy" and N :: "'ng nghttp2"
proof unfold_locales
  fix s t :: "('ng, 'e, 'b, 'c) session" and cb g
  assume "session_grows (snd (run_callback K N cb (s\<lparr>ss_native := Some g\<rparr>))) t"
  from session_grows_trans [OF run_callback_grows this] show "session_grows s t"
    by (simp add: session_grows_def)
qed simp

lemma submit_request_grows:
  assumes "submit_request K N path cl hs s = Some (r, t)"
  shows "session_grows s t"
  using assms by (cases rule: submit_request_cases) simp_all

lemma submit_response_grows:
  "submit_response K N a status hs s = Some (e, t) \<Longrightarrow> session_grows s t"
  by (auto simp: submit_response_def Let_def split: option.splits prod.splits if_splits)

lemma user_step_grows:
  "user_step K N written y z \<Longrightarrow> session_grows (sy_session y) (sy_session z)"
proof (induction rule: user_step.induct)
  case (user_handle a y h s)
  from user_handle.hyps(3) show ?case
    by (auto simp: handle_request_def Let_def split: if_splits option.splits prod.splits
        dest: submit_response_grows)
qed (simp_all add: stream_result_def submit_request_grows submit_response_grows)

lemma run_ng_call_grows: "run_ng_call K N c s = (r, t) \<Longrightarrow> session_grows s t"
  using call_grows.rel_call [of s K N c] by simp

lemma recv_check_grows: "recv_check K N s = Some (st, t) \<Longrightarrow> session_grows s t"
  by (auto simp: recv_check_def recv_finish_def split: option.splits if_splits)

lemma recv_resume_grows:
  assumes "recv_resume K N e bytes s = Some (st, t)"
  shows "session_grows s t"
proof (cases "e = None")
  case True
  with assms obtain g rv s1 where c: "run_ng_call K N (ng_mem_recv2 N g bytes) s = (rv, s1)"
    and t: "(if rv < 0
        then Some (Recv_done, recv_finish K N (start_write K
               (with_native (\<lambda>g. ng_terminate_session N g NGHTTP2_PROTOCOL_ERROR) s1)))
        else recv_check K N (start_write K s1)) = Some (st, t)"
    by (auto simp: recv_resume_def split: option.splits prod.splits)
  note s1 = run_ng_call_grows [OF c]
  from t show ?thesis
  proof (cases "rv < 0")
    case False
    with t have "session_grows (start_write K s1) t" by (simp add: recv_check_grows)
    with s1 show ?thesis using session_grows_trans [of s "start_write K s1" t] by simp
  qed (use s1 in \<open>auto simp: recv_finish_def\<close>)
qed (use assms in \<open>auto simp: recv_resume_def recv_finish_def\<close>)

lemma send_iteration_grows:
  "send_iteration K N cap pending s = Some (r, st, t) \<Longrightarrow> session_grows s t"
  by (auto simp: send_iteration_def split: option.splits prod.splits sum.splits if_splits
      dest: run_ng_call_grows)

lemma run_teardown_grows: "session_grows s (run_teardown K s)"
proof -
  have "session_grows s t \<Longrightarrow>
      session_grows s (foldl (\<lambda>s (sid, a). update_object a (on_close K) s) t m)" for t and m :: "(stream_id \<times> addr) list"
    by (induction m arbitrary: t) (auto split: prod.split)
  then show ?thesis by (simp add: run_teardown_def)
qed

lemma conn_step_grows:
  "conn_step K N written cap c d \<Longrightarrow> session_grows (cn_session c) (cn_session d)"
  by (induction rule: conn_step.induct)
    (auto simp: set_session_def run_teardown_grows user_step_grows
      intro: send_iteration_grows recv_check_grows recv_resume_grows)

section \<open>The system\<close>

text \<open>
  The \<open>run\<close> coroutine of a session: spawned but not started, in its loops, returned, or ended by
  an exception of the setup. After \<open>run\<close> has returned, request handlers may still use the session.
\<close>

datatype ('ng, 'e, 'b, 'c) session_task =
    Session_spawned "('ng, 'e, 'b, 'c) session"
  | Session_running "('ng, 'e, 'b, 'c) connection"
  | Session_returned "('ng, 'e, 'b, 'c) connection"
  | Session_threw

fun session_ended :: "('ng, 'e, 'b, 'c) session_task \<Rightarrow> bool" where
  "session_ended (Session_spawned s) = False"
| "session_ended (Session_running c) = False"
| "session_ended (Session_returned c) = True"
| "session_ended Session_threw = True"

text \<open>The request handlers a session has spawned.\<close>

fun handlers_of :: "('ng, 'e, 'b, 'c) session_task \<Rightarrow> nat" where
  "handlers_of (Session_spawned s) = 0"
| "handlers_of (Session_running c) = length (ss_spawned (cn_session c))"
| "handlers_of (Session_returned c) = length (ss_spawned (cn_session c))"
| "handlers_of Session_threw = 0"

text \<open>\<open>when_all(send_loop(), recv_loop())\<close> after the setup.\<close>

definition start_connection :: "('ng, 'e, 'b, 'c) session \<Rightarrow> ('ng, 'e, 'b, 'c) connection" where
  "start_connection s =
     \<lparr>cn_sys = \<lparr>sy_session = s, sy_writing = {}, sy_asking = {}\<rparr>, cn_send = Send_top [],
      cn_recv = Recv_top, cn_over = False, cn_produced = [], cn_wire = []\<rparr>"

text \<open>\<open>sy_tasks\<close> has for every session its task and the number of its handlers that have ended.\<close>

record ('ng, 'e, 'b, 'c) server_sys =
  sy_server :: "('ng, 'e, 'b, 'c) server"
  sy_accepting :: bool
  sy_tasks :: "(('ng, 'e, 'b, 'c) session_task \<times> nat) list"

definition on_group ::
  "(task_group \<Rightarrow> task_group) \<Rightarrow> ('ng, 'e, 'b, 'c) server_sys \<Rightarrow> ('ng, 'e, 'b, 'c) server_sys" where
  "on_group f y = y\<lparr>sy_server := (sy_server y)\<lparr>sv_group := f (sv_group (sy_server y))\<rparr>\<rparr>"

definition set_task ::
  "nat \<Rightarrow> ('ng, 'e, 'b, 'c) session_task \<times> nat \<Rightarrow> ('ng, 'e, 'b, 'c) server_sys \<Rightarrow> ('ng, 'e, 'b, 'c) server_sys" where
  "set_task i x y = y\<lparr>sy_tasks := (sy_tasks y)[i := x]\<rparr>"

text \<open>
  The stop token the accept loop asks is that of the task group. \<open>dispatch_request\<close> spawns a handler
  into the group, \<open>run_async\<close> calls the completion handler of the group when a coroutine returns or
  ends with an exception.
\<close>

inductive server_step ::
  "('e, 'b, 'c) capy \<Rightarrow> 'ng nghttp2 \<Rightarrow> ('b \<Rightarrow> byte list) \<Rightarrow> nat
    \<Rightarrow> ('ng, 'e, 'b, 'c) server_sys \<Rightarrow> ('ng, 'e, 'b, 'c) server_sys \<Rightarrow> bool"
  for K N written cap where
  server_accept:
    "sy_accepting y \<Longrightarrow> ae_stop ev = tg_stop_requested (sv_group (sy_server y)) \<Longrightarrow>
     accept_loop K [ev] (sy_server y) = (False, srv) \<Longrightarrow>
     server_step K N written cap y
       (y\<lparr>sy_server := srv,
          sy_tasks := sy_tasks y
            @ map (\<lambda>s. (Session_spawned s, 0)) (drop (length (sv_sessions (sy_server y))) (sv_sessions srv))\<rparr>)"
| server_accept_ends:
    "sy_accepting y \<Longrightarrow> ae_stop ev = tg_stop_requested (sv_group (sy_server y)) \<Longrightarrow>
     accept_loop K [ev] (sy_server y) = (True, srv) \<Longrightarrow>
     server_step K N written cap y (on_group task_completed (y\<lparr>sy_server := srv, sy_accepting := False\<rparr>))"
| server_session_starts:
    "i < length (sy_tasks y) \<Longrightarrow> sy_tasks y ! i = (Session_spawned s, k) \<Longrightarrow> run_setup N s = Inr s' \<Longrightarrow>
     server_step K N written cap y (set_task i (Session_running (start_connection s'), k) y)"
| server_session_throws:
    "i < length (sy_tasks y) \<Longrightarrow> sy_tasks y ! i = (Session_spawned s, k) \<Longrightarrow> run_setup N s = Inl e \<Longrightarrow>
     server_step K N written cap y (on_group task_completed (set_task i (Session_threw, k) y))"
| server_session_runs:
    "i < length (sy_tasks y) \<Longrightarrow> sy_tasks y ! i = (Session_running c, k) \<Longrightarrow> conn_step K N written cap c d \<Longrightarrow>
     server_step K N written cap y
       (on_group (spawn ^^ (length (ss_spawned (cn_session d)) - length (ss_spawned (cn_session c))))
         (set_task i (Session_running d, k) y))"
| server_session_returns:
    "i < length (sy_tasks y) \<Longrightarrow> sy_tasks y ! i = (Session_running c, k) \<Longrightarrow> cn_over c \<Longrightarrow>
     server_step K N written cap y (on_group task_completed (set_task i (Session_returned c, k) y))"
| server_session_used:
    "i < length (sy_tasks y) \<Longrightarrow> sy_tasks y ! i = (Session_returned c, k) \<Longrightarrow>
     user_step K N written (cn_sys c) z \<Longrightarrow>
     server_step K N written cap y (set_task i (Session_returned (c\<lparr>cn_sys := z\<rparr>), k) y)"
| server_handler_ends:
    "i < length (sy_tasks y) \<Longrightarrow> sy_tasks y ! i = (t, k) \<Longrightarrow> k < handlers_of t \<Longrightarrow>
     server_step K N written cap y (on_group task_completed (set_task i (t, Suc k) y))"
| server_stop:
    "server_step K N written cap y (on_group request_stop y)"

text \<open>The constructor of \<open>Server\<close> has started the accept loop.\<close>

definition server_starts ::
  "('e, 'b, 'c) capy \<Rightarrow> ('b \<Rightarrow> byte list) \<Rightarrow> ('b \<Rightarrow> nat) \<Rightarrow> ('c \<Rightarrow> byte list)
    \<Rightarrow> ('ng, 'e, 'b, 'c) server_sys \<Rightarrow> bool" where
  "server_starts K written room rest y \<longleftrightarrow>
     library_ok K written room rest \<and>
     (\<exists>cfg. y = \<lparr>sy_server = new_server cfg, sy_accepting = True, sy_tasks = []\<rparr>)"

section \<open>The invariant\<close>

text \<open>The coroutines that have not ended.\<close>

definition task_pending :: "('ng, 'e, 'b, 'c) session_task \<times> nat \<Rightarrow> nat" where
  "task_pending x = of_bool (\<not> session_ended (fst x)) + (handlers_of (fst x) - snd x)"

definition pending :: "('ng, 'e, 'b, 'c) server_sys \<Rightarrow> nat" where
  "pending y = of_bool (sy_accepting y) + sum_list (map task_pending (sy_tasks y))"

text \<open>What holds of the connection of a server session: it is one, and it serves the right way.\<close>

definition conn_ok ::
  "('e, 'b, 'c) capy \<Rightarrow> 'ng nghttp2 \<Rightarrow> ('b \<Rightarrow> byte list) \<Rightarrow> ('b \<Rightarrow> nat) \<Rightarrow> ('c \<Rightarrow> byte list) \<Rightarrow> nat
    \<Rightarrow> bool \<Rightarrow> ('ng, 'e, 'b, 'c) connection \<Rightarrow> bool" where
  "conn_ok K N written room rest cap handler c \<longleftrightarrow>
     reachable (conn_starts K N written room rest) (conn_step K N written cap) c \<and>
     ss_role (cn_session c) = Role_server \<and> ss_handler (cn_session c) = handler \<and>
     (cn_over c \<longrightarrow> ss_streams (cn_session c) = [])"

fun task_ok ::
  "('e, 'b, 'c) capy \<Rightarrow> 'ng nghttp2 \<Rightarrow> ('b \<Rightarrow> byte list) \<Rightarrow> ('b \<Rightarrow> nat) \<Rightarrow> ('c \<Rightarrow> byte list) \<Rightarrow> nat
    \<Rightarrow> bool \<Rightarrow> ('ng, 'e, 'b, 'c) session_task \<times> nat \<Rightarrow> bool" where
  "task_ok K N written room rest cap handler (Session_spawned s, k) \<longleftrightarrow>
     s = new_session K Role_server handler \<and> k = 0"
| "task_ok K N written room rest cap handler (Session_running c, k) \<longleftrightarrow>
     conn_ok K N written room rest cap handler c \<and> k \<le> length (ss_spawned (cn_session c))"
| "task_ok K N written room rest cap handler (Session_returned c, k) \<longleftrightarrow>
     conn_ok K N written room rest cap handler c \<and> cn_over c \<and> k \<le> length (ss_spawned (cn_session c))"
| "task_ok K N written room rest cap handler (Session_threw, k) \<longleftrightarrow> k = 0"

definition server_inv ::
  "('e, 'b, 'c) capy \<Rightarrow> 'ng nghttp2 \<Rightarrow> ('b \<Rightarrow> byte list) \<Rightarrow> ('b \<Rightarrow> nat) \<Rightarrow> ('c \<Rightarrow> byte list) \<Rightarrow> nat
    \<Rightarrow> ('ng, 'e, 'b, 'c) server_sys \<Rightarrow> bool" where
  "server_inv K N written room rest cap y \<longleftrightarrow>
     library_ok K written room rest \<and>
     tg_count (sv_group (sy_server y)) = word_of_nat (pending y) \<and>
     (\<not> sy_accepting y \<longrightarrow> tg_stop_requested (sv_group (sy_server y))) \<and>
     (\<forall>x \<in> set (sy_tasks y). task_ok K N written room rest cap (cf_handler (sv_config (sy_server y))) x)"

lemma pending_set_task:
  assumes "i < length (sy_tasks y)"
  shows "pending (set_task i x y) + task_pending (sy_tasks y ! i) = pending y + task_pending x"
proof -
  let ?ps = "map task_pending (sy_tasks y)"
  have i: "i < length ?ps" using assms by simp
  have "?ps ! i \<le> sum_list ?ps" by (rule elem_le_sum_list [OF i])
  then show ?thesis
    using sum_list_update [OF i, of "task_pending x"] assms
    by (simp add: pending_def set_task_def map_update)
qed

lemma spawn_iterate:
  "tg_count ((spawn ^^ n) tg) = tg_count tg + word_of_nat n"
  "tg_stop_requested ((spawn ^^ n) tg) = tg_stop_requested tg"
  by (induction n) (simp_all add: spawn_def)

lemma sys_fields [simp]:
  "sy_accepting (on_group f y) = sy_accepting y" "sy_tasks (on_group f y) = sy_tasks y"
  "sv_config (sy_server (on_group f y)) = sv_config (sy_server y)"
  "sv_group (sy_server (on_group f y)) = f (sv_group (sy_server y))"
  "pending (on_group f y) = pending y"
  "sy_server (set_task i x y) = sy_server y" "sy_accepting (set_task i x y) = sy_accepting y"
  "sy_tasks (set_task i x y) = (sy_tasks y)[i := x]"
  by (simp_all add: on_group_def set_task_def pending_def)

text \<open>On a server session users register no stream, and the teardown has emptied the table.\<close>

lemma user_step_streams:
  "user_step K N written y z \<Longrightarrow> ss_role (sy_session y) = Role_server \<Longrightarrow>
    ss_streams (sy_session z) = ss_streams (sy_session y)"
proof (induction rule: user_step.induct)
  case (user_request path cl hs y r s)
  then show ?case by (simp add: submit_request_def)
next
  case (user_response a y status hs e s)
  then show ?case
    by (auto simp: submit_response_def Let_def start_write_def split: option.splits prod.splits if_splits)
next
  case (user_handle a y h s)
  then show ?case
    by (auto simp: handle_request_def submit_response_def Let_def start_write_def apply_effects_streams
        update_object_def split: option.splits prod.splits if_splits)
qed (simp_all add: stream_result_def apply_effects_streams update_object_def)

text \<open>Nor does a user spawn a request handler.\<close>

lemma user_step_spawned:
  "user_step K N written y z \<Longrightarrow> ss_spawned (sy_session z) = ss_spawned (sy_session y)"
proof (induction rule: user_step.induct)
  case (user_request path cl hs y r s)
  then show ?case by (auto elim!: submit_request_cases simp: start_write_def)
next
  case (user_response a y status hs e s)
  then show ?case
    by (auto simp: submit_response_def Let_def start_write_def split: option.splits prod.splits if_splits)
next
  case (user_handle a y h s)
  then show ?case
    by (auto simp: handle_request_def submit_response_def Let_def start_write_def apply_effects_others
        update_object_def split: option.splits prod.splits if_splits)
qed (simp_all add: stream_result_def apply_effects_others update_object_def)

lemma conn_step_streams:
  assumes "conn_step K N written cap c d" "conn_inv K written room rest cap c"
    and "ss_role (cn_session c) = Role_server" "cn_over c \<longrightarrow> ss_streams (cn_session c) = []"
  shows "cn_over d \<longrightarrow> ss_streams (cn_session d) = []"
proof (cases "cn_over c")
  case True
  then have "user_step K N written (cn_sys c) (cn_sys d)" using conn_step_over [OF assms(1,2)] by blast
  from user_step_streams [OF this assms(3)] True assms(4) show ?thesis by simp
next
  case False
  with assms(1) show ?thesis
    by cases (simp_all add: set_session_def run_teardown_def teardown_fold)
qed

lemma conn_ok_step:
  assumes "conn_ok K N written room rest cap handler c" "conn_step K N written cap c d"
  shows "conn_ok K N written room rest cap handler d"
proof -
  have "conn_inv K written room rest cap c"
    using assms(1) by (auto simp: conn_ok_def intro: conn_invariant.inv_reachable)
  with assms conn_step_grows [OF assms(2)] conn_step_streams [OF assms(2)] show ?thesis
    by (auto simp: conn_ok_def session_grows_def intro: reachable_step)
qed

lemma conn_ok_start:
  assumes "library_ok K written room rest" "run_setup N (new_session K Role_server handler) = Inr s"
  shows "conn_ok K N written room rest cap handler (start_connection s)" "ss_spawned s = []"
proof -
  have "conn_starts K N written room rest (start_connection s)"
    using assms by (auto simp: conn_starts_def start_connection_def)
  moreover have s: "ss_role s = Role_server \<and> ss_handler s = handler \<and> ss_spawned s = []"
    using assms(2)
    by (auto simp: run_setup_def new_session_def Let_def split: if_splits prod.splits)
  ultimately show "conn_ok K N written room rest cap handler (start_connection s)"
    by (auto simp: conn_ok_def start_connection_def intro: reachable_init)
  show "ss_spawned s = []" using s by blast
qed

text \<open>A step that changes one task and the count of the group accordingly.\<close>

lemma server_inv_task:
  assumes inv: "server_inv K N written room rest cap y" and i: "i < length (sy_tasks y)"
    and x: "task_ok K N written room rest cap (cf_handler (sv_config (sy_server y))) x"
    and f: "\<And>g. tg_stop_requested (f g) = tg_stop_requested g"
      "\<And>g. tg_count (f g) + word_of_nat (task_pending (sy_tasks y ! i)) = tg_count g + word_of_nat (task_pending x)"
  shows "server_inv K N written room rest cap (on_group f (set_task i x y))"
proof -
  let ?g = "sv_group (sy_server y)"
  have "word_of_nat (pending (set_task i x y)) + word_of_nat (task_pending (sy_tasks y ! i)) =
      (word_of_nat (pending y) + word_of_nat (task_pending x) :: size_t)"
    using pending_set_task [OF i, of x] by (metis of_nat_add)
  also have "\<dots> = tg_count (f ?g) + word_of_nat (task_pending (sy_tasks y ! i))"
    using inv f(2) by (simp add: server_inv_def)
  finally have "tg_count (f ?g) = word_of_nat (pending (set_task i x y))" by simp
  with inv f(1) x show ?thesis
    using set_update_subset_insert [of "sy_tasks y" i x] by (auto simp: server_inv_def)
qed

lemma server_inv_nth:
  assumes "server_inv K N written room rest cap y" "i < length (sy_tasks y)" "sy_tasks y ! i = x"
  shows "task_ok K N written room rest cap (cf_handler (sv_config (sy_server y))) x"
proof -
  have "x \<in> set (sy_tasks y)" using assms(2,3) by (metis nth_mem)
  with assms(1) show ?thesis by (simp add: server_inv_def)
qed

lemma server_inv_same:
  assumes "server_inv K N written room rest cap y" "i < length (sy_tasks y)"
    "task_ok K N written room rest cap (cf_handler (sv_config (sy_server y))) x"
    "task_pending x = task_pending (sy_tasks y ! i)"
  shows "server_inv K N written room rest cap (set_task i x y)"
proof -
  have "on_group (\<lambda>g. g) (set_task i x y) = set_task i x y" by (simp add: on_group_def)
  with server_inv_task [OF assms(1-3), where f = "\<lambda>g. g"] assms(4) show ?thesis by simp
qed

lemma server_inv_completed:
  assumes "server_inv K N written room rest cap y" "i < length (sy_tasks y)"
    "task_ok K N written room rest cap (cf_handler (sv_config (sy_server y))) x"
    "Suc (task_pending x) = task_pending (sy_tasks y ! i)"
  shows "server_inv K N written room rest cap (on_group task_completed (set_task i x y))"
  using assms(1-3) by (rule server_inv_task) (simp_all add: task_completed_def flip: assms(4))

lemma server_step_inv:
  assumes "server_step K N written cap y z" "server_inv K N written room rest cap y"
  shows "server_inv K N written room rest cap z"
  using assms
proof (induction rule: server_step.induct)
  case (server_accept y ev srv)
  then show ?case
    by (auto simp: server_inv_def accept_loop_Cons accept_session_def pending_def task_pending_def spawn_def
        simp del: accept_loop.simps(2) split: if_splits)
next
  case (server_accept_ends y ev srv)
  then show ?case
    by (auto simp: server_inv_def accept_loop_Cons pending_def task_completed_def on_group_def stops_def
        simp del: accept_loop.simps(2) split: if_splits)
next
  case (server_session_starts i y s k s')
  have s: "s = new_session K Role_server (cf_handler (sv_config (sy_server y)))" "k = 0"
    and lib: "library_ok K written room rest"
    using server_session_starts.prems server_inv_nth [OF server_session_starts.prems server_session_starts.hyps(1,2)]
    by (simp_all add: server_inv_def)
  note start = conn_ok_start [OF lib server_session_starts.hyps(3) [unfolded s(1)]]
  then have "ss_spawned (cn_session (start_connection s')) = []" by (simp add: start_connection_def)
  with start s server_session_starts show ?case
    by (intro server_inv_same) (simp_all add: task_pending_def)
next
  case (server_session_throws i y s k e)
  from server_inv_nth [OF server_session_throws.prems server_session_throws.hyps(1,2)] server_session_throws
  show ?case by (intro server_inv_completed) (simp_all add: task_pending_def)
next
  case (server_session_runs i y c k d)
  have c: "conn_ok K N written room rest cap (cf_handler (sv_config (sy_server y))) c"
    "k \<le> length (ss_spawned (cn_session c))"
    using server_inv_nth [OF server_session_runs.prems server_session_runs.hyps(1,2)] by simp_all
  obtain as where as: "ss_spawned (cn_session d) = ss_spawned (cn_session c) @ as"
    using conn_step_grows [OF server_session_runs.hyps(3)] by (auto simp: session_grows_def)
  have "task_ok K N written room rest cap (cf_handler (sv_config (sy_server y))) (Session_running d, k)"
    using conn_ok_step [OF c(1) server_session_runs.hyps(3)] c(2) as by simp
  then show ?case
    using server_session_runs.prems server_session_runs.hyps(1,2) c(2) as
    by (intro server_inv_task) (simp_all add: spawn_iterate task_pending_def of_nat_diff)
next
  case (server_session_returns i y c k)
  from server_inv_nth [OF server_session_returns.prems server_session_returns.hyps(1,2)] server_session_returns
  show ?case by (intro server_inv_completed) (simp_all add: task_pending_def)
next
  case (server_session_used i y c k z)
  have c: "conn_ok K N written room rest cap (cf_handler (sv_config (sy_server y))) c" "cn_over c"
    "k \<le> length (ss_spawned (cn_session c))"
    using server_inv_nth [OF server_session_used.prems server_session_used.hyps(1,2)] by simp_all
  have "ss_spawned (sy_session z) = ss_spawned (cn_session c)"
    using server_session_used.hyps(3) by (rule user_step_spawned)
  with c conn_ok_step [OF c(1) conn_user [OF server_session_used.hyps(3)]] server_session_used show ?case
    by (intro server_inv_same) (auto simp: task_pending_def)
next
  case (server_handler_ends i y t k)
  note ok = server_inv_nth [OF server_handler_ends.prems server_handler_ends.hyps(1,2)]
  from ok server_handler_ends show ?case
    by (intro server_inv_completed; cases t) (auto simp: task_pending_def)
next
  case (server_stop y)
  then show ?case by (simp add: server_inv_def request_stop_def)
qed

lemma server_starts_inv:
  "server_starts K written room rest y \<Longrightarrow> server_inv K N written room rest cap y"
  by (auto simp: server_starts_def server_inv_def new_server_def new_server_impl_def server_start_def spawn_def new_group_def
      pending_def)

interpretation server_reach: step_invariant "server_starts K written room rest"
  "server_step K N written cap" "server_inv K N written room rest cap"
  for K :: "('e, 'b, 'c) capy" and N :: "'ng nghttp2" and written room rest cap
  by unfold_locales (auto intro: server_starts_inv server_step_inv)

subsection \<open>A server that is stopped\<close>

text \<open>It accepts one connection, whose session ends at once, and then is asked to stop.\<close>

type_synonym demo_server_sys = "(unit, bool, byte list \<times> nat, nat \<times> byte list) server_sys"

definition accepting_server :: "bool \<Rightarrow> size_t \<Rightarrow> (unit, bool, byte list \<times> nat, nat \<times> byte list) server" where
  "accepting_server stop n =
     \<lparr>sv_config = default_config, sv_group = \<lparr>tg_stop_requested = stop, tg_count = n\<rparr>,
      sv_sessions = [new_session flat_capy Role_server False]\<rparr>"

definition serving :: "demo_connection \<Rightarrow> demo_server_sys" where
  "serving c = \<lparr>sy_server = accepting_server False 2, sy_accepting = True, sy_tasks = [(Session_running c, 0)]\<rparr>"

definition served :: "bool \<Rightarrow> demo_server_sys" where
  "served stop =
     \<lparr>sy_server = accepting_server stop 1, sy_accepting = True,
      sy_tasks = [(Session_returned (ended_conn Role_server), 0)]\<rparr>"

definition drained :: demo_server_sys where
  "drained =
     \<lparr>sy_server = accepting_server True 0, sy_accepting = False,
      sy_tasks = [(Session_returned (ended_conn Role_server), 0)]\<rparr>"

abbreviation demo_server_step :: "demo_server_sys \<Rightarrow> demo_server_sys \<Rightarrow> bool" where
  "demo_server_step \<equiv> server_step flat_capy ended_ng fst 1460"

abbreviation demo_server_reach :: "demo_server_sys \<Rightarrow> bool" where
  "demo_server_reach \<equiv> reachable (server_starts flat_capy fst snd snd) demo_server_step"

lemma serving_start: "demo_server_reach (serving (idle_conn Role_server))"
proof -
  let ?y0 = "\<lparr>sy_server = new_server default_config, sy_accepting = True, sy_tasks = []\<rparr> :: demo_server_sys"
  let ?y1 = "\<lparr>sy_server = accepting_server False 2, sy_accepting = True,
      sy_tasks = [(Session_spawned (new_session flat_capy Role_server False), 0)]\<rparr> :: demo_server_sys"
  have "demo_server_reach ?y0" by (rule reachable_init) (auto simp: server_starts_def flat_capy_ok)
  moreover have "demo_server_step ?y0 ?y1"
    using server_accept [of ?y0 "\<lparr>ae_ec = None, ae_stop = False, ae_handshake = None, ae_alpn = []\<rparr>" flat_capy
        "accepting_server False 2" ended_ng fst 1460]
    by (simp add: accepting_server_def new_server_def new_server_impl_def server_start_def spawn_def new_group_def default_config_def
        accept_one_def accept_session_def)
  moreover have "demo_server_step ?y1 (serving (idle_conn Role_server))"
    using server_session_starts [of 0 ?y1 "new_session flat_capy Role_server False" 0 ended_ng
        "(new_session flat_capy Role_server False)\<lparr>ss_native := Some ()\<rparr>" flat_capy fst 1460]
    by (simp add: run_setup_def ended_ng_def demo_ng_def set_task_def serving_def start_connection_def idle_conn_def)
  ultimately show ?thesis by (blast intro: reachable_step)
qed

lemma serving_step:
  assumes "conn_step flat_capy ended_ng fst 1460 c d" "ss_spawned (cn_session d) = ss_spawned (cn_session c)"
  shows "demo_server_step (serving c) (serving d)"
  using server_session_runs [of 0 "serving c" c 0 flat_capy ended_ng fst 1460 d] assms
  by (simp add: serving_def set_task_def on_group_def)

lemma drained_reach: "demo_server_reach (served False)" "demo_server_reach drained"
proof -
  let ?r = "Role_server"
  have "demo_server_reach (serving (ended_conn ?r))"
    by (rule reachable_step [OF reachable_step [OF reachable_step [OF serving_start]]];
        rule serving_step, rule ended_conn_steps) (simp_all add: ended_eval)
  moreover have "demo_server_step (serving (ended_conn ?r)) (served False)"
    using server_session_returns [of 0 "serving (ended_conn ?r)" "ended_conn ?r" 0 flat_capy ended_ng fst 1460]
    by (simp add: serving_def served_def set_task_def on_group_def accepting_server_def task_completed_def
        ended_conn_def)
  ultimately show "demo_server_reach (served False)" by (rule reachable_step)
  moreover have "demo_server_step (served False) (served True)"
    using server_stop [of flat_capy ended_ng fst 1460 "served False"]
    by (simp add: served_def on_group_def accepting_server_def request_stop_def)
  moreover have "demo_server_step (served True) drained"
    using server_accept_ends [of "served True"
        "\<lparr>ae_ec = Some Error_canceled, ae_stop = True, ae_handshake = None, ae_alpn = []\<rparr>" flat_capy
        "accepting_server True 1" ended_ng fst 1460]
    by (simp add: served_def drained_def on_group_def accepting_server_def task_completed_def accept_one_def)
  ultimately show "demo_server_reach drained" by (blast intro: reachable_step)
qed

section \<open>Properties\<close>

text \<open>
  C12. A drained server has nothing left to run: with fewer than $2^{64}$ coroutines, the count of the
  task group is the number of coroutines that have not ended, and when it is zero the accept loop has
  ended, the \<open>run\<close> coroutine of every session has returned or thrown, and every request handler any
  session ever spawned has ended. So when the drain loop of the destructor is left, no coroutine
  frame is suspended.
\<close>

theorem drained_server_is_idle:
  assumes "reachable (server_starts K written room rest) (server_step K N written cap) y"
    and "pending y < 2 ^ 64"
  shows "unat (tg_count (sv_group (sy_server y))) = pending y \<and>
    (tg_count (sv_group (sy_server y)) = 0 \<longleftrightarrow>
       \<not> sy_accepting y \<and> (\<forall>(t, k) \<in> set (sy_tasks y). session_ended t \<and> k = handlers_of t))"
proof -
  have inv: "server_inv K N written room rest cap y" by (rule server_reach.inv_reachable [OF assms(1)])
  then have count: "unat (tg_count (sv_group (sy_server y))) = pending y"
    using assms(2) by (simp add: server_inv_def unat_of_nat take_bit_nat_eq_self)
  have fin: "task_pending (t, k) = 0 \<longleftrightarrow> session_ended t \<and> k = handlers_of t" if "(t, k) \<in> set (sy_tasks y)" for t k
  proof -
    have "task_ok K N written room rest cap (cf_handler (sv_config (sy_server y))) (t, k)"
      using inv that by (simp add: server_inv_def)
    then have "k \<le> handlers_of t" by (cases t) simp_all
    then show ?thesis by (auto simp: task_pending_def)
  qed
  have "pending y = 0 \<longleftrightarrow> \<not> sy_accepting y \<and> (\<forall>x \<in> set (sy_tasks y). task_pending x = 0)"
    by (auto simp: pending_def)
  also have "\<dots> \<longleftrightarrow> \<not> sy_accepting y \<and> (\<forall>(t, k) \<in> set (sy_tasks y). session_ended t \<and> k = handlers_of t)"
    by (intro conj_cong ball_cong refl) (auto simp: fin)
  finally have "tg_count (sv_group (sy_server y)) = 0 \<longleftrightarrow>
      \<not> sy_accepting y \<and> (\<forall>(t, k) \<in> set (sy_tasks y). session_ended t \<and> k = handlers_of t)"
    using count by (simp add: unat_eq_0 [symmetric])
  with count show ?thesis by blast
qed

theorem drained_server_is_idle_witness:
  "unat (tg_count (sv_group (sy_server drained))) = 0 \<and> \<not> sy_accepting drained \<and>
   session_ended (fst (sy_tasks drained ! 0))"
  using drained_server_is_idle [OF drained_reach(2)]
  by (simp add: pending_def task_pending_def drained_def accepting_server_def ended_eval)

text \<open>
  C21. Every session of a server is a connection: in every state the server can get into, the session
  of an accepted connection, once its setup is done, is in a state that the connection of theory
  \<open>Session_Loops\<close> can reach, with the role of a server and the handler that was configured. So
  what is proved of connections, of their sessions and of their streams holds of all of them.
\<close>

theorem server_refines_connections:
  assumes "reachable (server_starts K written room rest) (server_step K N written cap) y"
    and "i < length (sy_tasks y)" "sy_tasks y ! i = (t, k)" "t = Session_running c \<or> t = Session_returned c"
  shows "reachable (conn_starts K N written room rest) (conn_step K N written cap) c \<and>
    ss_role (cn_session c) = Role_server \<and>
    ss_handler (cn_session c) = cf_handler (sv_config (sy_server y))"
  using server_inv_nth [OF server_reach.inv_reachable [OF assms(1)] assms(2,3)] assms(4)
  by (auto simp: conn_ok_def)

theorem server_refines_connections_witness:
  "ended_reach (ended_conn Role_server) \<and> \<not> ss_handler (cn_session (ended_conn Role_server))"
  using server_refines_connections [OF drained_reach(1), of 0 "Session_returned (ended_conn Role_server)" 0]
  by (simp add: served_def accepting_server_def default_config_def)

text \<open>
  A server session that has ended holds no stream: after \<open>run\<close> has returned, the table of the
  session is empty and stays empty whatever the request handlers still do, so no stream and with it
  no session is kept alive by the table.
\<close>

theorem returned_session_holds_no_stream:
  assumes "reachable (server_starts K written room rest) (server_step K N written cap) y"
    and "i < length (sy_tasks y)" "sy_tasks y ! i = (Session_returned c, k)"
  shows "ss_streams (cn_session c) = [] \<and> find_stream (cn_session c) sid = None"
  using server_inv_nth [OF server_reach.inv_reachable [OF assms(1)] assms(2,3)]
  by (simp add: conn_ok_def find_stream_def)

theorem returned_session_holds_no_stream_witness:
  "ss_streams (cn_session (ended_conn Role_server)) = []"
  using returned_session_holds_no_stream [OF drained_reach(1), of 0 "ended_conn Role_server" 0]
  by (simp add: served_def)

text \<open>
  The accept loop runs until it is told to stop: as long as no stop was requested of the task
  group, the server accepts connections, whatever accepts, handshakes, sessions and handlers fail.
\<close>

theorem server_accepts_until_stopped:
  assumes "reachable (server_starts K written room rest) (server_step K N written cap) y"
    and "\<not> tg_stop_requested (sv_group (sy_server y))"
  shows "sy_accepting y"
  using server_reach.inv_reachable [OF assms(1)] assms(2) by (auto simp: server_inv_def)

theorem server_accepts_until_stopped_witness: "sy_accepting (served False)"
  using server_accepts_until_stopped [OF drained_reach(1)] by (simp add: served_def accepting_server_def)

end
