(* ===== verification/Session_Ownership.thy ===== *)
theory Session_Ownership
  imports Server_System
begin

text \<open>
  Who keeps a session and its streams alive. \<open>Session::Impl\<close> and \<open>Stream\<close> are held by \<open>shared_ptr\<close>:
  the table \<open>streams_\<close> holds its streams, every stream holds its session, and the coroutines and
  objects of the users hold streams and sessions. Theory \<open>Session\<close> keeps every object for ever; here
  objects are destroyed when the last pointer to them goes, and the destructor \<open>~Impl\<close> deletes the
  nghttp2 session.

  The cycle between the table and its streams is what the teardown of \<open>run\<close> is to break. The
  theorems say that it does, for every session of a server, and that a request submitted too late
  closes the cycle again.
\<close>

section \<open>Owners and the objects that are alive\<close>

text \<open>
  The pointers from outside: \<open>self\<close> of the \<open>run\<close> coroutine, the \<open>Session\<close> objects of users, and per
  stream the request handlers, requests, responses, readers and writers that hold it.
\<close>

record owners =
  ow_run :: bool
  ow_handles :: nat
  ow_users :: "addr \<Rightarrow> nat"

definition no_owners :: owners where
  "no_owners = \<lparr>ow_run = False, ow_handles = 0, ow_users = (\<lambda>_. 0)\<rparr>"

text \<open>The objects alive, and the library sessions \<open>nghttp2_session_del\<close> was called with.\<close>

record 'ng heap =
  hp_session :: bool
  hp_streams :: "addr set"
  hp_deleted :: "'ng list"

text \<open>The use counts: the table is part of the session and goes with it.\<close>

definition stream_uses :: "owners \<Rightarrow> ('ng, 'e, 'b, 'c) session \<Rightarrow> 'ng heap \<Rightarrow> addr \<Rightarrow> nat" where
  "stream_uses ow s h a =
     ow_users ow a + (if hp_session h then length (filter (\<lambda>b. b = a) (map snd (ss_streams s))) else 0)"

definition session_uses :: "owners \<Rightarrow> 'ng heap \<Rightarrow> nat" where
  "session_uses ow h = of_bool (ow_run ow) + ow_handles ow + card (hp_streams h)"

text \<open>\<open>~Impl\<close>.\<close>

definition session_destroy :: "('ng, 'e, 'b, 'c) session \<Rightarrow> 'ng list" where
  "session_destroy s = (case ss_native s of None \<Rightarrow> [] | Some g \<Rightarrow> [g])"

inductive release_step ::
  "owners \<Rightarrow> ('ng, 'e, 'b, 'c) session \<Rightarrow> 'ng heap \<Rightarrow> 'ng heap \<Rightarrow> bool" for ow s where
  release_stream:
    "a \<in> hp_streams h \<Longrightarrow> stream_uses ow s h a = 0 \<Longrightarrow>
     release_step ow s h (h\<lparr>hp_streams := hp_streams h - {a}\<rparr>)"
| release_session:
    "hp_session h \<Longrightarrow> session_uses ow h = 0 \<Longrightarrow>
     release_step ow s h (h\<lparr>hp_session := False, hp_deleted := hp_deleted h @ session_destroy s\<rparr>)"

text \<open>
  The objects of a session in use: it is alive and has not been deleted, and so are the streams of
  its table; of the others those may be gone that nobody holds.
\<close>

definition heap_of :: "('ng, 'e, 'b, 'c) session \<Rightarrow> 'ng heap \<Rightarrow> bool" where
  "heap_of s h \<longleftrightarrow>
     hp_session h \<and> hp_deleted h = [] \<and> hp_streams h \<subseteq> {..<length (ss_objects s)} \<and>
     snd ` set (ss_streams s) \<subseteq> hp_streams h"

definition all_freed :: "'ng list \<Rightarrow> 'ng heap" where
  "all_freed del = \<lparr>hp_session = False, hp_streams = {}, hp_deleted = del\<rparr>"

section \<open>When everything is freed\<close>

lemma stream_uses_table:
  "hp_session h \<Longrightarrow> a \<in> snd ` set (ss_streams s) \<Longrightarrow> 0 < stream_uses ow s h a"
  by (auto simp: stream_uses_def filter_empty_conv)

text \<open>With an empty table and no owner the streams go one by one, then the session.\<close>

lemma release_streams:
  assumes "finite A" "hp_streams h = A" "\<And>a. a \<in> A \<Longrightarrow> ow_users ow a = 0" "ss_streams s = []"
  shows "(release_step ow s)\<^sup>*\<^sup>* h (h\<lparr>hp_streams := {}\<rparr>)"
  using assms
proof (induction A arbitrary: h rule: finite_induct)
  case (insert a A)
  have "release_step ow s h (h\<lparr>hp_streams := A\<rparr>)"
    using release_stream [of a h ow s] insert by (simp add: stream_uses_def)
  moreover have "(release_step ow s)\<^sup>*\<^sup>* (h\<lparr>hp_streams := A\<rparr>) (h\<lparr>hp_streams := {}\<rparr>)"
    using insert.IH [of "h\<lparr>hp_streams := A\<rparr>"] insert.prems by simp
  ultimately show ?case by (rule converse_rtranclp_into_rtranclp)
next
  case empty
  then have "h = h\<lparr>hp_streams := {}\<rparr>" by simp
  then show ?case by (metis rtranclp.rtrancl_refl)
qed

lemma heap_of_finite: "heap_of s h \<Longrightarrow> finite (hp_streams h)"
  by (auto simp: heap_of_def intro: finite_subset)

lemma release_all:
  assumes "heap_of s h" "ss_streams s = []"
  shows "(release_step no_owners s)\<^sup>*\<^sup>* h (all_freed (session_destroy s))"
proof -
  have "(release_step no_owners s)\<^sup>*\<^sup>* h (h\<lparr>hp_streams := {}\<rparr>)"
    using assms heap_of_finite [OF assms(1)] by (intro release_streams) (simp_all add: no_owners_def)
  moreover have "release_step no_owners s (h\<lparr>hp_streams := {}\<rparr>) (all_freed (session_destroy s))"
    using release_session [of "h\<lparr>hp_streams := {}\<rparr>" no_owners s] assms
    by (cases h) (simp add: session_uses_def no_owners_def heap_of_def all_freed_def)
  ultimately show ?thesis by simp
qed

text \<open>A stream in the table and its session keep each other alive, whoever else lets go of them.\<close>

lemma cycle_kept_step:
  assumes "release_step ow s h h'" "hp_session h" "hp_deleted h = []" "a \<in> hp_streams h" "finite (hp_streams h)"
    and "a \<in> snd ` set (ss_streams s)"
  shows "hp_session h' \<and> hp_deleted h' = [] \<and> a \<in> hp_streams h' \<and> finite (hp_streams h')"
  using assms(1)
proof cases
  case (release_stream b)
  with assms stream_uses_table [OF assms(2,6), of ow] show ?thesis by auto
next
  case release_session
  with assms(4,5) show ?thesis by (auto simp: session_uses_def)
qed

lemma cycle_kept:
  assumes "(release_step ow s)\<^sup>*\<^sup>* h h'" "heap_of s h" "a \<in> snd ` set (ss_streams s)"
  shows "hp_session h' \<and> hp_deleted h' = [] \<and> a \<in> hp_streams h' \<and> finite (hp_streams h')"
  using assms(1)
proof (induction rule: rtranclp_induct)
  case base
  with assms(2,3) heap_of_finite show ?case by (auto simp: heap_of_def)
next
  case (step h' h'')
  then show ?case using cycle_kept_step [OF step.hyps(2) _ _ _ _ assms(3)] by blast
qed

text \<open>Nothing is destroyed twice, and no step is possible once everything is gone.\<close>

lemma all_freed_final: "\<not> release_step ow s (all_freed del) h"
  by (auto simp: all_freed_def elim: release_step.cases)

text \<open>
  The order in which pointers go does not matter: whatever has been released so far, with an empty
  table and no owner the rest can still be released, to the same end.
\<close>

lemma release_heap:
  assumes "(release_step no_owners s)\<^sup>*\<^sup>* h h'" "heap_of s h" "ss_streams s = []"
  shows "heap_of s h' \<or> h' = all_freed (session_destroy s)"
  using assms(1)
proof (induction rule: rtranclp_induct)
  case (step h1 h2)
  then have h1: "heap_of s h1" using all_freed_final by metis
  from step.hyps(2) show ?case
  proof cases
    case (release_stream a)
    with h1 assms(3) show ?thesis by (auto simp: heap_of_def)
  next
    case release_session
    with h1 heap_of_finite [OF h1] show ?thesis
      by (cases h1) (auto simp: session_uses_def heap_of_def all_freed_def)
  qed
qed (use assms(2) in simp)

lemma release_all_from:
  assumes "(release_step no_owners s)\<^sup>*\<^sup>* h h'" "heap_of s h" "ss_streams s = []"
  shows "(release_step no_owners s)\<^sup>*\<^sup>* h' (all_freed (session_destroy s))"
  using release_heap [OF assms] release_all [OF _ assms(3)] by auto

section \<open>The sessions of a server\<close>

text \<open>
  The owners of a session of a server: its \<open>run\<close> coroutine, and its request handlers, which let go
  of their stream and of what they made of it when they end. The server itself keeps no pointer.
\<close>

definition server_owners :: "('ng, 'e, 'b, 'c) session_task \<times> nat \<Rightarrow> owners \<Rightarrow> bool" where
  "server_owners x ow \<longleftrightarrow>
     (ow_run ow \<longleftrightarrow> \<not> session_ended (fst x)) \<and> ow_handles ow = 0 \<and>
     (snd x = handlers_of (fst x) \<longrightarrow> (\<forall>a. ow_users ow a = 0))"

lemma server_owners_ended:
  assumes "server_owners x ow" "task_pending x = 0" "snd x \<le> handlers_of (fst x)"
  shows "ow = no_owners"
proof -
  have "session_ended (fst x)" "snd x = handlers_of (fst x)"
    using assms(2,3) by (cases "session_ended (fst x)"; simp add: task_pending_def)+
  with assms(1) show ?thesis by (cases ow) (auto simp: server_owners_def no_owners_def)
qed

lemma pending_count_zero:
  assumes "server_inv K N written room rest cap y" "pending y < 2 ^ 64" "tg_count (sv_group (sy_server y)) = 0"
    and "i < length (sy_tasks y)"
  shows "task_pending (sy_tasks y ! i) = 0"
proof -
  have "pending y = 0"
    using assms(1-3) by (auto simp: server_inv_def word_of_nat_eq_0_iff dest!: dvd_imp_le)
  with assms(4) show ?thesis by (simp add: pending_def)
qed

section \<open>Properties\<close>

text \<open>
  C13. A drained server has freed all its sessions: when the count of the task group is zero, every
  session whose setup succeeded has lost its last owner, the teardown has broken the cycle between
  the session and its streams, and in whatever order the pointers are dropped, all streams and the
  session are destroyed and its nghttp2 session is deleted exactly once.
\<close>

theorem drained_server_frees_sessions:
  assumes "reachable (server_starts K written room rest) (server_step K N written cap) y"
    and "pending y < 2 ^ 64" "tg_count (sv_group (sy_server y)) = 0"
    and "i < length (sy_tasks y)" "sy_tasks y ! i = (t, k)" "t \<noteq> Session_threw" "server_owners (t, k) ow"
  shows "\<exists>c g. t = Session_returned c \<and> ss_native (cn_session c) = Some g \<and>
    (\<forall>h h'. heap_of (cn_session c) h \<longrightarrow> (release_step ow (cn_session c))\<^sup>*\<^sup>* h h' \<longrightarrow>
       (release_step ow (cn_session c))\<^sup>*\<^sup>* h' (all_freed [g]))"
proof -
  note inv = server_reach.inv_reachable [OF assms(1)]
  note task = server_inv_nth [OF inv assms(4,5)]
  have zero: "task_pending (t, k) = 0" using pending_count_zero [OF inv assms(2-4)] assms(5) by simp
  with task assms(6) obtain c where c: "t = Session_returned c" "k \<le> handlers_of t"
    by (cases t) (auto simp: task_pending_def)
  with task have ok: "conn_ok K N written room rest cap (cf_handler (sv_config (sy_server y))) c" "cn_over c"
    by simp_all
  then have "conn_inv K written room rest cap c"
    by (auto simp: conn_ok_def intro: conn_invariant.inv_reachable)
  then obtain g where g: "ss_native (cn_session c) = Some g" by (auto simp: conn_inv_def)
  have "ow = no_owners" using server_owners_ended [OF assms(7) zero] c(2) by simp
  moreover have "ss_streams (cn_session c) = []" using ok by (simp add: conn_ok_def)
  ultimately show ?thesis
    using release_all_from [of "cn_session c"] c(1) g by (auto simp: session_destroy_def)
qed

definition demo_heap :: "unit heap" where
  "demo_heap = \<lparr>hp_session = True, hp_streams = {}, hp_deleted = []\<rparr>"

theorem drained_server_frees_sessions_witness:
  "(release_step no_owners (cn_session (ended_conn Role_server)))\<^sup>*\<^sup>* demo_heap (all_freed [()])"
proof -
  have "server_owners (Session_returned (ended_conn Role_server), 0) no_owners"
    by (simp add: server_owners_def no_owners_def)
  from drained_server_frees_sessions [OF drained_reach(2) _ _ _ _ _ this, of 0]
  have "\<forall>h h'. heap_of (cn_session (ended_conn Role_server)) h \<longrightarrow>
      (release_step no_owners (cn_session (ended_conn Role_server)))\<^sup>*\<^sup>* h h' \<longrightarrow>
      (release_step no_owners (cn_session (ended_conn Role_server)))\<^sup>*\<^sup>* h' (all_freed [()])"
    by (auto simp: drained_def accepting_server_def pending_def task_pending_def ended_eval)
  moreover have "heap_of (cn_session (ended_conn Role_server)) demo_heap"
    by (simp add: heap_of_def demo_heap_def ended_eval)
  ultimately show ?thesis by blast
qed

text \<open>Users take nothing out of the table.\<close>

lemma user_step_keeps:
  "user_step K N written y z \<Longrightarrow> x \<in> set (ss_streams (sy_session y)) \<Longrightarrow> x \<in> set (ss_streams (sy_session z))"
proof (induction rule: user_step.induct)
  case (user_request path cl hs y r s)
  then show ?case by (auto elim!: submit_request_cases simp: emplace_set start_write_def)
next
  case (user_response a y status hs e s)
  then show ?case
    by (auto simp: submit_response_def Let_def start_write_def split: option.splits prod.splits if_splits)
next
  case (user_handle a y h s)
  then show ?case
    by (auto simp: handle_request_def submit_response_def Let_def start_write_def apply_effects_streams
        update_object_def split: option.splits prod.splits if_splits)
qed (simp_all add: stream_result_def apply_effects_streams update_object_def)

lemma table_kept_after_end:
  assumes "(conn_step K N written cap)\<^sup>*\<^sup>* c d" "conn_inv K written room rest cap c" "cn_over c"
    and "x \<in> set (ss_streams (cn_session c))"
  shows "x \<in> set (ss_streams (cn_session d))"
proof -
  from assms(1) have "conn_inv K written room rest cap d \<and> cn_over d \<and> x \<in> set (ss_streams (cn_session d))"
  proof (induction rule: rtranclp_induct)
    case (step d e)
    then show ?case
      using conn_step_over [OF step.hyps(2)] conn_step_inv [OF step.hyps(2)] user_step_keeps by blast
  qed (use assms in blast)
  then show ?thesis by blast
qed

text \<open>
  C36. A request submitted after the end of the session leaks the session: its stream is put into the
  table that was cleared for the last time, and from then on, whatever the connection still does and
  even when every user has let go, the stream and the session hold each other, neither is destroyed,
  and the nghttp2 session is never deleted.
\<close>

theorem late_request_leaks_session:
  assumes "reachable (conn_starts K N written room rest) (conn_step K N written cap) c" "cn_over c"
    and "submit_request K N path cl hs (cn_session c) = Some ((None, Some a), s)"
    and "find_stream (cn_session c) (st_id (ss_objects s ! a)) = None"
    and "(conn_step K N written cap)\<^sup>*\<^sup>* (set_session s c) d"
    and "heap_of (cn_session d) h" "(release_step ow (cn_session d))\<^sup>*\<^sup>* h h'"
  shows "hp_session h' \<and> a \<in> hp_streams h' \<and> hp_deleted h' = []"
proof -
  have "conn_step K N written cap c (set_session s c)"
    using conn_user [OF user_request [of K N path cl hs "cn_sys c" "(None, Some a)" s written]] assms(3)
    by (simp add: set_session_def)
  from conn_step_inv [OF this conn_invariant.inv_reachable [OF assms(1)]]
  have "conn_inv K written room rest cap (set_session s c)" .
  moreover have "(st_id (ss_objects s ! a), a) \<in> set (ss_streams s)"
    using assms(3,4)
    by (auto simp: submit_request_def find_stream_def emplace_set start_write_def update_object_def
        set_id_def Let_def split: if_splits option.splits prod.splits)
  ultimately have "(st_id (ss_objects s ! a), a) \<in> set (ss_streams (cn_session d))"
    using table_kept_after_end [OF assms(5)] assms(2) by (simp add: set_session_def)
  then have "a \<in> snd ` set (ss_streams (cn_session d))" by force
  from cycle_kept [OF assms(7,6) this] show ?thesis by blast
qed

theorem late_request_leaks_session_witness:
  "\<exists>s. submit_request flat_capy ended_ng ''/'' None [] (cn_session (ended_conn Role_client)) = Some ((None, Some 0), s) \<and>
     \<not> (release_step no_owners s)\<^sup>*\<^sup>* \<lparr>hp_session = True, hp_streams = {0}, hp_deleted = []\<rparr> (all_freed [()])"
proof -
  let ?c = "ended_conn Role_client" and ?h = "\<lparr>hp_session = True, hp_streams = {0}, hp_deleted = []\<rparr> :: unit heap"
  obtain s where s: "submit_request flat_capy ended_ng ''/'' None [] (cn_session ?c) = Some ((None, Some 0), s)"
    by (simp add: submit_request_def ended_eval Let_def)
  have "cn_over ?c" "find_stream (cn_session ?c) sid = None" for sid
    by (simp_all add: ended_eval find_stream_def)
  moreover have "heap_of (cn_session (set_session s ?c)) ?h"
    using s by (auto simp: submit_request_def heap_of_def emplace_def start_write_def update_object_def ended_eval Let_def)
  ultimately have "\<not> (release_step no_owners (cn_session (set_session s ?c)))\<^sup>*\<^sup>* ?h (all_freed [()])"
    using late_request_leaks_session [OF ended_conn_reach _ s _ rtranclp.rtrancl_refl, of ?h no_owners "all_freed [()]"]
    by (auto simp: all_freed_def)
  with s show ?thesis by (auto simp: set_session_def)
qed

end
