(* ===== verification/Session_Ending.thy ===== *)
theory Session_Ending
  imports Session_Lifetime
begin

text \<open>
  The end of a session: when the receive loop has ended, because the connection broke, the peer sent
  garbage or the library wants nothing more, it asks nghttp2 to terminate the session and wakes the
  send loop, which is to send what is left and end too, so that \<open>run\<close> can return. Of nghttp2 this uses
  what the documentation of \<open>nghttp2_session_terminate_session\<close> promises: once the final GOAWAY frame
  has been sent, the library wants neither to read nor to write. The number of steps the send loop
  still takes is then bounded by the bytes the library still produces.
\<close>

section \<open>Termination of the library session\<close>

text \<open>
  \<open>T\<close> says of a library session that it is being terminated. A call keeps it through all its
  callbacks; a call of \<open>nghttp2_session_mem_send2\<close> that has nothing to send leaves a session that
  wants nothing.
\<close>

primrec call_keeps :: "('ng \<Rightarrow> bool) \<Rightarrow> ('r \<Rightarrow> 'ng \<Rightarrow> bool) \<Rightarrow> ('ng, 'r) ng_call \<Rightarrow> bool" where
  "call_keeps T Q (Ng_return r g) \<longleftrightarrow> T g \<and> Q r g"
| "call_keeps T Q (Ng_callback cb g k) \<longleftrightarrow> T g \<and> (\<forall>g' rep. T g' \<longrightarrow> call_keeps T Q (k g' rep))"

definition wants_nothing :: "'ng nghttp2 \<Rightarrow> 'ng \<Rightarrow> bool" where
  "wants_nothing N g \<longleftrightarrow> \<not> ng_want_read N g \<and> \<not> ng_want_write N g"

definition termination_ok :: "'ng nghttp2 \<Rightarrow> ('ng \<Rightarrow> bool) \<Rightarrow> bool" where
  "termination_ok N T \<longleftrightarrow>
     (\<forall>g c. T (ng_terminate_session N g c)) \<and>
     (\<forall>g. T g \<longrightarrow> call_keeps T (\<lambda>r g. r = Inr [] \<longrightarrow> wants_nothing N g) (ng_mem_send2 N g)) \<and>
     (\<forall>g n. T g \<longrightarrow> T (ng_consume_connection N g n)) \<and>
     (\<forall>g sid n. T g \<longrightarrow> T (ng_consume_stream N g sid n)) \<and>
     (\<forall>g sid. T g \<longrightarrow> T (ng_resume_data N g sid)) \<and>
     (\<forall>g sid nva a. T g \<longrightarrow> T (snd (ng_submit_response2 N g sid nva a))) \<and>
     (\<forall>g nva a. T g \<longrightarrow> T (snd (ng_submit_request2 N g nva a)))"

lemma termination_okD:
  assumes "termination_ok N T"
  shows "T (ng_terminate_session N g c)"
    "T g \<Longrightarrow> call_keeps T (\<lambda>r g. r = Inr [] \<longrightarrow> wants_nothing N g) (ng_mem_send2 N g)"
    "T g \<Longrightarrow> T (ng_consume_connection N g n)" "T g \<Longrightarrow> T (ng_consume_stream N g sid n)"
    "T g \<Longrightarrow> T (ng_resume_data N g sid)"
    "T g \<Longrightarrow> T (snd (ng_submit_response2 N g sid nva a))" "T g \<Longrightarrow> T (snd (ng_submit_request2 N g nva a))"
  using assms by (simp_all add: termination_ok_def)

definition terminating :: "('ng \<Rightarrow> bool) \<Rightarrow> ('ng, 'e, 'b, 'c) session \<Rightarrow> bool" where
  "terminating T s \<longleftrightarrow> (\<exists>g. ss_native s = Some g \<and> T g)"

lemma terminating_frame [simp]:
  "terminating T (start_write K s) = terminating T s"
  "terminating T (update_object a u s) = terminating T s"
  "terminating T (dispatch_request a s) = terminating T s"
  "terminating T (s\<lparr>ss_streams := m\<rparr>) = terminating T s"
  "terminating T (s\<lparr>ss_objects := os\<rparr>) = terminating T s"
  "terminating T (s\<lparr>ss_write_ready := e\<rparr>) = terminating T s"
  "terminating T (s\<lparr>ss_native := Some g\<rparr>) = T g"
  by (simp_all add: terminating_def start_write_def update_object_def dispatch_request_def)

lemma terminating_with_stream [simp]: "terminating T (with_stream sid u s) = terminating T s"
  by (simp add: with_stream_def split: option.split)

lemma terminating_with_native:
  "terminating T s \<Longrightarrow> (\<And>g. T g \<Longrightarrow> T (f g)) \<Longrightarrow> terminating T (with_native f s)"
  by (auto simp: terminating_def with_native_def)

section \<open>Every operation keeps it\<close>

lemma run_callback_terminating:
  assumes "termination_ok N T" "terminating T s"
  shows "terminating T (snd (run_callback K N cb s))"
proof (cases cb)
  case (Cb_begin_headers f)
  with assms(2) show ?thesis
    by (simp add: on_begin_headers_callback_def create_stream_def terminating_def Let_def)
next
  case (Cb_data_chunk_recv sid data)
  with assms terminating_with_native [OF assms(2)] termination_okD(3) [OF assms(1)] show ?thesis
    by (simp add: on_data_chunk_recv_callback_def)
qed (use assms(2) in \<open>auto simp: on_header_callback_field on_frame_recv_callback_def
    on_stream_close_callback_def close_stream_def data_source_read_callback_def Let_def
    split: option.split prod.split\<close>)

lemma run_ng_call_terminating:
  assumes "termination_ok N T" "call_keeps T Q call" "run_ng_call K N call s = (r, t)"
  shows "terminating T t \<and> (\<exists>g. ss_native t = Some g \<and> Q r g)"
  using assms(2,3)
proof (induction "call" arbitrary: s)
  case (Ng_return r' g)
  then show ?case by (auto simp: terminating_def)
next
  case (Ng_callback cb g k)
  obtain rep s1 where cb: "run_callback K N cb (s\<lparr>ss_native := Some g\<rparr>) = (rep, s1)" by fastforce
  have "terminating T s1"
    using run_callback_terminating [OF assms(1), of "s\<lparr>ss_native := Some g\<rparr>" K cb] Ng_callback.prems(1) cb by simp
  then obtain g1 where g1: "ss_native s1 = Some g1" "T g1" by (auto simp: terminating_def)
  then have "call_keeps T Q (k g1 rep)" using Ng_callback.prems(1) by simp
  from Ng_callback.IH [OF rangeI rangeI this, of s1] Ng_callback.prems(2) cb g1(1) show ?case by simp
qed

lemma apply_effects_terminating:
  assumes "termination_ok N T" "terminating T s"
  shows "terminating T (apply_effects K N es s)"
  using assms(2)
proof (induction es arbitrary: s)
  case (Cons e es)
  have "terminating T (apply_effect K N e s)"
    using Cons.prems termination_okD [OF assms(1)] by (cases e) (simp_all add: terminating_with_native)
  from Cons.IH [OF this] show ?case by (simp add: apply_effects_def)
qed (simp add: apply_effects_def)

lemma submit_response_terminating:
  assumes "termination_ok N T" "terminating T s" "submit_response K N a status hs s = Some (e, t)"
  shows "terminating T t"
proof -
  from assms(2) obtain g where g: "ss_native s = Some g" "T g" by (auto simp: terminating_def)
  obtain rv g1 where r: "ng_submit_response2 N g (st_id (ss_objects s ! a)) (response_nva status hs) a = (rv, g1)"
    by fastforce
  have "T g1" using termination_okD(6) [OF assms(1) g(2)] r by (metis snd_conv)
  with assms(3) g(1) r show ?thesis by (auto simp: submit_response_def Let_def split: if_splits)
qed

lemma submit_request_terminating:
  assumes "termination_ok N T" "terminating T s" "submit_request K N path cl hs s = Some (r, t)"
  shows "terminating T t"
proof (cases "ss_role s = Role_client")
  case True
  from assms(2) obtain g where g: "ss_native s = Some g" "T g" by (auto simp: terminating_def)
  obtain sid g1 where c: "ng_submit_request2 N g (request_nva path cl hs) (length (ss_objects s)) = (sid, g1)"
    by fastforce
  have "T g1" using termination_okD(7) [OF assms(1) g(2)] c by (metis snd_conv)
  with assms(3) g(1) c True show ?thesis by (auto simp: submit_request_def Let_def split: if_splits)
qed (use assms in \<open>simp add: submit_request_def\<close>)

lemma stream_result_terminating:
  assumes "termination_ok N T" "terminating T s"
  shows "terminating T (stream_result K N a st effs s)"
  unfolding stream_result_def by (rule apply_effects_terminating [OF assms(1)]) (simp add: assms(2))

lemma user_step_terminating:
  "user_step K N written y z \<Longrightarrow> termination_ok N T \<Longrightarrow> terminating T (sy_session y) \<Longrightarrow> terminating T (sy_session z)"
proof (induction rule: user_step.induct)
  case (user_request path cl hs y r s)
  then show ?case by (auto intro: submit_request_terminating)
next
  case (user_response a y status hs e s)
  then show ?case by (auto intro: submit_response_terminating)
next
  case (user_handle a y h s)
  from user_handle.hyps(3) show ?case
    by (cases rule: handle_request_result)
      (use user_handle.prems in \<open>auto intro: submit_response_terminating stream_result_terminating\<close>)
qed (simp_all add: stream_result_terminating)

section \<open>The loops at the end\<close>

text \<open>The send loop does not go to sleep on a session that is being terminated.\<close>

lemma send_iteration_terminating:
  assumes "termination_ok N T" "terminating T s" "send_iteration K N cap pending s = Some (r, st, t)"
  shows "terminating T t \<and> st \<noteq> Send_waiting"
proof -
  from assms(2) obtain g where g: "ss_native s = Some g" "T g" by (auto simp: terminating_def)
  obtain x s1 where c: "run_ng_call K N (ng_mem_send2 N g) s = (x, s1)" by fastforce
  from run_ng_call_terminating [OF assms(1) termination_okD(2) [OF assms(1) g(2)] c] obtain g1 where
    s1: "terminating T s1" "ss_native s1 = Some g1" "x = Inr [] \<Longrightarrow> wants_nothing N g1" by auto
  from assms(3) show ?thesis
    unfolding send_iteration_def g(1) option.case c prod.case
    using s1 by (auto simp: wants_nothing_def split: sum.splits if_splits)
qed

lemma recv_finish_terminating:
  assumes "termination_ok N T" "ss_native s \<noteq> None"
  shows "terminating T (recv_finish K N s)"
  using assms(2) termination_okD(1) [OF assms(1)] by (auto simp: recv_finish_def terminating_def with_native_def)

lemma recv_finish_poked: "event_ok K \<Longrightarrow> poked K (recv_finish K N s)"
  by (simp add: recv_finish_def)

text \<open>However the receive loop ends, it ends with \<open>recv_finish\<close>.\<close>

lemma recv_check_done: "recv_check K N s = Some (Recv_done, t) \<Longrightarrow> t = recv_finish K N s \<and> ss_native s \<noteq> None"
  by (auto simp: recv_check_def split: option.splits if_splits)

lemma recv_resume_done:
  assumes "recv_resume K N e bytes s = Some (Recv_done, t)" "ss_native s \<noteq> None"
  shows "\<exists>u. t = recv_finish K N u \<and> ss_native u \<noteq> None"
proof (cases "e = None")
  case True
  from assms(2) obtain g where g: "ss_native s = Some g" by blast
  obtain rv s1 where c: "run_ng_call K N (ng_mem_recv2 N g bytes) s = (rv, s1)" by fastforce
  have "ss_native s1 \<noteq> None"
    using call_native.rel_call [where K = K and N = N and call = "ng_mem_recv2 N g bytes" and s = s] c by simp
  with assms(1) True g c show ?thesis
    by (auto simp: recv_resume_def with_native_def split: if_splits dest!: recv_check_done intro!: exI)
qed (use assms in \<open>auto simp: recv_resume_def\<close>)

definition ending_inv ::
  "('e, 'b, 'c) capy \<Rightarrow> ('ng \<Rightarrow> bool) \<Rightarrow> ('ng, 'e, 'b, 'c) connection \<Rightarrow> bool" where
  "ending_inv K T c \<longleftrightarrow>
     (cn_recv c = Recv_done \<longrightarrow>
        terminating T (cn_session c) \<and> (cn_send c = Send_waiting \<longrightarrow> poked K (cn_session c)))"

lemma ending_step:
  assumes "conn_step K N written cap c d" "termination_ok N T" "conn_inv K written room rest cap c" "ending_inv K T c"
  shows "ending_inv K T d"
proof -
  have K: "event_ok K" and native: "ss_native (cn_session c) \<noteq> None"
    using assms(3) by (auto simp: conn_inv_def session_sys_inv_def library_ok_def)
  from assms(1) show ?thesis
  proof cases
    case (conn_send pending r st s)
    with assms(4) send_iteration_terminating [OF assms(2) _ conn_send(3)] show ?thesis
      by (auto simp: ending_inv_def set_session_def)
  next
    case (conn_recv_start st s)
    with recv_finish_terminating [OF assms(2) native] recv_finish_poked [OF K] show ?thesis
      by (auto simp: ending_inv_def set_session_def dest!: recv_check_done)
  next
    case (conn_recv bytes e st s)
    show ?thesis
    proof (cases "st = Recv_done")
      case True
      from recv_resume_done [OF conn_recv(4) [unfolded True] native] obtain u where
        "s = recv_finish K N u" "ss_native u \<noteq> None" by blast
      with recv_finish_terminating [OF assms(2), of u K] recv_finish_poked [OF K, of N u] conn_recv(1) show ?thesis
        by (simp add: ending_inv_def set_session_def)
    qed (use conn_recv(1) in \<open>simp add: ending_inv_def\<close>)
  next
    case (conn_user y)
    with assms(4) user_step_terminating [OF conn_user(2) assms(2)] user_step_poked [OF conn_user(2) K] show ?thesis
      by (auto simp: ending_inv_def)
  next
    case conn_teardown
    have "terminating T (run_teardown K (cn_session c)) = terminating T (cn_session c)"
      by (simp add: terminating_def run_teardown_native)
    with assms(4) conn_teardown show ?thesis by (auto simp: ending_inv_def set_session_def)
  qed (use assms(4) in \<open>auto simp: ending_inv_def send_written_def send_resume_def\<close>)
qed

lemma ending_reachable:
  assumes "termination_ok N T" "reachable (conn_starts K N written room rest) (conn_step K N written cap) c"
  shows "ending_inv K T c"
  using assms(2)
proof (induction rule: reachable.induct)
  case (reachable_init c)
  then show ?case by (auto simp: conn_starts_def ending_inv_def)
next
  case (reachable_step c d)
  then show ?case using ending_step [OF _ assms(1) conn_invariant.inv_reachable] by blast
qed

section \<open>How much the send loop still does\<close>

text \<open>The steps of the send loop itself; a wait of its own ends only because the event is set.\<close>

inductive send_step ::
  "('e, 'b, 'c) capy \<Rightarrow> 'ng nghttp2 \<Rightarrow> nat \<Rightarrow> ('ng, 'e, 'b, 'c) connection \<Rightarrow> ('ng, 'e, 'b, 'c) connection \<Rightarrow> bool"
  for K N cap where
  send_asks:
    "cn_send c = Send_top pending \<Longrightarrow> send_iteration K N cap pending (cn_session c) = Some (r, st, s) \<Longrightarrow>
     send_step K N cap c ((set_session s c)\<lparr>cn_send := st, cn_produced := cn_produced c @ produced r\<rparr>)"
| send_wrote:
    "cn_send c = Send_writing bytes \<Longrightarrow> n \<le> length bytes \<Longrightarrow> (e = None \<Longrightarrow> n = length bytes) \<Longrightarrow>
     send_step K N cap c (c\<lparr>cn_send := send_written e, cn_wire := cn_wire c @ take n bytes\<rparr>)"
| send_woke:
    "cn_send c = Send_waiting \<Longrightarrow> may_resume K e (ss_write_ready (cn_session c)) \<Longrightarrow>
     send_step K N cap c (c\<lparr>cn_send := send_resume e\<rparr>)"

text \<open>\<open>n\<close> of them, among any number of steps of everybody else.\<close>

inductive send_steps ::
  "('e, 'b, 'c) capy \<Rightarrow> 'ng nghttp2 \<Rightarrow> ('b \<Rightarrow> byte list) \<Rightarrow> nat
    \<Rightarrow> nat \<Rightarrow> ('ng, 'e, 'b, 'c) connection \<Rightarrow> ('ng, 'e, 'b, 'c) connection \<Rightarrow> bool"
  for K N written cap where
  send_steps_none: "send_steps K N written cap 0 c c"
| send_steps_other:
    "send_steps K N written cap n c d \<Longrightarrow> conn_step K N written cap d e \<Longrightarrow> cn_send e = cn_send d \<Longrightarrow>
     cn_produced e = cn_produced d \<Longrightarrow> send_steps K N written cap n c e"
| send_steps_own:
    "send_steps K N written cap n c d \<Longrightarrow> send_step K N cap d e \<Longrightarrow> send_steps K N written cap (Suc n) c e"

lemma send_step_conn: "send_step K N cap c d \<Longrightarrow> conn_step K N written cap c d"
  by (induction rule: send_step.induct) (auto intro: conn_step.intros)

lemma send_steps_conn: "send_steps K N written cap n c d \<Longrightarrow> (conn_step K N written cap)\<^sup>*\<^sup>* c d"
  by (induction rule: send_steps.induct) (auto intro: rtranclp.rtrancl_into_rtrancl send_step_conn)

text \<open>What the loop may do before it needs new bytes from the library.\<close>

fun send_rank :: "send_state \<Rightarrow> nat" where
  "send_rank (Send_top pending) = (if pending = [] then 1 else 3)"
| "send_rank (Send_writing bytes) = 2"
| "send_rank Send_waiting = 2"
| "send_rank Send_done = 0"

text \<open>Every step is paid for by the rank or by bytes the library has produced, three steps a byte.\<close>

lemma send_step_pays:
  assumes "send_step K N cap c d" "termination_ok N T" "terminating T (cn_session c)"
  shows "Suc (send_rank (cn_send d)) + 3 * length (cn_produced c) \<le> send_rank (cn_send c) + 3 * length (cn_produced d)"
  using assms(1)
proof cases
  case (send_asks pending r st s)
  have "st \<noteq> Send_waiting" using send_iteration_terminating [OF assms(2,3) send_asks(3)] by blast
  with send_asks(3) show ?thesis
  proof (cases rule: send_iteration_cases)
    case (buffered data)
    then show ?thesis using send_asks(1,2) by (cases data) (auto simp: set_session_def)
  next
    case (writing data)
    then show ?thesis using send_asks(1,2) by (cases data) (auto simp: set_session_def)
  qed (use send_asks(1,2) in \<open>auto simp: set_session_def\<close>)
qed (auto simp: send_written_def send_resume_def)

lemma recv_done_stays:
  "conn_step K N written cap c d \<Longrightarrow> cn_recv c = Recv_done \<Longrightarrow> cn_recv d = Recv_done"
  by (induction rule: conn_step.induct) (auto simp: set_session_def)

lemma send_steps_pay:
  assumes "send_steps K N written cap n c d" "termination_ok N T" "cn_recv c = Recv_done"
    and "reachable (conn_starts K N written room rest) (conn_step K N written cap) c"
  shows "n + send_rank (cn_send d) + 3 * length (cn_produced c) \<le> send_rank (cn_send c) + 3 * length (cn_produced d) \<and>
    cn_recv d = Recv_done \<and> reachable (conn_starts K N written room rest) (conn_step K N written cap) d"
  using assms
proof (induction rule: send_steps.induct)
  case (send_steps_other n c d e)
  then show ?case by (auto intro: reachable_step recv_done_stays)
next
  case (send_steps_own n c d e)
  then have d: "n + send_rank (cn_send d) + 3 * length (cn_produced c) \<le> send_rank (cn_send c) + 3 * length (cn_produced d)"
    "cn_recv d = Recv_done" "reachable (conn_starts K N written room rest) (conn_step K N written cap) d" by blast+
  have "terminating T (cn_session d)"
    using ending_reachable [OF send_steps_own.prems(1) d(3)] d(2) by (simp add: ending_inv_def)
  from send_step_pays [OF send_steps_own.hyps(2) send_steps_own.prems(1) this] d
    send_step_conn [OF send_steps_own.hyps(2)] show ?case by (auto intro: reachable_step recv_done_stays)
qed simp

lemma send_iteration_runs:
  "ss_native s \<noteq> None \<Longrightarrow> \<exists>r st t. send_iteration K N cap pending s = Some (r, st, t)"
  using call_native.rel_call [where K = K and N = N and call = "ng_mem_send2 N (the (ss_native s))" and s = s]
  by (auto simp: send_iteration_def split: option.splits prod.splits sum.splits)

section \<open>Properties\<close>

text \<open>
  C25. The send loop ends after the receive loop: once the receive loop has ended, for whatever reason, the
  send loop takes, whatever everybody else does, at most three steps for every byte that nghttp2
  still produces and three more, and as long as it has not ended it can take its next step without
  being cancelled: it never waits for an event that is not set. So when the connection is lost, \<open>run\<close>
  gets to its teardown as soon as nghttp2 has nothing more to say and the transport has answered. That
  the waiter of a set event is resumed is up to the scheduler: a comment in \<open>session_impl.hpp\<close> reports
  that this very wakeup has gone unanswered, which then has its cause outside of the program.
\<close>

theorem send_loop_ends_after_recv_loop:
  assumes "termination_ok N T"
    and "reachable (conn_starts K N written room rest) (conn_step K N written cap) c" "cn_recv c = Recv_done"
    and "send_steps K N written cap n c d"
  shows "n \<le> 3 * (length (cn_produced d) - length (cn_produced c)) + 3 \<and>
    (case cn_send d of
       Send_top pending \<Rightarrow> \<exists>r st s. send_iteration K N cap pending (cn_session d) = Some (r, st, s) \<and> st \<noteq> Send_waiting
     | Send_waiting \<Rightarrow> may_resume K None (ss_write_ready (cn_session d))
     | _ \<Rightarrow> True)"
proof -
  from send_steps_pay [OF assms(4,1,3,2)] have
    d: "n + send_rank (cn_send d) + 3 * length (cn_produced c) \<le> send_rank (cn_send c) + 3 * length (cn_produced d)"
      "cn_recv d = Recv_done" "reachable (conn_starts K N written room rest) (conn_step K N written cap) d" by blast+
  have "send_rank (cn_send c) \<le> 3" by (cases "cn_send c") simp_all
  with d(1) have "n \<le> 3 * (length (cn_produced d) - length (cn_produced c)) + 3" by simp
  moreover have t: "terminating T (cn_session d)" "cn_send d = Send_waiting \<longrightarrow> poked K (cn_session d)"
    using ending_reachable [OF assms(1) d(3)] d(2) by (simp_all add: ending_inv_def)
  moreover have "\<exists>r st s. send_iteration K N cap pending (cn_session d) = Some (r, st, s) \<and> st \<noteq> Send_waiting" for pending
  proof -
    have "ss_native (cn_session d) \<noteq> None" using t(1) by (auto simp: terminating_def)
    from send_iteration_runs [OF this, of K N cap pending] send_iteration_terminating [OF assms(1) t(1)]
    show ?thesis by blast
  qed
  ultimately show ?thesis by (simp add: may_resume_def poked_def split: send_state.split)
qed

definition lost_conn :: demo_connection where
  "lost_conn = (set_session (ended_session Role_server) (idle_conn Role_server))\<lparr>cn_recv := Recv_done\<rparr>"

theorem send_loop_ends_after_recv_loop_witness:
  "\<exists>r st s. send_iteration flat_capy ended_ng 1460 [] (cn_session lost_conn) = Some (r, st, s) \<and> st \<noteq> Send_waiting"
proof -
  have ok: "termination_ok ended_ng (\<lambda>_. True)"
    by (simp add: termination_ok_def wants_nothing_def ended_ng_def demo_ng_def)
  have "conn_step flat_capy ended_ng fst 1460 (idle_conn Role_server) lost_conn"
    using conn_recv_start [of "idle_conn Role_server" flat_capy ended_ng Recv_done "ended_session Role_server" fst 1460]
    by (simp add: lost_conn_def ended_eval recv_check_def recv_finish_def start_write_def with_native_def flat_capy_def)
  then have reach: "ended_reach lost_conn"
    by (rule reachable_step [OF reachable_init, rotated])
      (auto simp: conn_starts_def flat_capy_ok idle_conn_def run_setup_def ended_ng_def demo_ng_def
        intro!: exI [of _ Role_server] exI [of _ False])
  have "cn_recv lost_conn = Recv_done" "cn_send lost_conn = Send_top []"
    by (simp_all add: lost_conn_def ended_eval)
  with send_loop_ends_after_recv_loop [OF ok reach _ send_steps_none] show ?thesis by simp
qed

end
