(* ===== verification/Session_Closure.thy ===== *)
theory Session_Closure
  imports Session_Lifetime
begin

text \<open>
  Nobody is left waiting. The teardown of \<open>run\<close> closes what is in the stream table; this theory
  shows that this is enough. Every stream a session has ever opened is in the table under its
  identifier or has been closed, and closing is final: the events a closed stream's reader and writer
  wait for stay set. So when \<open>run\<close> of a server's session has returned, no coroutine of a handler can
  hang on one of its streams.
\<close>

section \<open>Closed streams\<close>

text \<open>The reader and the writer of a closed stream can resume.\<close>

definition closed_awake :: "('e, 'b, 'c) capy \<Rightarrow> ('e, 'b, 'c) stream \<Rightarrow> bool" where
  "closed_awake K st \<longleftrightarrow>
     (st_closed st \<longrightarrow> ev_is_set K (st_read_ready st) \<and> ev_is_set K (st_write_progress st))"

text \<open>What no operation on a stream takes back.\<close>

definition keeps_closed :: "('e, 'b, 'c) capy \<Rightarrow> ('e, 'b, 'c) stream \<Rightarrow> ('e, 'b, 'c) stream \<Rightarrow> bool" where
  "keeps_closed K st st' \<longleftrightarrow> (st_closed st \<longrightarrow> st_closed st') \<and> (closed_awake K st \<longrightarrow> closed_awake K st')"

lemmas closed_defs = keeps_closed_def closed_awake_def event_ok_def

lemma keeps_closed_refl [simp]: "keeps_closed K st st"
  by (simp add: keeps_closed_def)

lemma keeps_closed_callbacks:
  assumes "event_ok K"
  shows "keeps_closed K st (header_field K name val st)" "keeps_closed K st (on_data K d st)"
    "keeps_closed K st (on_read_eof K st)" "keeps_closed K st (on_close K st)" "st_closed (on_close K st)"
    "keeps_closed K st (snd (snd (producer_callback K len st)))"
  using assms
  by (auto simp: closed_defs header_field_def set_path_def set_status_def set_content_length_def add_header_def
      on_data_def on_read_eof_def on_close_def producer_callback_def Let_def split: option.split prod.split)

lemma keeps_closed_coroutine:
  assumes "coroutine_result K st st'"
  shows "keeps_closed K st st'"
  using assms unfolding coroutine_result_def
  by (auto simp: closed_defs read_some_def read_some_resume_def read_park_def write_impl_def write_impl_resume_def
      status_co_def Let_def split: if_splits option.splits prod.splits)

section \<open>Sessions\<close>

definition settled :: "('e, 'b, 'c) capy \<Rightarrow> ('ng, 'e, 'b, 'c) session \<Rightarrow> addr \<Rightarrow> bool" where
  "settled K s a \<longleftrightarrow>
     (let st = ss_objects s ! a
      in (st_id st = 0 \<or> find_stream s (st_id st) = Some a \<or> st_closed st) \<and> closed_awake K st)"

lemma settledI:
  assumes "settled K s a" "keeps_closed K (ss_objects s ! a) (ss_objects t ! a)"
    and "st_id (ss_objects t ! a) = st_id (ss_objects s ! a)"
    and "find_stream s (st_id (ss_objects s ! a)) = Some a \<Longrightarrow>
      find_stream t (st_id (ss_objects s ! a)) = Some a \<or> st_closed (ss_objects t ! a)"
  shows "settled K t a"
  using assms by (auto simp: settled_def keeps_closed_def Let_def)

lemma settled_frame:
  "settled K s a \<Longrightarrow> ss_objects t ! a = ss_objects s ! a \<Longrightarrow> find_stream t = find_stream s \<Longrightarrow> settled K t a"
  by (simp add: settled_def)

text \<open>A new stream is in the table, or has the placeholder identifier.\<close>

lemma settled_new:
  assumes "\<not> st_closed (ss_objects t ! a)"
    and "st_id (ss_objects t ! a) \<noteq> 0 \<Longrightarrow> find_stream t (st_id (ss_objects t ! a)) = Some a"
  shows "settled K t a"
  using assms by (auto simp: settled_def closed_awake_def Let_def)

lemma new_stream_fields [simp]: "\<not> st_closed (new_stream K i p)" "st_id (new_stream K i p) = i"
  "st_id (set_id lp j st) = j" "st_closed (set_id lp j st) = st_closed st"
  by (simp_all add: new_stream_def set_id_def)

lemma run_callback_keeps_closed:
  assumes "event_ok K" "session_inv s" "a < length (ss_objects s)"
  shows "keeps_closed K (ss_objects s ! a) (ss_objects (snd (run_callback K N cb s)) ! a)"
proof (cases cb)
  case (Cb_begin_headers f)
  with assms(3) show ?thesis by (simp add: on_begin_headers_callback_def create_stream_object)
next
  case (Cb_header f name val)
  then show ?thesis
    by (simp add: on_header_callback_field object_with_stream [OF assms(2)] keeps_closed_callbacks [OF assms(1)])
next
  case (Cb_frame_recv f)
  then show ?thesis by (simp add: on_frame_recv_object [OF assms(2)] keeps_closed_callbacks [OF assms(1)])
next
  case (Cb_data_chunk_recv j d)
  with assms(2) show ?thesis
    by (simp add: on_data_chunk_recv_callback_def object_with_stream keeps_closed_callbacks [OF assms(1)])
next
  case (Cb_stream_close j e)
  then show ?thesis
    by (simp add: on_stream_close_callback_def close_stream_object [OF assms(2)] keeps_closed_callbacks [OF assms(1)])
next
  case (Cb_data_source_read b len)
  with assms(3) show ?thesis by (simp add: data_source_object keeps_closed_callbacks [OF assms(1)])
qed simp_all

lemma run_callback_settled:
  assumes "event_ok K" "session_inv s" "a < length (ss_objects s)" "settled K s a"
  shows "settled K (snd (run_callback K N cb s)) a"
proof (rule settledI [OF assms(4) run_callback_keeps_closed [OF assms(1-3)]])
  let ?t = "snd (run_callback K N cb s)" and ?sid = "st_id (ss_objects s ! a)"
  have "ids ?t = ids s @ begun_id cb" by (rule run_callback_ids)
  then have "ids ?t ! a = ids s ! a" "a < length (ids ?t)" using assms(3) by (simp_all add: nth_append length_ids)
  with assms(3) show "st_id (ss_objects ?t ! a) = ?sid" by (simp add: ids_nth length_ids)
  assume reg: "find_stream s ?sid = Some a"
  show "find_stream ?t ?sid = Some a \<or> st_closed (ss_objects ?t ! a)"
  proof (cases "closes ?sid cb")
    case True
    then obtain e where "cb = Cb_stream_close ?sid e" by (auto simp: closes_def split: callback.splits)
    with reg show ?thesis
      by (simp add: on_stream_close_callback_def close_stream_object [OF assms(2)] on_close_def)
  qed (use run_callback_find_stream [OF reg] in blast)
qed

section \<open>The invariant\<close>

text \<open>
  A server's session opens streams for the requests that come in only, so none of its streams has
  the placeholder identifier, and nothing is added to the table once \<open>run\<close> has emptied it.
\<close>

definition closure_inv :: "('e, 'b, 'c) capy \<Rightarrow> ('ng, 'e, 'b, 'c) lifetime \<Rightarrow> bool" where
  "closure_inv K x \<longleftrightarrow>
     (let s = lf_session x in
      lifetime_inv x \<and> (\<forall>a < length (ss_objects s). settled K s a) \<and>
      (ss_role s = Role_server \<longrightarrow> 0 \<notin> set (ids s) \<and> (lf_over x \<longrightarrow> ss_streams s = [])))"

lemma closure_inv_frame:
  assumes "closure_inv K x" "lifetime_inv y" "ss_objects (lf_session y) = ss_objects (lf_session x)"
    "ss_streams (lf_session y) = ss_streams (lf_session x)" "ss_role (lf_session y) = ss_role (lf_session x)"
    "lf_over y = lf_over x"
  shows "closure_inv K y"
  using assms by (simp add: closure_inv_def settled_def find_stream_def ids_def Let_def)

lemma update_object_fields:
  "ss_role (update_object a u s) = ss_role s" "ss_streams (update_object a u s) = ss_streams s"
  "ss_role (with_stream sid u s) = ss_role s"
  by (simp_all add: update_object_def with_stream_def split: option.split)

lemma run_callback_role: "ss_role (snd (run_callback K N cb s)) = ss_role s"
  by (cases cb)
    (auto simp: on_begin_headers_callback_def create_stream_def Let_def on_header_callback_field update_object_fields
      on_data_chunk_recv_callback_def with_native_def on_stream_close_callback_def close_stream_def
      data_source_read_callback_def on_frame_recv_callback_def dispatch_request_def split: option.splits prod.splits)

lemma apply_effects_fields:
  "ss_role (apply_effects K N es s) = ss_role s" "ss_streams (apply_effects K N es s) = ss_streams s"
proof -
  have "ss_role (apply_effect K N e s) = ss_role s \<and> ss_streams (apply_effect K N e s) = ss_streams s" for e s
    by (cases e) (simp_all add: with_native_def start_write_def)
  then show "ss_role (apply_effects K N es s) = ss_role s" "ss_streams (apply_effects K N es s) = ss_streams s"
    by (induction es arbitrary: s) (simp_all add: apply_effects_def)
qed

lemma closure_inv_callback:
  assumes "event_ok K" "closure_inv K x" "callback_allowed x cb"
    and t_def: "t = snd (run_callback K N cb ((lf_session x)\<lparr>ss_native := Some g\<rparr>))"
  shows "closure_inv K (lf_callback cb (x\<lparr>lf_session := t\<rparr>))"
proof -
  let ?s = "(lf_session x)\<lparr>ss_native := Some g\<rparr>"
  have life: "lifetime_inv x" and over: "\<not> lf_over x"
    using assms(2,3) by (simp_all add: closure_inv_def callback_allowed_def Let_def)
  then have inv: "session_inv ?s" by (simp add: lifetime_inv_def Let_def)
  have ids: "ids t = ids (lf_session x) @ begun_id cb" by (simp add: t_def run_callback_ids)
  have begun: "i \<noteq> 0 \<and> i \<notin> lf_used x" if "i \<in> set (begun_id cb)" for i
    using assms(3) that by (auto simp: callback_allowed_def split: callback.splits if_splits)
  have "settled K t a" if a: "a < length (ss_objects t)" for a
  proof (cases "a < length (ss_objects ?s)")
    case True
    then have "settled K ?s a" using assms(2) by (simp add: closure_inv_def settled_def find_stream_def Let_def)
    from run_callback_settled [OF assms(1) inv True this] show ?thesis by (simp add: t_def)
  next
    case False
    have "length (ids t) = length (ids ?s) + length (begun_id cb)" using ids by simp
    with False a obtain f where f: "cb = Cb_begin_headers f" "is_request_headers f" "a = length (ss_objects ?s)"
      by (cases cb) (auto simp: length_ids split: if_splits)
    have "find_stream (lf_session x) (fr_stream_id f) = None"
      using life over begun [of "fr_stream_id f"] f by (auto simp: lifetime_inv_def Let_def)
    with f show ?thesis
      by (intro settled_new)
        (simp_all add: t_def on_begin_headers_callback_def create_stream_def find_stream_def table.lookup_insert Let_def)
  qed
  moreover have "ss_role t = ss_role (lf_session x)" by (simp add: t_def run_callback_role)
  ultimately show ?thesis
    using assms(2) over begun ids lifetime_inv_callback [OF life assms(3), of K N g]
    by (auto simp: closure_inv_def Let_def lf_callback_fields t_def)
qed

lemma closure_inv_extend:
  assumes "closure_inv K x" "lifetime_inv y" "ss_objects (lf_session y) = ss_objects (lf_session x) @ [st]"
    and "\<And>i b. find_stream (lf_session x) i = Some b \<Longrightarrow> find_stream (lf_session y) i = Some b"
    and "settled K (lf_session y) (length (ss_objects (lf_session x)))" "ss_role (lf_session y) = Role_client"
  shows "closure_inv K y"
proof -
  have "settled K (lf_session y) a" if "a < length (ss_objects (lf_session x))" for a
  proof (rule settledI)
    show "settled K (lf_session x) a" using assms(1) that by (simp add: closure_inv_def Let_def)
  qed (use assms(3,4) that in \<open>simp_all add: nth_append\<close>)
  then show ?thesis using assms by (simp add: closure_inv_def less_Suc_eq Let_def)
qed

lemma closure_inv_request:
  assumes "event_ok K" "closure_inv K x" "lifetime_inv y"
    and req: "submit_request K N path cl hs (lf_session x) = Some (r, lf_session y)"
    and over: "lf_over y = lf_over x"
    and fresh: "\<And>sid. ss_role (lf_session x) = Role_client \<Longrightarrow>
      sid = st_id (ss_objects (lf_session y) ! length (ss_objects (lf_session x))) \<Longrightarrow> sid \<noteq> 0 \<Longrightarrow>
      find_stream (lf_session x) sid = None"
  shows "closure_inv K y"
proof (cases "ss_role (lf_session x) = Role_client")
  case False
  with req have "lf_session y = lf_session x" by (simp add: submit_request_def)
  with over show ?thesis by (intro closure_inv_frame [OF assms(2,3)]) simp_all
next
  case client: True
  let ?a = "length (ss_objects (lf_session x))"
  from req show ?thesis
  proof (cases rule: submit_request_cases)
    case role
    with over show ?thesis by (intro closure_inv_frame [OF assms(2,3)]) simp_all
  next
    case (failed g)
    then show ?thesis
      by (intro closure_inv_extend [OF assms(2,3)] settled_new)
        (auto simp: client find_stream_def)
  next
    case (submitted g sid)
    have obj: "ss_objects (lf_session y) = ss_objects (lf_session x) @
        [set_id (log_prefix (ss_role (lf_session x))) sid (new_stream K 0 (log_prefix (ss_role (lf_session x)) 0))]"
      and tab: "find_stream (lf_session y) = map_of (emplace sid ?a (ss_streams (lf_session x)))"
      using submitted by (simp_all add: find_stream_def fun_eq_iff start_write_def)
    have "find_stream (lf_session y) sid = Some ?a" if "sid \<noteq> 0"
      using fresh [OF client, of sid] that obj by (simp add: tab table.lookup_insert find_stream_def)
    then show ?thesis
      using submitted obj client
      by (intro closure_inv_extend [OF assms(2,3) obj] settled_new)
        (auto simp: tab table.lookup_insert_keeps find_stream_def start_write_def)
  qed
qed

lemma teardown_role: "ss_role (foldl (\<lambda>s (sid, b). update_object b (on_close K) s) s xs) = ss_role s"
  by (induction xs arbitrary: s) (auto simp: update_object_fields)

lemma teardown_closes:
  assumes "event_ok K" "a < length (ss_objects s)"
  shows "let t = foldl (\<lambda>s (sid, b). update_object b (on_close K) s) s xs
    in keeps_closed K (ss_objects s ! a) (ss_objects t ! a) \<and> (a \<in> snd ` set xs \<longrightarrow> st_closed (ss_objects t ! a))"
  using assms(2)
proof (induction xs arbitrary: s)
  case (Cons x xs)
  let ?s = "update_object (snd x) (on_close K) s"
  have step: "keeps_closed K (ss_objects s ! a) (ss_objects ?s ! a)" "snd x = a \<Longrightarrow> st_closed (ss_objects ?s ! a)"
    using Cons.prems keeps_closed_callbacks [OF assms(1)] by (auto simp: object_update_object)
  with Cons.IH [of ?s] Cons.prems show ?case
    by (auto simp: keeps_closed_def Let_def update_object_fields split: prod.split)
qed simp

lemma closure_inv_teardown:
  assumes "event_ok K" "closure_inv K x" "lifetime_inv y"
    and y: "lf_session y = run_teardown K (lf_session x)"
  shows "closure_inv K y"
proof -
  let ?s = "lf_session x" and ?t = "run_teardown K (lf_session x)"
  have "settled K ?t a" if a: "a < length (ss_objects ?s)" for a
  proof (rule settledI)
    note close = teardown_closes [OF assms(1), of a "?s\<lparr>ss_streams := []\<rparr>" "ss_streams ?s"]
    show "settled K ?s a" using assms(2) a by (simp add: closure_inv_def Let_def)
    show "keeps_closed K (ss_objects ?s ! a) (ss_objects ?t ! a)"
      using close a by (simp add: run_teardown_def Let_def)
    have "ids ?t ! a = ids ?s ! a" "length (ids ?t) = length (ids ?s)" by (simp_all add: run_teardown_frame)
    with a show "st_id (ss_objects ?t ! a) = st_id (ss_objects ?s ! a)" by (simp add: ids_nth length_ids)
    assume "find_stream ?s (st_id (ss_objects ?s ! a)) = Some a"
    then have "a \<in> snd ` set (ss_streams ?s)" by (force simp: find_stream_def dest: map_of_SomeD)
    then show "find_stream ?t (st_id (ss_objects ?s ! a)) = Some a \<or> st_closed (ss_objects ?t ! a)"
      using close a by (simp add: run_teardown_def Let_def)
  qed
  moreover have "length (ss_objects ?t) = length (ss_objects ?s)" "ss_streams ?t = []"
    by (simp_all add: run_teardown_def teardown_fold)
  moreover have "ss_role ?t = ss_role ?s" by (simp add: run_teardown_def teardown_role)
  ultimately show ?thesis using assms(2,3) by (simp add: closure_inv_def y run_teardown_frame Let_def)
qed

lemma closure_inv_coroutine:
  assumes "closure_inv K x" "lifetime_inv y" "a < length (ss_objects (lf_session x))"
    and res: "coroutine_result K (ss_objects (lf_session x) ! a) st"
    and y: "lf_session y = stream_result K N a st effs (lf_session x)" "lf_over y = lf_over x"
  shows "closure_inv K y"
proof -
  let ?s = "lf_session x" and ?t = "lf_session y"
  have t: "ss_objects ?t = (ss_objects ?s)[a := st]" "ss_streams ?t = ss_streams ?s" "ss_role ?t = ss_role ?s"
    using assms(3)
    by (simp_all add: y stream_result_objects) (simp_all add: stream_result_def apply_effects_fields update_object_fields)
  have "settled K ?t b" if "b < length (ss_objects ?s)" for b
  proof (rule settledI)
    show "settled K ?s b" using assms(1) that by (simp add: closure_inv_def Let_def)
  qed (use assms(3) that t keeps_closed_coroutine [OF res] coroutine_result_frame [OF res] in
      \<open>auto simp: nth_list_update find_stream_def\<close>)
  moreover have "ids ?t = ids ?s"
    using assms(3) coroutine_result_frame [OF res] by (simp add: ids_def t map_update list_update_same_conv)
  ultimately show ?thesis using assms(1,2) t y(2) by (simp add: closure_inv_def Let_def)
qed

lemma unused_not_found:
  assumes "lifetime_inv x" "sid \<notin> lf_used x" "sid \<noteq> 0"
  shows "find_stream (lf_session x) sid = None"
proof (cases "find_stream (lf_session x) sid")
  case (Some a)
  have "session_inv (lf_session x)" "set (ids (lf_session x)) \<subseteq> insert 0 (lf_used x)"
    using assms(1) by (simp_all add: lifetime_inv_def Let_def)
  with session_invD [OF _ Some] assms(2,3) show ?thesis by (force simp: ids_def)
qed simp

lemma closure_step_inv:
  assumes "lifetime_step K N x y" "event_ok K" "closure_inv K x"
  shows "closure_inv K y"
proof -
  have life: "lifetime_inv x" using assms(3) by (simp add: closure_inv_def Let_def)
  note life' = lifetime_step_inv [OF assms(1) life]
  note frame = closure_inv_frame [OF assms(3) life'] and req = closure_inv_request [OF assms(2,3) life']
  from assms(1) show ?thesis
  proof cases
    case (lifetime_callback cb g)
    with closure_inv_callback [OF assms(2,3)] show ?thesis by blast
  next
    case (lifetime_native g e)
    then show ?thesis by (intro frame) simp_all
  next
    case (lifetime_request path cl hs a s sid)
    then have "a = length (ss_objects (lf_session x))"
      by (auto simp: submit_request_def Let_def split: option.splits prod.splits if_splits)
    with lifetime_request unused_not_found [OF life] show ?thesis
      by (intro req [of N path cl hs "(None, Some a)"]) simp_all
  next
    case (lifetime_request_failed path cl hs e b s)
    then have "st_id (ss_objects s ! length (ss_objects (lf_session x))) = 0" if "ss_role (lf_session x) = Role_client"
      using that by (auto simp: submit_request_def Let_def split: option.splits prod.splits if_splits)
    with lifetime_request_failed show ?thesis by (intro req [of N path cl hs "(Some e, b)"]) simp_all
  next
    case (lifetime_response a status hs e s)
    then have "ss_objects s = ss_objects (lf_session x)" "ss_streams s = ss_streams (lf_session x)"
      "ss_role s = ss_role (lf_session x)"
      by (auto simp: submit_response_def start_write_def Let_def split: option.splits prod.splits if_splits)
    with lifetime_response show ?thesis by (intro frame) simp_all
  next
    case (lifetime_coroutine a st effs)
    with closure_inv_coroutine [OF assms(3) life'] show ?thesis by simp
  next
    case lifetime_end
    with closure_inv_teardown [OF assms(2,3) life'] show ?thesis by simp
  qed
qed

lemma closure_starts_inv: "lifetime_starts K x \<Longrightarrow> closure_inv K x"
  using lifetime_starts_inv [of K x]
  by (auto simp: lifetime_starts_def closure_inv_def new_session_def ids_def Let_def)

interpretation closure_reach: step_invariant "lifetime_starts K" "lifetime_step K N" "\<lambda>x. event_ok K \<longrightarrow> closure_inv K x"
  for K :: "('e, 'b, 'c) capy" and N :: "'ng nghttp2"
  by unfold_locales (auto intro: closure_starts_inv closure_step_inv)

section \<open>After the end\<close>

text \<open>
  C14. Nobody hangs after the end: when \<open>run\<close> of a server's session has returned, every stream the
  session ever had is closed. A read or a write that was waiting on one of them can resume and then
  returns, a new read does not wait, and a new write is refused.
\<close>

theorem nobody_hangs_after_end:
  assumes "reachable (lifetime_starts K) (lifetime_step K N) x" "event_ok K"
    and "lf_over x" "ss_role (lf_session x) = Role_server"
    and "a < length (ss_objects (lf_session x))" "st = ss_objects (lf_session x) ! a"
  shows "st_closed st \<and> may_resume K None (st_read_ready st) \<and> may_resume K None (st_write_progress st) \<and>
    fst (read_some_resume K e sink st) \<noteq> Read_parked \<and>
    (\<forall>st' effs. read_some K bp st \<noteq> Some (Read_parked, st', effs)) \<and>
    write_impl K buffers eof st = (Write_done (Some Error_eof, 0), st, [])"
proof -
  have inv: "closure_inv K x" using closure_reach.inv_reachable [OF assms(1)] assms(2) by blast
  then have "settled K (lf_session x) a" "find_stream (lf_session x) (st_id st) = None" "0 \<notin> set (ids (lf_session x))"
    using assms(3-5) by (simp_all add: closure_inv_def find_stream_def Let_def)
  moreover have "st_id st \<in> set (ids (lf_session x))" using assms(5,6) by (simp add: ids_def)
  ultimately have "st_closed st" "closed_awake K st" using assms(6) by (auto simp: settled_def Let_def)
  then show ?thesis
    by (auto simp: closed_awake_def may_resume_def read_some_resume_def read_some_def write_impl_def Let_def
        split: option.splits if_splits)
qed

definition life_ended :: demo_life where
  "life_ended = life_server\<lparr>lf_session := run_teardown flat_capy (lf_session life_server), lf_over := True\<rparr>"

theorem nobody_hangs_after_end_witness:
  "st_closed (ss_objects (lf_session life_ended) ! 1) \<and>
   may_resume flat_capy None (st_read_ready (ss_objects (lf_session life_ended) ! 1))"
proof -
  have reach: "life_reach life_ended"
    unfolding life_ended_def
    using reachable_step [OF life_server_facts(1) lifetime_end [OF life_server_facts(2)]] .
  have server: "ss_role (lf_session life_ended) = Role_server" "1 < length (ss_objects (lf_session life_ended))"
    by (simp_all add: life_ended_def life_server_def life_request_def life_start_def run_teardown_def teardown_role
        teardown_fold run_callback_role session_eval new_session_def request_frame_def)
  from nobody_hangs_after_end [OF reach library_okD(1) [OF flat_capy_ok] _ server refl] show ?thesis
    by (simp add: life_ended_def)
qed

end
