(* ===== verification/Handlers.thy ===== *)
theory Handlers
  imports Session_Messages
begin

text \<open>
  The classes a request handler works with (\<open>include/nghttp2-corosio/session.hpp\<close>) and the
  handlers of the repository: the streaming echo of \<open>echo_handler.cpp\<close>, the handlers of
  \<open>test/request_handlers.cpp\<close> and the plain TCP echo of \<open>main.cpp\<close>.

  A handler is modelled by what it asks for, in order. What its reads, its writes and the
  submission of the response answer is an argument; a handler whose answers run out is suspended,
  which is the value \<open>None\<close>. A write is \<open>capy::write\<close>, which writes everything or fails.
\<close>

section \<open>Requests and responses\<close>

datatype action =
    Submit "32 word" headers
  | Write "byte list"
  | Write_eof

definition has_header :: "string \<Rightarrow> headers \<Rightarrow> bool" where
  "has_header name headers \<longleftrightarrow> list_ex (\<lambda>kv. fst kv = name) headers"

text \<open>\<open>Response::submit\<close>, with the value \<open>Response::content_length\<close> was last called with.\<close>

definition response_submit :: "size_t option \<Rightarrow> 32 word \<Rightarrow> headers \<Rightarrow> action" where
  "response_submit content_length status headers =
     Submit status
       (headers @ (case content_length of
                     None \<Rightarrow> [] | Some n \<Rightarrow> [(''content-length'', to_string (unat n))]))"

text \<open>
  \<open>write_eof(buffers)\<close> of \<open>Response\<close> and \<open>ClientRequest\<close>: \<open>w\<close> is the result of the composed write,
  \<open>eof\<close> that of the empty \<open>write_eof_\<close> call, which is made only if the write succeeded.
\<close>

definition write_eof_buffers :: "byte list \<Rightarrow> nat io_result \<Rightarrow> ec \<Rightarrow> nat io_result \<times> action list" where
  "write_eof_buffers bytes w eof =
     (if fst w \<noteq> None then (w, [Write bytes]) else ((eof, snd w), [Write bytes, Write_eof]))"

text \<open>\<open>get_response\<close>: the error and status of \<open>status()\<close>, with what the stream has by then.\<close>

record client_response =
  cr_status :: "32 word"
  cr_content_length :: "size_t option"
  cr_headers :: headers

definition get_response ::
  "32 word io_result \<Rightarrow> ('e, 'b, 'c) stream \<Rightarrow> client_response io_result" where
  "get_response r st =
     (fst r, \<lparr>cr_status = snd r, cr_content_length = st_content_length st, cr_headers = st_headers st\<rparr>)"

section \<open>The streaming echo\<close>

text \<open>How the loop was left: at its end, with the flag \<open>submitted\<close>, or by returning an error.\<close>

datatype loop_end = Loop_left bool | Returned error_code

fun echo_loop ::
  "ec \<Rightarrow> action \<Rightarrow> bool \<Rightarrow> byte list io_result list \<Rightarrow> ec list \<Rightarrow> (action list \<times> loop_end) option" where
  "echo_loop sub submit submitted [] writes = None"
| "echo_loop sub submit submitted ((Some rec, bs) # reads) writes = Some ([], Loop_left submitted)"
| "echo_loop sub submit submitted ((None, bs) # reads) writes =
     (let first = (if submitted then [] else [submit]) in
      case (if submitted then None else sub) of
        Some e \<Rightarrow> Some (first, Returned e)
      | None \<Rightarrow>
          (case writes of
             [] \<Rightarrow> None
           | Some wec # _ \<Rightarrow> Some (first @ [Write bs], Loop_left True)
           | None # writes' \<Rightarrow>
               map_option (\<lambda>(acts, fin). (first @ Write bs # acts, fin))
                 (echo_loop sub submit True reads writes')))"

definition echo ::
  "request \<Rightarrow> ec \<Rightarrow> byte list io_result list \<Rightarrow> ec list \<Rightarrow> ec \<Rightarrow> (action list \<times> ec) option" where
  "echo rq sub reads writes eof =
     (let submit = response_submit (rq_content_length rq) 200 [];
          eager = has_header ''x-eager-submit'' (rq_headers rq)
      in if eager \<and> sub \<noteq> None then Some ([submit], sub)
         else
           (case echo_loop sub submit eager reads writes of
              None \<Rightarrow> None
            | Some (acts, Returned e) \<Rightarrow> Some ((if eager then [submit] else []) @ acts, Some e)
            | Some (acts, Loop_left submitted) \<Rightarrow>
                (let before = (if eager then [submit] else []) @ acts in
                 if submitted then Some (before @ [Write_eof], eof)
                 else if sub \<noteq> None then Some (before @ [submit], sub)
                 else Some (before @ [submit, Write_eof], eof))))"

text \<open>\<open>echo_handler\<close> logs the error of \<open>echo\<close> and drops it.\<close>

definition echo_handler ::
  "request \<Rightarrow> ec \<Rightarrow> byte list io_result list \<Rightarrow> ec list \<Rightarrow> ec \<Rightarrow> action list option" where
  "echo_handler rq sub reads writes eof = map_option fst (echo rq sub reads writes eof)"

section \<open>The other handlers\<close>

text \<open>The loop that reads until an error and drops the bytes; how many reads it makes.\<close>

fun eat_loop :: "byte list io_result list \<Rightarrow> bool" where
  "eat_loop [] = False"
| "eat_loop ((Some e, bs) # reads) = True"
| "eat_loop ((None, bs) # reads) = eat_loop reads"

definition eat_request :: "byte list io_result list \<Rightarrow> action list option" where
  "eat_request reads =
     (if eat_loop reads then Some [response_submit None 200 [], Write_eof] else None)"

definition not_found :: "action list" where
  "not_found = [response_submit None 404 [], Write_eof]"

text \<open>\<open>read\<close> and \<open>count\<close> of a response: the end of the stream is not an error.\<close>

definition not_eof :: "error_code \<Rightarrow> ec" where
  "not_eof e = (if e = Error_eof then None else Some e)"

fun read_body :: "byte list \<Rightarrow> byte list io_result list \<Rightarrow> byte list io_result option" where
  "read_body body [] = None"
| "read_body body ((Some e, bs) # reads) = Some (not_eof e, body @ bs)"
| "read_body body ((None, bs) # reads) = read_body (body @ bs) reads"

fun count_body :: "size_t \<Rightarrow> byte list io_result list \<Rightarrow> size_t io_result option" where
  "count_body bytes [] = None"
| "count_body bytes ((Some e, bs) # reads) = Some (not_eof e, bytes + word_of_nat (length bs))"
| "count_body bytes ((None, bs) # reads) = count_body (bytes + word_of_nat (length bs)) reads"

text \<open>\<open>count_into\<close> adds to the caller's counter instead of returning the number.\<close>

definition count_into :: "size_t \<Rightarrow> byte list io_result list \<Rightarrow> (ec \<times> size_t) option" where
  "count_into received reads = count_body received reads"

text \<open>The overloads that wait for the response first; \<open>e\<close> is the error of \<open>get_response\<close>.\<close>

definition read_request :: "ec \<Rightarrow> byte list io_result list \<Rightarrow> byte list io_result option" where
  "read_request e reads = (if e \<noteq> None then Some (e, []) else read_body [] reads)"

definition count_request :: "ec \<Rightarrow> byte list io_result list \<Rightarrow> size_t io_result option" where
  "count_request e reads = (if e \<noteq> None then Some (e, 0) else count_body 0 reads)"

definition count_into_request :: "size_t \<Rightarrow> ec \<Rightarrow> byte list io_result list \<Rightarrow> (ec \<times> size_t) option" where
  "count_into_request received e reads = (if e \<noteq> None then Some (e, received) else count_into received reads)"

text \<open>
  \<open>send\<close> of a range that is not contiguous: the range is copied into a buffer of 16 KiB, piece by
  piece. \<open>send_into\<close> also adds up what the writes report.
\<close>

definition send_buffer_size :: nat where
  "send_buffer_size = 16 * 1024"

fun send_into ::
  "size_t \<Rightarrow> byte list \<Rightarrow> nat io_result list \<Rightarrow> (action list \<times> ec \<times> size_t) option" where
  "send_into sent [] writes = Some ([], None, sent)"
| "send_into sent (b # bs) [] = None"
| "send_into sent (b # bs) ((e, written) # writes) =
     (let piece = take send_buffer_size (b # bs);
          sent' = sent + word_of_nat written
      in if e \<noteq> None then Some ([Write piece], e, sent')
         else map_option (\<lambda>(acts, r). (Write piece # acts, r))
                (send_into sent' (drop send_buffer_size (b # bs)) writes))"

definition send_range :: "byte list \<Rightarrow> nat io_result list \<Rightarrow> (action list \<times> ec) option" where
  "send_range bytes writes = map_option (\<lambda>(acts, e, _). (acts, e)) (send_into 0 bytes writes)"

text \<open>\<open>send\<close> of a contiguous range: one composed write of the whole range, whose result is \<open>w\<close>.\<close>

definition send_contiguous :: "byte list \<Rightarrow> nat io_result \<Rightarrow> action list \<times> ec" where
  "send_contiguous bytes w = ([Write bytes], fst w)"

definition sendAndForceEOF :: "byte list \<Rightarrow> nat io_result list \<Rightarrow> ec \<Rightarrow> (action list \<times> ec) option" where
  "sendAndForceEOF bytes writes eof =
     map_option (\<lambda>(acts, e). (acts @ [Write_eof], if e \<noteq> None then e else eof)) (send_range bytes writes)"

text \<open>\<open>send(request, bytes)\<close>: byte values that count up from zero and wrap around.\<close>

definition send_bytes :: "nat \<Rightarrow> nat io_result list \<Rightarrow> ec \<Rightarrow> (action list \<times> ec) option" where
  "send_bytes n writes eof = sendAndForceEOF (map (\<lambda>i. word_of_nat i) [0..<n]) writes eof"

text \<open>\<open>yield\<close>: the results of its delays; it stops at the first error.\<close>

fun yield_loop :: "nat \<Rightarrow> ec list \<Rightarrow> ec option" where
  "yield_loop 0 delays = Some None"
| "yield_loop (Suc n) [] = None"
| "yield_loop (Suc n) (e # delays) = (if e \<noteq> None then Some e else yield_loop n delays)"

text \<open>The echo of \<open>main.cpp\<close> on a bare socket: what it writes and the number it prints.\<close>

fun echo_session ::
  "size_t \<Rightarrow> byte list io_result list \<Rightarrow> nat io_result list \<Rightarrow> (byte list list \<times> size_t) option" where
  "echo_session tot [] writes = None"
| "echo_session tot ((Some e, bs) # reads) writes = Some ([], tot)"
| "echo_session tot ((None, bs) # reads) writes =
     (case writes of
        [] \<Rightarrow> None
      | (Some we, wn) # _ \<Rightarrow> Some ([bs], tot)
      | (None, wn) # writes' \<Rightarrow>
          map_option (\<lambda>(out, n). (bs # out, n)) (echo_session (tot + word_of_nat wn) reads writes'))"

text \<open>Its accept loop: a session for every accepted connection, and an error never ends it.\<close>

definition tcp_accept_loop :: "ec list \<Rightarrow> nat" where
  "tcp_accept_loop accepts = length (filter (\<lambda>e. e = None) accepts)"

section \<open>Properties\<close>

text \<open>The helpers that read agree: the number counted is the size of what is read.\<close>

lemma count_body_read_body:
  "read_body body reads = Some (e, bytes) \<Longrightarrow>
     count_body (word_of_nat (length body)) reads = Some (e, word_of_nat (length bytes))"
  by (induction body reads rule: read_body.induct) auto

text \<open>What is sent, in pieces of at most the buffer's size, is the range.\<close>

fun written_bytes :: "action \<Rightarrow> byte list" where
  "written_bytes (Write bs) = bs"
| "written_bytes _ = []"

lemma send_into_complete:
  assumes "send_into sent bytes writes = Some (acts, None, n)"
  shows "concat (map written_bytes acts) = bytes \<and> (\<forall>a \<in> set acts. length (written_bytes a) \<le> send_buffer_size)"
  using assms
proof (induction sent bytes writes arbitrary: acts rule: send_into.induct)
  case (3 sent b bs e written writes)
  from "3.prems" have e: "e = None" by (auto simp: Let_def split: if_splits)
  with "3.prems" obtain acts' where
    rec: "send_into (sent + word_of_nat written) (drop send_buffer_size (b # bs)) writes = Some (acts', None, n)"
    and acts: "acts = Write (take send_buffer_size (b # bs)) # acts'"
    by (auto simp: Let_def)
  from "3.IH" [OF refl refl _ rec] e show ?case by (simp add: acts)
qed auto

text \<open>Both overloads of \<open>send\<close> write the same bytes when they succeed.\<close>

lemma send_overloads_agree:
  assumes "send_range bytes writes = Some (acts, None)" "fst w = None"
  shows "concat (map written_bytes acts) = concat (map written_bytes (fst (send_contiguous bytes w))) \<and>
    snd (send_contiguous bytes w) = None"
  using assms send_into_complete [of 0 bytes writes] by (auto simp: send_range_def send_contiguous_def)

lemma echo_loop_actions:
  assumes "echo_loop sub submit submitted reads writes = Some (acts, fin)"
  shows "\<exists>bodies. fin = Loop_left True \<and> acts = (if submitted then [] else [submit]) @ map Write bodies \<and>
      (submitted \<or> sub = None)
    \<or> fin = Loop_left False \<and> \<not> submitted \<and> acts = []
    \<or> (\<exists>e. fin = Returned e \<and> \<not> submitted \<and> sub = Some e \<and> acts = [submit])"
  using assms
proof (induction sub submit submitted reads writes arbitrary: acts rule: echo_loop.induct)
  case (3 sub submit submitted bs reads writes)
  show ?case
  proof (cases "if submitted then None else sub")
    case None
    then have ok: "submitted \<or> sub = None" by (auto split: if_splits)
    show ?thesis
    proof (cases writes)
      case Nil
      with "3.prems" None show ?thesis by (simp add: Let_def)
    next
      case (Cons w ws)
      show ?thesis
      proof (cases w)
        case Some
        with "3.prems" None Cons ok have "fin = Loop_left True"
          "acts = (if submitted then [] else [submit]) @ map Write [bs]"
          by (auto simp: Let_def split: if_splits)
        with ok show ?thesis by blast
      next
        case None': None
        with "3.prems" None Cons obtain acts' where
          rec: "echo_loop sub submit True reads ws = Some (acts', fin)"
          and acts: "acts = (if submitted then [] else [submit]) @ Write bs # acts'"
          by (auto simp: Let_def split: if_splits)
        from "3.IH" [OF refl None Cons None' rec] obtain bodies where
          "fin = Loop_left True" "acts' = map Write bodies" by auto
        with acts ok have "acts = (if submitted then [] else [submit]) @ map Write (bs # bodies)" by simp
        with \<open>fin = Loop_left True\<close> ok show ?thesis by blast
      qed
    qed
  next
    case (Some e)
    with "3.prems" show ?thesis by (auto simp: Let_def split: if_splits)
  qed
qed auto

text \<open>
  The echo handler keeps the protocol of \<open>Response\<close>: whatever its reads and writes answer,
  when it returns it has submitted the response exactly once, with the content length of the
  request and before any write, and if the submission succeeded it has ended the body exactly once
  and after all writes; if the submission failed it has written nothing and returns that error.
\<close>

theorem echo_protocol:
  assumes "echo rq sub reads writes eof = Some (acts, r)"
  shows "\<exists>bodies. acts = response_submit (rq_content_length rq) 200 [] #
      (if sub = None then map Write bodies @ [Write_eof] else []) \<and> r = (if sub = None then eof else sub)"
proof -
  let ?submit = "response_submit (rq_content_length rq) 200 []"
  let ?eager = "has_header ''x-eager-submit'' (rq_headers rq)"
  show ?thesis
  proof (cases "?eager \<and> sub \<noteq> None")
    case True
    with assms show ?thesis by (auto simp: echo_def Let_def)
  next
    case False
    with assms obtain loop_acts fin where
      lp: "echo_loop sub ?submit ?eager reads writes = Some (loop_acts, fin)"
      by (auto simp: echo_def Let_def split: option.splits)
    from echo_loop_actions [OF this] obtain bodies where
      "fin = Loop_left True \<and> loop_acts = (if ?eager then [] else [?submit]) @ map Write bodies \<and>
         (?eager \<or> sub = None)
       \<or> fin = Loop_left False \<and> \<not> ?eager \<and> loop_acts = []
       \<or> (\<exists>e. fin = Returned e \<and> \<not> ?eager \<and> sub = Some e \<and> loop_acts = [?submit])" by blast
    then consider
      (left) "fin = Loop_left True" "loop_acts = (if ?eager then [] else [?submit]) @ map Write bodies" "sub = None"
      | (unsubmitted) "fin = Loop_left False" "\<not> ?eager" "loop_acts = []"
      | (returned) e where "fin = Returned e" "\<not> ?eager" "sub = Some e" "loop_acts = [?submit]"
      using False by blast
    then show ?thesis
    proof cases
      case left
      with assms lp False show ?thesis by (intro exI [of _ bodies]) (auto simp: echo_def Let_def)
    next
      case unsubmitted
      with assms lp False show ?thesis
        by (intro exI [of _ "[]"]) (auto simp: echo_def Let_def split: if_splits)
    next
      case returned
      with assms lp False show ?thesis by (auto simp: echo_def Let_def)
    qed
  qed
qed

definition demo_request :: request where
  "demo_request = \<lparr>rq_path = ''/echo'', rq_content_length = Some 3, rq_headers = [], rq_reader = 0\<rparr>"

theorem echo_protocol_witness:
  "\<exists>bodies. echo demo_request None [(None, [1, 2]), (Some Error_eof, [])] [None] None
     = Some (response_submit (Some 3) 200 [] # map Write bodies @ [Write_eof], None)"
proof -
  obtain acts r where e: "echo demo_request None [(None, [1, 2]), (Some Error_eof, [])] [None] None = Some (acts, r)"
    by (simp add: echo_def demo_request_def has_header_def)
  from echo_protocol [OF this] e show ?thesis by (auto simp: demo_request_def)
qed

lemma echo_loop_body:
  assumes "length writes = length bodies" "\<forall>w \<in> set writes. w = None" "submitted \<or> sub = None"
  shows "echo_loop sub submit submitted (map (Pair None) bodies @ (Some e, bs) # reads) writes =
    Some ((if submitted \<or> bodies = [] then [] else [submit]) @ map Write bodies,
          Loop_left (submitted \<or> bodies \<noteq> []))"
  using assms
proof (induction bodies arbitrary: submitted writes)
  case (Cons b bodies)
  then obtain ws where "writes = None # ws" by (cases writes) auto
  with Cons show ?case by (auto simp: Let_def split: if_splits)
qed simp

lemma echo_body:
  assumes "length writes = length bodies" "\<forall>w \<in> set writes. w = None"
  shows "echo rq None (map (Pair None) bodies @ (Some e, bs) # reads) writes eof =
    Some (response_submit (rq_content_length rq) 200 [] # map Write bodies @ [Write_eof], eof)"
  using echo_loop_body [OF assms, of _ None]
  by (cases "has_header ''x-eager-submit'' (rq_headers rq)"; cases "bodies = []")
    (simp_all add: echo_def Let_def)

text \<open>
  The echo is faithful: when the pieces of the request body arrive, the submission and the
  writes succeed and the body ends, the handler returns, and the body of its response is the
  request body, byte for byte and piece by piece, with the content length of the request and the
  end of the stream after it. An eager submission changes nothing of this.
\<close>

theorem echo_is_faithful:
  assumes "length writes = length bodies" "\<forall>w \<in> set writes. w = None"
  shows "echo rq None (map (Pair None) bodies @ (Some e, bs) # reads) writes eof =
    Some (response_submit (rq_content_length rq) 200 [] # map Write bodies @ [Write_eof], eof)"
  by (rule echo_body [OF assms])

theorem echo_is_faithful_witness:
  "echo demo_request None [(None, [1, 2]), (None, [3]), (Some Error_eof, [])] [None, None] None =
    Some ([Submit 200 [(''content-length'', ''3'')], Write [1, 2], Write [3], Write_eof], None)"
  using echo_is_faithful [of "[None, None]" "[[1, 2], [3]]" demo_request Error_eof "[]" "[]" None]
  by (simp add: demo_request_def response_submit_def decimal_examples)

end
