(* ===== verification/Composed_Write.thy ===== *)
theory Composed_Write
  imports Stream_Properties
begin

text \<open>
  The composed operation \<open>capy::write\<close>, which \<open>Stream::write\<close>, \<open>Response::write\<close> and
  \<open>ClientRequest::write\<close> hand their buffers to. It belongs to the capy library and is a parameter:
  a state that says which call of \<open>write_some\<close> comes next, or that the operation returns, and that
  is told what each call answered. \<open>composed_write_ok\<close> is its documented behaviour: it goes on with
  what is left until everything is written or a call reports an error, and returns the number of
  bytes written. The lemmas are what its clients use, and \<open>plain_write\<close> is a concrete instance.
\<close>

section \<open>The operation as a parameter\<close>

datatype write_action = Call_write_some "byte list list" | Write_returns "nat io_result"

record 'w composed_write =
  cw_start :: "byte list list \<Rightarrow> 'w"
  cw_next :: "'w \<Rightarrow> write_action"
  cw_answer :: "'w \<Rightarrow> nat io_result \<Rightarrow> 'w"

text \<open>What is known of a state: the bytes not yet written, the number written, the error met.\<close>

record write_view =
  wv_left :: "byte list"
  wv_total :: nat
  wv_error :: ec

definition composed_write_ok ::
  "('e, 'b, 'c) capy \<Rightarrow> 'w composed_write \<Rightarrow> ('w \<Rightarrow> write_view) \<Rightarrow> bool" where
  "composed_write_ok K W view \<longleftrightarrow>
     (\<forall>bufs. view (cw_start W bufs) = \<lparr>wv_left = concat bufs, wv_total = 0, wv_error = None\<rparr>) \<and>
     (\<forall>w. if wv_error (view w) \<noteq> None \<or> wv_left (view w) = []
          then cw_next W w = Write_returns (wv_error (view w), wv_total (view w))
          else \<exists>bufs later. cw_next W w = Call_write_some bufs \<and> length bufs \<le> max_iovec K \<and>
                 concat bufs \<noteq> [] \<and> wv_left (view w) = concat bufs @ later) \<and>
     (\<forall>w e n. wv_error (view w) = None \<longrightarrow>
        view (cw_answer W w (e, n)) =
          \<lparr>wv_left = drop n (wv_left (view w)), wv_total = wv_total (view w) + n, wv_error = e\<rparr>)"

lemma composed_write_start:
  "composed_write_ok K W view \<Longrightarrow>
     view (cw_start W bufs) = \<lparr>wv_left = concat bufs, wv_total = 0, wv_error = None\<rparr>"
  by (simp add: composed_write_ok_def)

lemma composed_write_answer:
  "composed_write_ok K W view \<Longrightarrow> wv_error (view w) = None \<Longrightarrow>
     view (cw_answer W w (e, n)) =
       \<lparr>wv_left = drop n (wv_left (view w)), wv_total = wv_total (view w) + n, wv_error = e\<rparr>"
  by (simp add: composed_write_ok_def)

lemma composed_write_next:
  assumes "composed_write_ok K W view"
  shows "if wv_error (view w) \<noteq> None \<or> wv_left (view w) = []
    then cw_next W w = Write_returns (wv_error (view w), wv_total (view w))
    else \<exists>bufs later. cw_next W w = Call_write_some bufs \<and> length bufs \<le> max_iovec K \<and>
      concat bufs \<noteq> [] \<and> wv_left (view w) = concat bufs @ later"
  using assms unfolding composed_write_ok_def by blast

lemma composed_write_call:
  assumes "composed_write_ok K W view" "cw_next W w = Call_write_some bufs"
  shows "wv_error (view w) = None" "concat bufs \<noteq> []" "length bufs \<le> max_iovec K"
    "\<exists>later. wv_left (view w) = concat bufs @ later"
  using composed_write_next [OF assms(1), of w] assms(2) by (auto split: if_splits)

lemma composed_write_return:
  assumes "composed_write_ok K W view" "cw_next W w = Write_returns (e, n)"
  shows "e = wv_error (view w)" "n = wv_total (view w)" "e = None \<Longrightarrow> wv_left (view w) = []"
  using composed_write_next [OF assms(1), of w] assms(2) by (auto split: if_splits)

section \<open>What its clients meet on the stream\<close>

text \<open>A wait ends without an error, or because its coroutine is cancelled.\<close>

definition wait_ends :: "('e, 'b, 'c) capy \<Rightarrow> ec \<Rightarrow> 'e \<Rightarrow> bool" where
  "wait_ends K e ev \<longleftrightarrow> may_resume K e ev \<and> (e = None \<or> e = Some Error_canceled)"

lemma write_refused:
  "write_impl K bufs eof st = (Write_done r, st', effs) \<Longrightarrow> st_closed st \<and> r = (Some Error_eof, 0) \<and> st' = st"
  by (auto simp: write_impl_def Let_def split: if_splits)

lemma producer_callback_eof:
  assumes "producer_callback K len st = (res, eof, st')"
  shows "st_write_eof_requested st' = st_write_eof_requested st"
    "eof \<Longrightarrow> st_write_pending st \<and> st_write_eof_requested st \<and> \<not> st_write_pending st'"
    "\<not> st_write_pending st \<Longrightarrow> \<not> st_write_pending st' \<and> res = Deferred \<and> st_write_progress st' = st_write_progress st"
  using assms by (auto simp: producer_callback_def Let_def split: if_splits)

text \<open>An empty \<open>write_eof\<close> is complete with the first pull.\<close>

lemma producer_callback_empty:
  assumes "source_ok K rest" "write_inv K rest s" "sys_write_data s = []"
    and "st_write_pending (sys_stream s)" "st_write_eof_requested (sys_stream s)"
    and "producer_callback K len (sys_stream s) = (res, eof, st')"
  shows "eof"
proof -
  from assms(2-4) have "rest (st_pending (sys_stream s)) = []" "st_write_offset (sys_stream s) = 0"
    "cb_byte_size K (st_pending (sys_stream s)) = 0"
    by (auto simp: write_inv_def Let_def split: if_splits)
  with assms(1,4-6) show ?thesis by (auto simp: producer_callback_def source_ok_def Let_def split: if_splits)
qed

text \<open>A delivery neither adds nor removes room of a parked reader that is not accounted for.\<close>

lemma on_data_sink_room:
  assumes "sink_ok K written room"
  shows "case st_read_sink (on_data K d st) of
      None \<Rightarrow> st_read_sink st = None
    | Some sink' \<Rightarrow> \<exists>sink. st_read_sink st = Some sink \<and>
        room (sink_bp sink') + sink_copied sink' = room (sink_bp sink) + sink_copied sink"
proof (cases "st_read_sink st")
  case (Some sink)
  obtain n sink' where put: "sink_put K d sink = (n, sink')" by fastforce
  from sink_put_spec(2,5,6) [OF assms put] Some show ?thesis by (simp add: on_data_sink [OF Some put])
qed (simp add: on_data_no_sink)

lemma on_data_fields [simp]:
  "st_read_eof (on_data K d st) = st_read_eof st"
  "st_write_pending (on_data K d st) = st_write_pending st"
  "st_write_eof_requested (on_data K d st) = st_write_eof_requested st"
  "st_write_progress (on_data K d st) = st_write_progress st"
  by (auto simp: on_data_def Let_def split: option.split prod.split)

section \<open>A concrete instance\<close>

text \<open>One buffer at a time; the state is its own view.\<close>

definition plain_write :: "write_view composed_write" where
  "plain_write =
     \<lparr>cw_start = (\<lambda>bufs. \<lparr>wv_left = concat bufs, wv_total = 0, wv_error = None\<rparr>),
      cw_next = (\<lambda>w. if wv_error w \<noteq> None \<or> wv_left w = [] then Write_returns (wv_error w, wv_total w)
                     else Call_write_some [wv_left w]),
      cw_answer = (\<lambda>w (e, n). \<lparr>wv_left = drop n (wv_left w), wv_total = wv_total w + n, wv_error = e\<rparr>)\<rparr>"

lemma plain_write_ok: "0 < max_iovec K \<Longrightarrow> composed_write_ok K plain_write (\<lambda>w. w)"
  by (auto simp: composed_write_ok_def plain_write_def)

end
