(* ===== verification/Body_Write.thy ===== *)
theory Body_Write
  imports Composed_Write
begin

text \<open>
  \<open>write_eof(buffers)\<close> of \<open>Session::Response\<close> and \<open>Session::ClientRequest\<close>: the buffers go through the
  composed \<open>capy::write\<close>, then an empty \<open>write_eof_\<close> ends the body. Both classes have the same
  code, with the same result. The coroutine is followed on its stream while nghttp2 pulls data and
  closes the stream at any moment and other coroutines read from it or wait for its status. What the
  calls ask of the session is left out here; theory \<open>Echo_Flow\<close> adds it.
\<close>

section \<open>The system\<close>

datatype 'w body_pc =
    Body_write 'w
  | Body_writing 'w
  | Body_eof nat
  | Body_finishing nat
  | Body_done "nat io_result"

text \<open>
  \<open>bs_base\<close> is what nghttp2 had pulled of the stream before the call, \<open>bs_data\<close> the bytes of the
  buffers, \<open>bs_ended\<close> whether the data provider has set the end-of-data flag.
\<close>

record ('e, 'b, 'c, 'w) body_sys =
  bs_sys :: "('e, 'b, 'c) stream_sys"
  bs_pc :: "'w body_pc"
  bs_base :: "byte list"
  bs_data :: "byte list"
  bs_ended :: bool

abbreviation bs_stream :: "('e, 'b, 'c, 'w) body_sys \<Rightarrow> ('e, 'b, 'c) stream" where
  "bs_stream x \<equiv> sys_stream (bs_sys x)"

text \<open>The histories of the write side of a stream.\<close>

definition write_history :: "('e, 'b, 'c) stream_sys \<Rightarrow> bool \<times> byte list \<times> byte list \<times> byte list" where
  "write_history s = (sys_writing s, sys_write_data s, sys_pulled s, sys_reported s)"

text \<open>The others: nghttp2 pulls or closes, and steps that do not touch the write side.\<close>

inductive body_env ::
  "('e, 'b, 'c) capy \<Rightarrow> ('b \<Rightarrow> byte list) \<Rightarrow> ('c \<Rightarrow> byte list)
    \<Rightarrow> ('e, 'b, 'c) stream_sys \<Rightarrow> bool \<Rightarrow> ('e, 'b, 'c) stream_sys \<Rightarrow> bool"
  for K written rest where
  env_pull:
    "producer_callback K len (sys_stream s) = (res, eof, st') \<Longrightarrow>
     body_env K written rest s eof (s\<lparr>sys_stream := st', sys_pulled := sys_pulled s @ pulled_bytes res\<rparr>)"
| env_close: "body_env K written rest s False (s\<lparr>sys_stream := on_close K (sys_stream s)\<rparr>)"
| env_other:
    "stream_step K written rest s t \<Longrightarrow> write_side (sys_stream t) = write_side (sys_stream s) \<Longrightarrow>
     write_history t = write_history s \<Longrightarrow> body_env K written rest s False t"

text \<open>The control flow after the composed write.\<close>

definition body_after_write :: "nat io_result \<Rightarrow> 'w body_pc" where
  "body_after_write r = (if fst r \<noteq> None then Body_done r else Body_eof (snd r))"

inductive body_own_step ::
  "('e, 'b, 'c) capy \<Rightarrow> 'w composed_write \<Rightarrow> ('c \<Rightarrow> byte list)
    \<Rightarrow> ('e, 'b, 'c, 'w) body_sys \<Rightarrow> ('e, 'b, 'c, 'w) body_sys \<Rightarrow> bool"
  for K W rest where
  body_call_write:
    "bs_pc x = Body_write w \<Longrightarrow> s = bs_sys x \<Longrightarrow> cw_next W w = Call_write_some bufs \<Longrightarrow>
     write_some K bufs (sys_stream s) = (Write_parked, st', effs) \<Longrightarrow>
     body_own_step K W rest x
       (x\<lparr>bs_sys := s\<lparr>sys_stream := st', sys_writing := True, sys_write_data := rest (cb_array K bufs)\<rparr>,
          bs_pc := Body_writing w\<rparr>)"
| body_write_refused:
    "bs_pc x = Body_write w \<Longrightarrow> cw_next W w = Call_write_some bufs \<Longrightarrow>
     write_some K bufs (bs_stream x) = (Write_done r, st', effs) \<Longrightarrow>
     body_own_step K W rest x
       (x\<lparr>bs_sys := (bs_sys x)\<lparr>sys_stream := st'\<rparr>, bs_pc := Body_write (cw_answer W w r)\<rparr>)"
| body_wake_write:
    "bs_pc x = Body_writing w \<Longrightarrow> s = bs_sys x \<Longrightarrow> wait_ends K e (st_write_progress (sys_stream s)) \<Longrightarrow>
     write_impl_resume e (sys_stream s) = ((e, n), st') \<Longrightarrow>
     body_own_step K W rest x
       (x\<lparr>bs_sys := s\<lparr>sys_stream := st', sys_writing := False,
                      sys_reported := sys_reported s @ take n (sys_write_data s)\<rparr>,
          bs_pc := Body_write (cw_answer W w (e, n))\<rparr>)"
| body_write_done:
    "bs_pc x = Body_write w \<Longrightarrow> cw_next W w = Write_returns r \<Longrightarrow>
     body_own_step K W rest x (x\<lparr>bs_pc := body_after_write r\<rparr>)"
| body_call_eof:
    "bs_pc x = Body_eof n \<Longrightarrow> s = bs_sys x \<Longrightarrow>
     write_eof K [] (sys_stream s) = (Write_parked, st', effs) \<Longrightarrow>
     body_own_step K W rest x
       (x\<lparr>bs_sys := s\<lparr>sys_stream := st', sys_writing := True, sys_write_data := rest (cb_array K [])\<rparr>,
          bs_pc := Body_finishing n\<rparr>)"
| body_eof_refused:
    "bs_pc x = Body_eof n \<Longrightarrow> write_eof K [] (bs_stream x) = (Write_done r, st', effs) \<Longrightarrow>
     body_own_step K W rest x
       (x\<lparr>bs_sys := (bs_sys x)\<lparr>sys_stream := st'\<rparr>, bs_pc := Body_done (fst r, n)\<rparr>)"
| body_wake_eof:
    "bs_pc x = Body_finishing n \<Longrightarrow> s = bs_sys x \<Longrightarrow> wait_ends K e (st_write_progress (sys_stream s)) \<Longrightarrow>
     write_impl_resume e (sys_stream s) = ((e, m), st') \<Longrightarrow>
     body_own_step K W rest x
       (x\<lparr>bs_sys := s\<lparr>sys_stream := st', sys_writing := False,
                      sys_reported := sys_reported s @ take m (sys_write_data s)\<rparr>,
          bs_pc := Body_done (e, n)\<rparr>)"

inductive body_step ::
  "('e, 'b, 'c) capy \<Rightarrow> 'w composed_write \<Rightarrow> ('b \<Rightarrow> byte list) \<Rightarrow> ('c \<Rightarrow> byte list)
    \<Rightarrow> ('e, 'b, 'c, 'w) body_sys \<Rightarrow> ('e, 'b, 'c, 'w) body_sys \<Rightarrow> bool"
  for K W written rest where
  body_other:
    "body_env K written rest (bs_sys x) eof t \<Longrightarrow>
     body_step K W written rest x (x\<lparr>bs_sys := t, bs_ended := (bs_ended x \<or> eof)\<rparr>)"
| body_own: "body_own_step K W rest x y \<Longrightarrow> body_step K W written rest x y"

text \<open>The call: a stream in any state it can be in, on which nobody writes.\<close>

definition body_starts ::
  "('e, 'b, 'c) capy \<Rightarrow> 'w composed_write \<Rightarrow> ('w \<Rightarrow> write_view) \<Rightarrow> ('b \<Rightarrow> byte list) \<Rightarrow> ('b \<Rightarrow> nat)
    \<Rightarrow> ('c \<Rightarrow> byte list) \<Rightarrow> byte list list \<Rightarrow> ('e, 'b, 'c, 'w) body_sys \<Rightarrow> bool" where
  "body_starts K W view written room rest bufs x \<longleftrightarrow>
     library_ok K written room rest \<and> composed_write_ok K W view \<and>
     reachable (starts K written room rest) (stream_step K written rest) (bs_sys x) \<and>
     \<not> sys_writing (bs_sys x) \<and> bs_pc x = Body_write (cw_start W bufs) \<and>
     bs_base x = sys_pulled (bs_sys x) \<and> bs_data x = concat bufs \<and> \<not> bs_ended x"

section \<open>The invariant\<close>

definition body_control :: "('e, 'b, 'c, 'w) body_sys \<Rightarrow> bool" where
  "body_control x \<longleftrightarrow>
     (sys_writing (bs_sys x) \<longleftrightarrow> (\<exists>w. bs_pc x = Body_writing w) \<or> (\<exists>n. bs_pc x = Body_finishing n))"

text \<open>What writers were told is what the call has written; the rest is still to come.\<close>

definition body_balance :: "('w \<Rightarrow> write_view) \<Rightarrow> ('e, 'b, 'c, 'w) body_sys \<Rightarrow> bool" where
  "body_balance view x \<longleftrightarrow>
     (let s = bs_sys x; part = (\<lambda>n. n \<le> length (bs_data x) \<and> sys_reported s = bs_base x @ take n (bs_data x)) in
      (case bs_pc x of
         Body_write w \<Rightarrow> part (wv_total (view w)) \<and> wv_left (view w) = drop (wv_total (view w)) (bs_data x)
       | Body_writing w \<Rightarrow>
           part (wv_total (view w)) \<and> wv_left (view w) = drop (wv_total (view w)) (bs_data x) \<and>
           wv_error (view w) = None \<and> take (length (sys_write_data s)) (wv_left (view w)) = sys_write_data s \<and>
           \<not> st_write_eof_requested (sys_stream s)
       | Body_eof n \<Rightarrow> n = length (bs_data x) \<and> part n
       | Body_finishing n \<Rightarrow> n = length (bs_data x) \<and> part n \<and> sys_write_data s = []
       | Body_done r \<Rightarrow> part (snd r) \<and> (fst r = None \<longrightarrow> snd r = length (bs_data x))))"

definition body_ending :: "('e, 'b, 'c) capy \<Rightarrow> ('e, 'b, 'c, 'w) body_sys \<Rightarrow> bool" where
  "body_ending K x \<longleftrightarrow>
     (bs_ended x \<longrightarrow> \<not> st_write_pending (bs_stream x) \<and> sys_reported (bs_sys x) = bs_base x @ bs_data x \<and>
        ((\<exists>n. bs_pc x = Body_finishing n) \<or> (\<exists>r. bs_pc x = Body_done r))) \<and>
     (\<forall>n. bs_pc x = Body_finishing n \<longrightarrow> st_write_eof_requested (bs_stream x) \<and>
        (ev_is_set K (st_write_progress (bs_stream x)) \<longrightarrow> bs_ended x \<or> st_closed (bs_stream x))) \<and>
     (\<forall>n. bs_pc x = Body_done (None, n) \<longrightarrow> bs_ended x \<or> st_closed (bs_stream x))"

definition body_inv ::
  "('e, 'b, 'c) capy \<Rightarrow> 'w composed_write \<Rightarrow> ('w \<Rightarrow> write_view) \<Rightarrow> ('b \<Rightarrow> byte list) \<Rightarrow> ('b \<Rightarrow> nat)
    \<Rightarrow> ('c \<Rightarrow> byte list) \<Rightarrow> ('e, 'b, 'c, 'w) body_sys \<Rightarrow> bool" where
  "body_inv K W view written room rest x \<longleftrightarrow>
     library_ok K written room rest \<and> composed_write_ok K W view \<and>
     sys_inv K written room rest (bs_sys x) \<and>
     body_control x \<and> body_balance view x \<and> body_ending K x"

lemmas body_defs = body_control_def body_balance_def body_ending_def Let_def

lemma body_invD:
  assumes "body_inv K W view written room rest x"
  shows "library_ok K written room rest" "composed_write_ok K W view"
    "sys_inv K written room rest (bs_sys x)" "body_control x" "body_balance view x" "body_ending K x"
  using assms by (simp_all add: body_inv_def)

lemma body_starts_inv:
  assumes "body_starts K W view written room rest bufs x"
  shows "body_inv K W view written room rest x"
proof -
  have inv: "sys_inv K written room rest (bs_sys x)"
    using assms by (auto simp: body_starts_def intro: stream_inv.inv_reachable)
  then have "sys_reported (bs_sys x) = bs_base x"
    using assms by (simp add: body_starts_def sys_inv_def write_inv_def Let_def)
  with inv assms composed_write_start [of K W view bufs] show ?thesis
    by (auto simp: body_starts_def body_inv_def body_defs)
qed

subsection \<open>Every step is a step of the stream\<close>

lemma body_env_stream: "body_env K written rest s eof t \<Longrightarrow> stream_step K written rest s t"
  by (induction rule: body_env.induct) (auto intro: stream_step.intros)

lemma body_own_step_stream:
  assumes "body_own_step K W rest x y" "body_control x"
  shows "stream_step K written rest (bs_sys x) (bs_sys y) \<or> bs_sys y = bs_sys x"
  using assms
proof (induction rule: body_own_step.induct)
  case (body_call_write x w s bufs st' effs)
  with step_write [of s K bufs False st' effs written rest] show ?case
    by (simp add: write_some_def body_control_def)
next
  case (body_wake_write x w s e n st')
  with step_write_wake [of s K e n st' written rest] show ?case by (simp add: wait_ends_def body_control_def)
next
  case (body_call_eof x n s st' effs)
  with step_write [of s K "[]" True st' effs written rest] show ?case
    by (simp add: write_eof_def body_control_def)
next
  case (body_wake_eof x n s e m st')
  with step_write_wake [of s K e m st' written rest] show ?case by (simp add: wait_ends_def body_control_def)
qed (auto simp: write_some_def write_eof_def dest!: write_refused)

lemma body_step_sys_inv:
  assumes "body_step K W written rest x y" "body_inv K W view written room rest x"
  shows "sys_inv K written room rest (bs_sys y)"
  using assms
proof (induction rule: body_step.induct)
  case (body_other x eof t)
  then show ?case by (auto simp: body_inv_def intro: stream_step_inv dest: body_env_stream)
next
  case (body_own x y)
  note I = body_invD [OF body_own.prems]
  from body_own_step_stream [OF body_own.hyps I(4)] I(3) show ?case by (metis stream_step_inv)
qed

subsection \<open>Steps of the others\<close>

lemma body_env_frame:
  assumes "body_inv K W view written room rest x" "body_env K written rest (bs_sys x) eof t"
  shows "body_control (x\<lparr>bs_sys := t, bs_ended := (bs_ended x \<or> eof)\<rparr>) \<and>
    body_balance view (x\<lparr>bs_sys := t, bs_ended := (bs_ended x \<or> eof)\<rparr>)"
  using assms(2)
proof cases
  case (env_pull len res st')
  with body_invD(4,5) [OF assms(1)] producer_callback_eof(1) [OF env_pull(2)] show ?thesis
    by (auto simp: body_control_def body_balance_def Let_def split: body_pc.splits)
next
  case env_close
  with body_invD(4,5) [OF assms(1)] show ?thesis
    by (auto simp: body_control_def body_balance_def on_close_def Let_def split: body_pc.splits)
next
  case env_other
  with body_invD(4,5) [OF assms(1)] show ?thesis
    by (auto simp: body_control_def body_balance_def write_side_def write_history_def Let_def split: body_pc.splits)
qed

lemma body_pull_ending:
  assumes inv: "body_inv K W view written room rest x"
    and pull: "producer_callback K len (bs_stream x) = (res, eof, st')"
  shows "body_ending K (x\<lparr>bs_sys := (bs_sys x)\<lparr>sys_stream := st', sys_pulled := p\<rparr>,
    bs_ended := (bs_ended x \<or> eof)\<rparr>)"
proof (cases "st_write_pending (bs_stream x)")
  case False
  with body_invD(6) [OF inv] producer_callback_eof [OF pull] producer_callback_frame [OF pull] show ?thesis
    by (auto simp: body_ending_def)
next
  case True
  note I = body_invD [OF inv] and cb = producer_callback_eof [OF pull] producer_callback_frame [OF pull]
  from True I have open_write: "sys_writing (bs_sys x)" "\<not> bs_ended x"
    by (auto simp: sys_inv_def write_inv_def body_ending_def Let_def)
  with I(4) consider (finishing) n where "bs_pc x = Body_finishing n" | (writing) w where "bs_pc x = Body_writing w"
    by (auto simp: body_control_def)
  then show ?thesis
  proof cases
    case finishing
    with I(1,3,5,6) have fin: "sys_write_data (bs_sys x) = []" "st_write_eof_requested (bs_stream x)"
      "source_ok K rest" "write_inv K rest (bs_sys x)" "sys_reported (bs_sys x) = bs_base x @ bs_data x"
      by (auto simp: body_balance_def body_ending_def library_ok_def sys_inv_def Let_def)
    with producer_callback_empty [OF fin(3,4,1) True fin(2) pull] cb finishing show ?thesis
      by (simp add: body_ending_def)
  next
    case writing
    with I(5) have "\<not> st_write_eof_requested (bs_stream x)" by (simp add: body_balance_def Let_def)
    with cb have "\<not> eof" by blast
    with writing open_write(2) show ?thesis by (simp add: body_ending_def)
  qed
qed

lemma body_env_ending:
  assumes "body_inv K W view written room rest x" "body_env K written rest (bs_sys x) eof t"
  shows "body_ending K (x\<lparr>bs_sys := t, bs_ended := (bs_ended x \<or> eof)\<rparr>)"
  using assms(2)
proof cases
  case (env_pull len res st')
  with body_pull_ending [OF assms(1) env_pull(2)] show ?thesis by simp
next
  case env_close
  with body_invD(6) [OF assms(1)] show ?thesis by (auto simp: body_ending_def on_close_def)
next
  case env_other
  with body_invD(6) [OF assms(1)] show ?thesis
    by (auto simp: body_ending_def write_side_def write_history_def)
qed

subsection \<open>Steps of the coroutine\<close>

lemma body_wake_write_frame:
  assumes I: "body_inv K W view written room rest x" and pc: "bs_pc x = Body_writing w"
    and r: "write_impl_resume e (bs_stream x) = ((e, n), st')"
  shows "body_balance view (x\<lparr>bs_sys := (bs_sys x)\<lparr>sys_stream := st', sys_writing := False,
      sys_reported := sys_reported (bs_sys x) @ take n (sys_write_data (bs_sys x))\<rparr>,
    bs_pc := Body_write (cw_answer W w (e, n))\<rparr>)"
proof -
  let ?s = "bs_sys x" and ?k = "wv_total (view w)"
  note I' = body_invD [OF I]
  from I'(5) pc have err: "wv_error (view w) = None" and left: "wv_left (view w) = drop ?k (bs_data x)"
    and k: "?k \<le> length (bs_data x)" "sys_reported ?s = bs_base x @ take ?k (bs_data x)"
    by (simp_all add: body_balance_def Let_def)
  from I'(5) pc left have part: "take (length (sys_write_data ?s)) (drop ?k (bs_data x)) = sys_write_data ?s"
    by (simp add: body_balance_def Let_def)
  have "sys_writing ?s" using I'(4) pc by (simp add: body_control_def)
  then have n: "n \<le> length (sys_write_data ?s)"
    using I'(3) r by (auto simp: sys_inv_def write_inv_def write_impl_resume_def Let_def)
  have len: "length (sys_write_data ?s) \<le> length (bs_data x) - ?k"
    using arg_cong [OF part, of length] by simp
  have "take n (sys_write_data ?s) = take n (drop ?k (bs_data x))"
    using n arg_cong [OF part, of "take n"] by simp
  then have "sys_reported ?s @ take n (sys_write_data ?s) = bs_base x @ take (?k + n) (bs_data x)"
    by (simp add: k(2) take_add)
  moreover have "?k + n \<le> length (bs_data x)" using n len k(1) by linarith
  ultimately show ?thesis
    using composed_write_answer [OF I'(2) err, of e n] left
    by (simp add: body_balance_def Let_def add.commute)
qed

lemma body_own_step_frame:
  assumes "body_own_step K W rest x y" "body_inv K W view written room rest x"
  shows "body_control y \<and> body_balance view y \<and> body_ending K y"
  using assms
proof (induction rule: body_own_step.induct)
  case (body_call_write x w s bufs st' effs)
  note I = body_invD [OF body_call_write(5)]
  note C = composed_write_call [OF I(2) body_call_write(3)]
  have "rest (cb_array K bufs) = concat bufs" using C(3) library_okD(4) [OF I(1)] by (simp add: source_ok_def)
  with I(4-6) C body_call_write(1,2,4) show ?case
    by (auto simp: body_defs write_some_def write_impl_def split: if_splits)
next
  case (body_write_refused x w bufs r st' effs)
  note I = body_invD [OF body_write_refused(4)]
  note C = composed_write_call [OF I(2) body_write_refused(2)]
  have r: "r = (Some Error_eof, 0)" "st' = bs_stream x"
    using write_refused [OF body_write_refused(3) [unfolded write_some_def]] by simp_all
  from composed_write_answer [OF I(2) C(1), of "Some Error_eof" 0] I(4-6) body_write_refused(1) show ?case
    by (auto simp: r body_defs)
next
  case (body_wake_write x w s e n st')
  note I = body_invD [OF body_wake_write(5)]
  have "\<not> bs_ended x" using I(6) body_wake_write(1) by (auto simp: body_ending_def)
  with body_wake_write_frame [OF body_wake_write(5,1) body_wake_write(4) [unfolded body_wake_write(2)]]
    I(4) body_wake_write(1,2) show ?case by (auto simp: body_control_def body_ending_def)
next
  case (body_write_done x w r)
  note I = body_invD [OF body_write_done(3)]
  from composed_write_return [OF I(2), of w "fst r" "snd r"] body_write_done(2)
  have "snd r = wv_total (view w)" "fst r = None \<Longrightarrow> wv_left (view w) = []" by (cases r; simp)+
  with I(4-6) body_write_done(1) show ?case
    by (cases r) (auto simp: body_defs body_after_write_def)
next
  case (body_call_eof x n s st' effs)
  note I = body_invD [OF body_call_eof(4)]
  have "rest (cb_array K []) = []" "event_ok K"
    using library_okD [OF I(1)] by (auto simp: source_ok_def)
  with I(4-6) body_call_eof(1-3) show ?case
    by (auto simp: body_defs write_eof_def write_impl_def event_ok_def split: if_splits)
next
  case (body_eof_refused x n r st' effs)
  note I = body_invD [OF body_eof_refused(3)]
  have r: "r = (Some Error_eof, 0)" "st' = bs_stream x"
    using write_refused [OF body_eof_refused(2) [unfolded write_eof_def]] by simp_all
  from I(4-6) body_eof_refused(1) show ?case by (auto simp: r body_defs)
next
  case (body_wake_eof x n s e m st')
  note I = body_invD [OF body_wake_eof(5)]
  have "st' = (sys_stream s)\<lparr>st_write_pending := False\<rparr>"
    using body_wake_eof(4) by (auto simp: write_impl_resume_def)
  with I(4-6) body_wake_eof(1-3) show ?case
    by (auto simp: body_defs wait_ends_def may_resume_def)
qed

lemma body_step_inv:
  assumes "body_step K W written rest x y" "body_inv K W view written room rest x"
  shows "body_inv K W view written room rest y"
  using assms(1)
proof cases
  case (body_other eof t)
  with body_env_frame [OF assms(2) body_other(2)] body_env_ending [OF assms(2) body_other(2)]
    body_step_sys_inv [OF assms] assms(2) show ?thesis by (simp add: body_inv_def)
next
  case body_own
  from body_own_step_frame [OF body_own assms(2)] body_step_sys_inv [OF assms] assms(2) show ?thesis
    by (simp add: body_inv_def)
qed

interpretation body_reach: step_invariant "body_starts K W view written room rest bufs"
  "body_step K W written rest" "body_inv K W view written room rest"
  for K :: "('e, 'b, 'c) capy" and W :: "'w composed_write" and view written room rest bufs
  by unfold_locales (auto intro: body_starts_inv body_step_inv)

section \<open>A run\<close>

text \<open>The next step of the coroutine when no wait is cancelled.\<close>

definition body_next ::
  "('e, 'b, 'c) capy \<Rightarrow> 'w composed_write \<Rightarrow> ('c \<Rightarrow> byte list)
    \<Rightarrow> ('e, 'b, 'c, 'w) body_sys \<Rightarrow> ('e, 'b, 'c, 'w) body_sys option" where
  "body_next K W rest x =
     (let s = bs_sys x;
          park = (\<lambda>st' bufs pc. x\<lparr>bs_sys := s\<lparr>sys_stream := st', sys_writing := True,
            sys_write_data := rest (cb_array K bufs)\<rparr>, bs_pc := pc\<rparr>);
          wake = (\<lambda>pc. if ev_is_set K (st_write_progress (sys_stream s))
            then (case write_impl_resume None (sys_stream s) of
                    ((e, n), st') \<Rightarrow>
                      Some (x\<lparr>bs_sys := s\<lparr>sys_stream := st', sys_writing := False,
                        sys_reported := sys_reported s @ take n (sys_write_data s)\<rparr>, bs_pc := pc (e, n)\<rparr>))
            else None)
      in case bs_pc x of
           Body_write w \<Rightarrow>
             (case cw_next W w of
                Write_returns r \<Rightarrow> Some (x\<lparr>bs_pc := body_after_write r\<rparr>)
              | Call_write_some bufs \<Rightarrow>
                  (case write_some K bufs (sys_stream s) of
                     (Write_parked, st', effs) \<Rightarrow> Some (park st' bufs (Body_writing w))
                   | (Write_done r, st', effs) \<Rightarrow>
                       Some (x\<lparr>bs_sys := s\<lparr>sys_stream := st'\<rparr>, bs_pc := Body_write (cw_answer W w r)\<rparr>)))
         | Body_writing w \<Rightarrow> wake (\<lambda>r. Body_write (cw_answer W w r))
         | Body_eof n \<Rightarrow>
             (case write_eof K [] (sys_stream s) of
                (Write_parked, st', effs) \<Rightarrow> Some (park st' [] (Body_finishing n))
              | (Write_done r, st', effs) \<Rightarrow>
                  Some (x\<lparr>bs_sys := s\<lparr>sys_stream := st'\<rparr>, bs_pc := Body_done (fst r, n)\<rparr>))
         | Body_finishing n \<Rightarrow> wake (\<lambda>r. Body_done (fst r, n))
         | Body_done r \<Rightarrow> None)"

lemma body_next_step:
  assumes "body_next K W rest x = Some y"
  shows "body_own_step K W rest x y"
proof (cases "bs_pc x")
  case (Body_write w)
  with assms show ?thesis
    by (auto simp: body_next_def Let_def split: write_action.splits prod.splits write_outcome.splits
        intro: body_call_write body_write_refused body_write_done)
next
  case (Body_writing w)
  with assms show ?thesis
    by (auto simp: body_next_def Let_def wait_ends_def may_resume_def write_impl_resume_def
        split: if_splits intro!: body_wake_write)
next
  case (Body_eof n)
  with assms show ?thesis
    by (auto simp: body_next_def Let_def split: prod.splits write_outcome.splits
        intro: body_call_eof body_eof_refused)
next
  case (Body_finishing n)
  with assms show ?thesis
    by (auto simp: body_next_def Let_def wait_ends_def may_resume_def write_impl_resume_def
        split: if_splits intro!: body_wake_eof)
next
  case (Body_done r)
  with assms show ?thesis by (simp add: body_next_def)
qed

type_synonym demo_body = "(bool, byte list \<times> nat, nat \<times> byte list, write_view) body_sys"

datatype body_move = Body_own | Body_pull nat

fun body_event :: "body_move \<Rightarrow> demo_body \<Rightarrow> demo_body" where
  "body_event Body_own x = (case body_next flat_capy plain_write snd x of None \<Rightarrow> x | Some y \<Rightarrow> y)"
| "body_event (Body_pull n) x =
     (case producer_callback flat_capy n (bs_stream x) of
        (res, eof, st') \<Rightarrow>
          x\<lparr>bs_sys := (bs_sys x)\<lparr>sys_stream := st', sys_pulled := sys_pulled (bs_sys x) @ pulled_bytes res\<rparr>,
            bs_ended := (bs_ended x \<or> eof)\<rparr>)"

definition body_call :: "byte list list \<Rightarrow> demo_body" where
  "body_call bufs =
     \<lparr>bs_sys = init_sys flat_capy 1 [], bs_pc = Body_write (cw_start plain_write bufs), bs_base = [],
      bs_data = concat bufs, bs_ended = False\<rparr>"

definition body_run :: "byte list list \<Rightarrow> body_move list \<Rightarrow> demo_body" where
  "body_run bufs evs = foldl (\<lambda>x ev. body_event ev x) (body_call bufs) evs"

abbreviation demo_body_reach :: "byte list list \<Rightarrow> demo_body \<Rightarrow> bool" where
  "demo_body_reach bufs \<equiv> reachable (body_starts flat_capy plain_write (\<lambda>w. w) fst snd snd bufs)
     (body_step flat_capy plain_write fst snd)"

lemma body_event_reach: "demo_body_reach bufs x \<Longrightarrow> demo_body_reach bufs (body_event ev x)"
proof (cases ev)
  case Body_own
  assume "demo_body_reach bufs x"
  with Body_own show ?thesis
    by (auto split: option.split intro: reachable_step body_own body_next_step)
next
  case (Body_pull n)
  assume x: "demo_body_reach bufs x"
  obtain res eof st' where pull: "producer_callback flat_capy n (bs_stream x) = (res, eof, st')"
    by (cases "producer_callback flat_capy n (bs_stream x)")
  from reachable_step [OF x body_other [OF env_pull [OF pull]]] Body_pull pull show ?thesis by simp
qed

lemma body_run_reach: "demo_body_reach bufs (body_run bufs evs)"
proof -
  have "reachable (starts flat_capy fst snd snd) demo_step (init_sys flat_capy 1 [])"
    by (rule reachable_init) (auto simp: starts_def flat_capy_ok)
  then have "demo_body_reach bufs (body_call bufs)"
    using flat_capy_ok plain_write_ok [of flat_capy]
    by (intro reachable_init) (simp add: body_starts_def body_call_def init_sys_def flat_capy_def)
  then have "demo_body_reach bufs (foldl (\<lambda>x ev. body_event ev x) (body_call bufs) evs)"
    by (induction evs rule: rev_induct) (auto intro: body_event_reach)
  then show ?thesis by (simp add: body_run_def)
qed

lemmas body_run_defs = body_run_def body_call_def init_sys_def new_stream_def body_next_def Let_def
  flat_capy_def plain_write_def write_some_def write_eof_def write_impl_def write_impl_resume_def
  producer_callback_def body_after_write_def

definition demo_moves :: "body_move list" where
  "demo_moves = [Body_own, Body_pull 2, Body_own, Body_own, Body_pull 9, Body_own, Body_own, Body_own, Body_pull 9, Body_own]"

lemma demo_moves_state:
  "bs_pc (body_run [[1], [2, 3]] demo_moves) = Body_done (None, 3)"
  "bs_ended (body_run [[1], [2, 3]] demo_moves)"
  "bs_base (body_run [[1], [2, 3]] demo_moves) = []" "bs_data (body_run [[1], [2, 3]] demo_moves) = [1, 2, 3]"
  unfolding demo_moves_def by (simp_all add: body_run_defs)

section \<open>Properties\<close>

text \<open>
  C15. The result of \<open>write_eof(buffers)\<close> is right: when it returns, with an error or without, the number
  it reports is the number of bytes nghttp2 has taken since the call, they are the first bytes of
  the buffers in order, and nothing else was taken; without an error it is all of them, and nghttp2
  has been told that the body ends, unless the stream was closed before it asked.
\<close>

theorem write_eof_reports_what_was_taken:
  assumes "reachable (body_starts K W view written room rest bufs) (body_step K W written rest) x"
    and "bs_pc x = Body_done (e, n)"
  shows "n \<le> length (bs_data x) \<and> sys_pulled (bs_sys x) = bs_base x @ take n (bs_data x) \<and>
    (e = None \<longrightarrow> n = length (bs_data x) \<and> (bs_ended x \<or> st_closed (bs_stream x)))"
proof -
  note I = body_invD [OF body_reach.inv_reachable [OF assms(1)]]
  have "\<not> sys_writing (bs_sys x)" using I(4) assms(2) by (simp add: body_control_def)
  then have "sys_pulled (bs_sys x) = sys_reported (bs_sys x)"
    using I(3) by (simp add: sys_inv_def write_inv_def Let_def)
  with I(5,6) assms(2) show ?thesis by (simp add: body_balance_def body_ending_def Let_def)
qed

theorem write_eof_reports_what_was_taken_witness:
  "sys_pulled (bs_sys (body_run [[1], [2, 3]] demo_moves)) = [1, 2, 3]"
  using write_eof_reports_what_was_taken [OF body_run_reach demo_moves_state(1)] demo_moves_state(3,4) by simp

lemma body_ended_pulled:
  assumes "body_inv K W view written room rest x" "bs_ended x"
  shows "sys_pulled (bs_sys x) = bs_base x @ bs_data x"
proof -
  note I = body_invD [OF assms(1)]
  have "sys_write_data (bs_sys x) = []" if "sys_writing (bs_sys x)"
    using that I(4-6) assms(2) by (auto simp: body_defs)
  then have "sys_pulled (bs_sys x) = sys_reported (bs_sys x)"
    using I(3) by (cases "sys_writing (bs_sys x)") (auto simp: sys_inv_def write_inv_def Let_def)
  with I(6) assms(2) show ?thesis by (simp add: body_ending_def)
qed

text \<open>
  The end of a body is not signalled early: when the data provider sets the end-of-data flag,
  nghttp2 has taken every byte of the buffers; and it is never told of an end while one is still to
  come.
\<close>

theorem body_end_comes_after_all_bytes:
  assumes "reachable (body_starts K W view written room rest bufs) (body_step K W written rest) x" "bs_ended x"
  shows "sys_pulled (bs_sys x) = bs_base x @ bs_data x \<and> \<not> st_write_pending (bs_stream x)"
  using body_ended_pulled [OF body_reach.inv_reachable [OF assms(1)] assms(2)]
    body_invD(6) [OF body_reach.inv_reachable [OF assms(1)]] assms(2)
  by (simp add: body_ending_def)

theorem body_end_comes_after_all_bytes_witness:
  "\<not> st_write_pending (bs_stream (body_run [[1], [2, 3]] demo_moves))"
  using body_end_comes_after_all_bytes [OF body_run_reach demo_moves_state(2)] by simp

text \<open>
  Sending a body does not get stuck: in every reachable state the coroutine has returned, or it can
  take its next step without being cancelled, or it waits for nghttp2 to pull from an open stream on
  which its bytes or the end of its body are on offer and whose data provider is not left deferred.
\<close>

theorem body_never_stuck:
  assumes "reachable (body_starts K W view written room rest bufs) (body_step K W written rest) x"
  shows "(\<exists>r. bs_pc x = Body_done r) \<or>
    (\<exists>y. body_next K W rest x = Some y \<and> body_own_step K W rest x y) \<or>
    st_write_pending (bs_stream x) \<and> \<not> st_closed (bs_stream x) \<and> \<not> st_write_deferred (bs_stream x)"
proof -
  note I = body_invD [OF body_reach.inv_reachable [OF assms]]
  have waits: "ev_is_set K (st_write_progress (bs_stream x)) \<or> st_write_pending (bs_stream x) \<and>
      \<not> st_closed (bs_stream x) \<and> \<not> st_write_deferred (bs_stream x)" if "sys_writing (bs_sys x)"
    using I(3) that by (auto simp: sys_inv_def write_inv_def Let_def)
  show ?thesis
  proof (cases "body_next K W rest x")
    case (Some y)
    with body_next_step [OF this] show ?thesis by blast
  next
    case None
    then show ?thesis
      using waits I(4)
      by (auto simp: body_next_def body_control_def write_impl_resume_def Let_def
          split: body_pc.splits write_action.splits prod.splits write_outcome.splits if_splits)
  qed
qed

theorem body_never_stuck_witness:
  "\<exists>y. body_next flat_capy plain_write snd (body_run [[1], [2, 3]] [Body_own, Body_pull 2]) = Some y"
proof -
  let ?x = "body_run [[1], [2, 3]] [Body_own, Body_pull 2]"
  have "\<not> st_write_pending (bs_stream ?x)" "\<exists>w. bs_pc ?x = Body_writing w" by (simp_all add: body_run_defs)
  with body_never_stuck [OF body_run_reach, of "[[1], [2, 3]]" "[Body_own, Body_pull 2]"] show ?thesis by auto
qed

end
