(* ===== verification/Session_Api.thy ===== *)
theory Session_Api
  imports Handlers Body_Write Session_Messages
begin

text \<open>
  The classes a user of a session holds (\<open>include/nghttp2-corosio/session.hpp\<close>): \<open>Request\<close> and
  \<open>Response\<close> on a server, \<open>ClientRequest\<close> and \<open>ClientResponse\<close> on a client, each bound to one stream of
  the session through a \<open>StreamReader\<close>, a \<open>StreamWriter\<close> and the functions \<open>Session::Impl\<close> supplies.
  The functions here run an operation on the session up to its first suspension; how suspended
  operations go on is in \<open>Http2_Stream\<close>, and \<open>write_eof(buffers)\<close> and \<open>read\<close>, which suspend several
  times, are in theories \<open>Body_Write\<close> and \<open>Body_Read\<close>. What a handler puts into a \<open>Response\<close> is what
  \<open>get_response\<close> on the client reports, and \<open>write_eof()\<close> ends a body.
\<close>

section \<open>Readers and writers\<close>

definition StreamReader_read_some ::
  "('e, 'b, 'c) capy \<Rightarrow> 'ng nghttp2 \<Rightarrow> 'b \<Rightarrow> addr \<Rightarrow> ('ng, 'e, 'b, 'c) session
    \<Rightarrow> ('b read_outcome \<times> ('ng, 'e, 'b, 'c) session) option" where
  "StreamReader_read_some K N bp a s =
     map_option (\<lambda>(out, st, effs). (out, stream_result K N a st effs s)) (read_some K bp (ss_objects s ! a))"

definition StreamWriter_write_some ::
  "('e, 'b, 'c) capy \<Rightarrow> 'ng nghttp2 \<Rightarrow> byte list list \<Rightarrow> addr \<Rightarrow> ('ng, 'e, 'b, 'c) session
    \<Rightarrow> write_outcome \<times> ('ng, 'e, 'b, 'c) session" where
  "StreamWriter_write_some K N bufs a s =
     (case write_some K bufs (ss_objects s ! a) of (out, st, effs) \<Rightarrow> (out, stream_result K N a st effs s))"

text \<open>The function \<open>write_eof_\<close>: it has its own way to the stream, a \<open>Writer\<close> cannot end a body.\<close>

definition stream_write_eof ::
  "('e, 'b, 'c) capy \<Rightarrow> 'ng nghttp2 \<Rightarrow> byte list list \<Rightarrow> addr \<Rightarrow> ('ng, 'e, 'b, 'c) session
    \<Rightarrow> write_outcome \<times> ('ng, 'e, 'b, 'c) session" where
  "stream_write_eof K N bufs a s =
     (case write_eof K bufs (ss_objects s ! a) of (out, st, effs) \<Rightarrow> (out, stream_result K N a st effs s))"

section \<open>Requests and responses on a server\<close>

definition Request_read_some ::
  "('e, 'b, 'c) capy \<Rightarrow> 'ng nghttp2 \<Rightarrow> 'b \<Rightarrow> request \<Rightarrow> ('ng, 'e, 'b, 'c) session
    \<Rightarrow> ('b read_outcome \<times> ('ng, 'e, 'b, 'c) session) option" where
  "Request_read_some K N bp rq s = StreamReader_read_some K N bp (rq_reader rq) s"

text \<open>\<open>handle_request\<close> binds the writer and both functions of a response to the same stream.\<close>

record response =
  rs_stream :: addr
  rs_content_length :: "size_t option"

definition new_response :: "addr \<Rightarrow> response" where
  "new_response a = \<lparr>rs_stream = a, rs_content_length = None\<rparr>"

definition Response_content_length :: "size_t option \<Rightarrow> response \<Rightarrow> response" where
  "Response_content_length v r = r\<lparr>rs_content_length := v\<rparr>"

definition Response_submit ::
  "('e, 'b, 'c) capy \<Rightarrow> 'ng nghttp2 \<Rightarrow> response \<Rightarrow> 32 word \<Rightarrow> headers \<Rightarrow> ('ng, 'e, 'b, 'c) session
    \<Rightarrow> (ec \<times> ('ng, 'e, 'b, 'c) session) option" where
  "Response_submit K N r status headers s =
     submit_response K N (rs_stream r) status
       (case rs_content_length r of
          None \<Rightarrow> headers | Some n \<Rightarrow> headers @ [(''content-length'', to_string (unat n))]) s"

definition Response_write_some ::
  "('e, 'b, 'c) capy \<Rightarrow> 'ng nghttp2 \<Rightarrow> byte list list \<Rightarrow> response \<Rightarrow> ('ng, 'e, 'b, 'c) session
    \<Rightarrow> write_outcome \<times> ('ng, 'e, 'b, 'c) session" where
  "Response_write_some K N bufs r s = StreamWriter_write_some K N bufs (rs_stream r) s"

definition Response_write_eof ::
  "('e, 'b, 'c) capy \<Rightarrow> 'ng nghttp2 \<Rightarrow> response \<Rightarrow> ('ng, 'e, 'b, 'c) session
    \<Rightarrow> write_outcome \<times> ('ng, 'e, 'b, 'c) session" where
  "Response_write_eof K N r s = stream_write_eof K N [] (rs_stream r) s"

section \<open>Requests and responses on a client\<close>

text \<open>
  A \<open>ClientRequest\<close> is bound to a stream, or it is the empty one that comes with an error: its writer
  is empty and its functions are, so that none of its operations has a meaning.
\<close>

type_synonym client_request = "addr option"

definition Session_submit_request ::
  "('e, 'b, 'c) capy \<Rightarrow> 'ng nghttp2 \<Rightarrow> string \<Rightarrow> size_t option \<Rightarrow> headers \<Rightarrow> ('ng, 'e, 'b, 'c) session
    \<Rightarrow> ((ec \<times> client_request) \<times> ('ng, 'e, 'b, 'c) session) option" where
  "Session_submit_request K N path content_length headers s = submit_request K N path content_length headers s"

definition ClientRequest_write_some ::
  "('e, 'b, 'c) capy \<Rightarrow> 'ng nghttp2 \<Rightarrow> byte list list \<Rightarrow> client_request \<Rightarrow> ('ng, 'e, 'b, 'c) session
    \<Rightarrow> (write_outcome \<times> ('ng, 'e, 'b, 'c) session) option" where
  "ClientRequest_write_some K N bufs cq s = map_option (\<lambda>a. StreamWriter_write_some K N bufs a s) cq"

definition ClientRequest_write_eof ::
  "('e, 'b, 'c) capy \<Rightarrow> 'ng nghttp2 \<Rightarrow> client_request \<Rightarrow> ('ng, 'e, 'b, 'c) session
    \<Rightarrow> (write_outcome \<times> ('ng, 'e, 'b, 'c) session) option" where
  "ClientRequest_write_eof K N cq s = map_option (\<lambda>a. stream_write_eof K N [] a s) cq"

text \<open>\<open>get_response\<close> up to the wait of \<open>status()\<close>; \<open>None\<close> in the result means that it waits.\<close>

definition ClientRequest_get_response ::
  "('e, 'b, 'c) capy \<Rightarrow> 'ng nghttp2 \<Rightarrow> client_request \<Rightarrow> ('ng, 'e, 'b, 'c) session
    \<Rightarrow> (client_response io_result option \<times> ('ng, 'e, 'b, 'c) session) option" where
  "ClientRequest_get_response K N cq s =
     map_option (\<lambda>a.
       case status_co K (ss_objects s ! a) of
         (out, st) \<Rightarrow>
           (case out of Status_done r \<Rightarrow> Some (get_response r st) | Status_parked \<Rightarrow> None,
            stream_result K N a st [] s)) cq"

definition ClientResponse_read_some ::
  "('e, 'b, 'c) capy \<Rightarrow> 'ng nghttp2 \<Rightarrow> 'b \<Rightarrow> addr \<Rightarrow> ('ng, 'e, 'b, 'c) session
    \<Rightarrow> ('b read_outcome \<times> ('ng, 'e, 'b, 'c) session) option" where
  "ClientResponse_read_some K N bp a s = StreamReader_read_some K N bp a s"

section \<open>Properties\<close>

lemma stream_result_same:
  "a < length (ss_objects s) \<Longrightarrow> stream_result K N a (ss_objects s ! a) [] s = s"
  by (simp add: stream_result_def apply_effects_def update_object_def)

lemma set_content_lengths:
  "foldl (\<lambda>r v. Response_content_length v r) (new_response a) vs =
     \<lparr>rs_stream = a, rs_content_length = (if vs = [] then None else last vs)\<rparr>"
  by (induction vs rule: rev_induct) (simp_all add: new_response_def Response_content_length_def)

text \<open>The fields of a response with its content length, taken apart by the client.\<close>

lemma response_fields_length:
  assumes "plain_fields hs"
  shows "fields_received K (response_nva status
      (case cl of None \<Rightarrow> hs | Some n \<Rightarrow> hs @ [(''content-length'', to_string (unat n))])) st =
    st\<lparr>st_status := sint status, st_status_ready := ev_set K (st_status_ready st),
       st_content_length := (case cl of None \<Rightarrow> st_content_length st | Some n \<Rightarrow> Some n),
       st_headers := st_headers st @ hs @
         (case cl of None \<Rightarrow> [] | Some n \<Rightarrow> [(''content-length'', to_string (unat n))])\<rparr>"
proof (cases cl)
  case (Some n)
  have "response_nva status (hs @ [(''content-length'', to_string (unat n))]) =
      response_nva status hs @ [(''content-length'', to_string (unat n))]"
    by (simp add: response_nva_def make_nv_def)
  then show ?thesis
    using Some by (simp add: response_fields [OF assms] header_field_def set_content_length_def add_header_def)
qed (simp add: response_fields [OF assms])

text \<open>
  C31. A response arrives as the handler made it: whatever content lengths it has set, in
  whatever order, \<open>submit\<close> hands nghttp2 one list of fields for the stream of the response; when a
  client's stream receives these fields, \<open>get_response\<close> returns without waiting and reports that
  status, for every status below 2 to the 31, the content length that was set last or none if that
  was empty, and the headers in their order, followed by the field content-length.
\<close>

theorem response_arrives_as_made:
  assumes "ss_native server = Some g" "plain_fields hs" "unat status < 2 ^ 31"
    and "session_inv client" "find_stream client (fr_stream_id f) = Some b"
    and "st_content_length (ss_objects client ! b) = None"
    and "cl = (if vs = [] then None else last vs)"
  shows "\<exists>nva.
    Response_submit K N (foldl (\<lambda>r v. Response_content_length v r) (new_response a) vs) status hs server =
      (case ng_submit_response2 N g (st_id (ss_objects server ! a)) nva a of
         (rv, g') \<Rightarrow>
           Some (if rv \<noteq> 0 then (Some Errc_invalid_argument, server\<lparr>ss_native := Some g'\<rparr>)
                 else (None, start_write K (server\<lparr>ss_native := Some g'\<rparr>)))) \<and>
    (let client' = run_callbacks K N' (map (\<lambda>(name, value). Cb_header f name value) nva) client
     in ClientRequest_get_response K N' (Some b) client' =
          Some (Some (None, \<lparr>cr_status = status, cr_content_length = cl,
            cr_headers = st_headers (ss_objects client ! b) @ hs @
              (case cl of None \<Rightarrow> [] | Some n \<Rightarrow> [(''content-length'', to_string (unat n))])\<rparr>), client'))"
proof -
  let ?nva = "response_nva status (case cl of None \<Rightarrow> hs | Some n \<Rightarrow> hs @ [(''content-length'', to_string (unat n))])"
  define client' where "client' = run_callbacks K N' (map (\<lambda>(name, value). Cb_header f name value) ?nva) client"
  have "Response_submit K N (foldl (\<lambda>r v. Response_content_length v r) (new_response a) vs) status hs server =
      (case ng_submit_response2 N g (st_id (ss_objects server ! a)) ?nva a of
         (rv, g') \<Rightarrow>
           Some (if rv \<noteq> 0 then (Some Errc_invalid_argument, server\<lparr>ss_native := Some g'\<rparr>)
                 else (None, start_write K (server\<lparr>ss_native := Some g'\<rparr>))))"
    using assms(1,7)
    by (simp only: set_content_lengths) (simp add: Response_submit_def submit_response_def split: prod.split option.split)
  moreover have "ClientRequest_get_response K N' (Some b) client' =
      Some (Some (None, \<lparr>cr_status = status, cr_content_length = cl,
        cr_headers = st_headers (ss_objects client ! b) @ hs @
          (case cl of None \<Rightarrow> [] | Some n \<Rightarrow> [(''content-length'', to_string (unat n))])\<rparr>), client')"
  proof -
    have "ss_objects client' ! b = fields_received K ?nva (ss_objects client ! b)" and b: "b < length (ss_objects client')"
      using assms(4,5) session_invD(1) [OF assms(4,5)]
      by (simp_all add: client'_def header_callbacks object_update_object with_stream_def)
    then have st: "st_status (ss_objects client' ! b) = sint status" "st_content_length (ss_objects client' ! b) = cl"
      "st_headers (ss_objects client' ! b) = st_headers (ss_objects client ! b) @ hs @
        (case cl of None \<Rightarrow> [] | Some n \<Rightarrow> [(''content-length'', to_string (unat n))])"
      using assms(6) by (simp_all add: response_fields_length [OF assms(2)] split: option.split)
    have "\<not> sint status < 0" using assms(3) by (simp add: sint_less_0_iff)
    then show ?thesis
      by (simp add: ClientRequest_get_response_def status_co_def get_response_def st stream_result_same [OF b])
  qed
  ultimately show ?thesis unfolding client'_def by (intro exI [of _ ?nva]) (simp add: Let_def)
qed

definition demo_client :: "(unit, bool, byte list \<times> nat, nat \<times> byte list) session" where
  "demo_client = demo_ready\<lparr>ss_role := Role_client, ss_streams := [(1, 0)],
     ss_objects := [new_stream flat_capy 1 (log_prefix Role_client 1)]\<rparr>"

theorem response_arrives_as_made_witness:
  "\<exists>nva client'. client' = run_callbacks flat_capy demo_N
       (map (\<lambda>(name, value). Cb_header (request_frame 1 False) name value) nva) demo_client \<and>
     ClientRequest_get_response flat_capy demo_N (Some 0) client' =
       Some (Some (None, \<lparr>cr_status = 200, cr_content_length = Some 12,
         cr_headers = [(''x'', ''y''), (''content-length'', ''12'')]\<rparr>), client')"
proof -
  have "session_inv demo_client" "find_stream demo_client 1 = Some 0"
    "st_content_length (ss_objects demo_client ! 0) = None" "st_headers (ss_objects demo_client ! 0) = []"
    by (simp_all add: demo_client_def session_inv_def find_stream_def new_stream_def demo_ready_def new_session_def)
  moreover have "plain_fields [(''x'', ''y'')]" by (simp add: plain_fields_def pseudo_def)
  moreover have "ss_native demo_ready = Some ()" by (simp add: demo_ready_def)
  ultimately show ?thesis
    using response_arrives_as_made [of demo_ready "()" "[(''x'', ''y'')]" 200 demo_client "request_frame 1 False" 0
        "Some 12" "[Some 3, Some 12]" flat_capy demo_N 0 demo_N]
    by (auto simp: request_frame_def Let_def decimal_examples)
qed

text \<open>
  \<open>write_eof()\<close> ends a body, on a server and on a client: on an open stream it suspends, it has
  nghttp2 ask again for data that was deferred, and it wakes the send loop; the next time nghttp2 asks
  the data provider it is told that there is no byte and that the body has ended, and the caller
  is woken and reports success.
\<close>

theorem write_eof_ends_body:
  assumes "event_ok K" "source_ok K rest" "a < length (ss_objects s)" "\<not> st_closed (ss_objects s ! a)"
    and "rs_stream r = a"
  shows "\<exists>t t'. Response_write_eof K N r s = (Write_parked, t) \<and>
    ClientRequest_write_eof K N (Some a) s = Some (Write_parked, t) \<and>
    ss_native t = (if st_write_deferred (ss_objects s ! a)
      then map_option (\<lambda>g. ng_resume_data N g (st_id (ss_objects s ! a))) (ss_native s) else ss_native s) \<and>
    ev_is_set K (ss_write_ready t) \<and>
    data_source_read_callback K a len t = (Reply_data (Copied []) True, t') \<and>
    may_resume K None (st_write_progress (ss_objects t' ! a)) \<and>
    fst (write_impl_resume None (ss_objects t' ! a)) = (None, 0)"
proof -
  have empty: "cb_copy K (cb_array K []) n = []" "cb_byte_size K (cb_consume K (cb_array K []) m) = 0" for n m
    using assms(2) unfolding source_ok_def by (metis concat.simps(1) length_0_conv list.size(3) take_Nil zero_le)+
  show ?thesis
    using assms(1,3-5)
    by (auto simp: Response_write_eof_def ClientRequest_write_eof_def stream_write_eof_def stream_result_def
        apply_effects_def write_eof_def write_impl_def write_impl_resume_def Let_def data_source_read_callback_def
        update_object_def producer_callback_def with_native_def start_write_def empty may_resume_def event_ok_def)
qed

theorem write_eof_ends_body_witness:
  "\<exists>t. Response_write_eof flat_capy demo_N (new_response 0) demo_session = (Write_parked, t)"
proof -
  have "0 < length (ss_objects demo_session)" "\<not> st_closed (ss_objects demo_session ! 0)"
    by (simp_all add: demo_session_eval set_path_def new_stream_def)
  from write_eof_ends_body [OF library_okD(1,4) [OF flat_capy_ok] this, of "new_response 0" demo_N] show ?thesis
    by (auto simp: new_response_def)
qed

end
