(* ===== verification/Body_Read.thy ===== *)
theory Body_Read
  imports Composed_Write
begin

text \<open>
  \<open>Session::Request::read\<close>: the buffers go to the composed \<open>capy::read\<close>, which calls \<open>read_some\<close> of
  the stream's reader again and again. \<open>capy::read\<close> belongs to the capy library and is a parameter:
  a state that says which call comes next, or that the operation returns, and that is told what each
  call answered. \<open>composed_read_ok\<close> is its documented behaviour: it goes on with what is left of the
  buffers until they are full or a call reports an error, and returns the number of bytes read. The
  coroutine is followed on its stream while nghttp2 delivers, ends and closes at any moment and other
  coroutines write to the stream or wait for its status.
\<close>

section \<open>The composed operation as a parameter\<close>

datatype 'b read_action = Call_read_some 'b | Read_returns "nat io_result"

record ('r, 'b) composed_read =
  cr_start :: "'b \<Rightarrow> 'r"
  cr_next :: "'r \<Rightarrow> 'b read_action"
  cr_answer :: "'r \<Rightarrow> nat io_result \<Rightarrow> 'r"

text \<open>What is known of a state: the room left, the number of bytes read, the error met.\<close>

record read_view =
  rv_left :: nat
  rv_total :: nat
  rv_error :: ec

definition composed_read_ok ::
  "('r, 'b) composed_read \<Rightarrow> ('r \<Rightarrow> read_view) \<Rightarrow> ('b \<Rightarrow> byte list) \<Rightarrow> ('b \<Rightarrow> nat) \<Rightarrow> bool" where
  "composed_read_ok R view written room \<longleftrightarrow>
     (\<forall>buf. view (cr_start R buf) = \<lparr>rv_left = room buf, rv_total = 0, rv_error = None\<rparr>) \<and>
     (\<forall>r. if rv_error (view r) \<noteq> None \<or> rv_left (view r) = 0
          then cr_next R r = Read_returns (rv_error (view r), rv_total (view r))
          else \<exists>bp. cr_next R r = Call_read_some bp \<and> written bp = [] \<and> 0 < room bp \<and>
                 room bp \<le> rv_left (view r)) \<and>
     (\<forall>r e n. rv_error (view r) = None \<longrightarrow>
        view (cr_answer R r (e, n)) =
          \<lparr>rv_left = rv_left (view r) - n, rv_total = rv_total (view r) + n, rv_error = e\<rparr>)"

lemma composed_read_next:
  assumes "composed_read_ok R view written room"
  shows "if rv_error (view r) \<noteq> None \<or> rv_left (view r) = 0
    then cr_next R r = Read_returns (rv_error (view r), rv_total (view r))
    else \<exists>bp. cr_next R r = Call_read_some bp \<and> written bp = [] \<and> 0 < room bp \<and> room bp \<le> rv_left (view r)"
  using assms unfolding composed_read_ok_def by blast

lemma composed_read_call:
  assumes "composed_read_ok R view written room" "cr_next R r = Call_read_some bp"
  shows "rv_error (view r) = None" "written bp = []" "0 < room bp" "room bp \<le> rv_left (view r)"
  using composed_read_next [OF assms(1), of r] assms(2) by (auto split: if_splits)

lemma composed_read_return:
  assumes "composed_read_ok R view written room" "cr_next R r = Read_returns (e, n)"
  shows "e = rv_error (view r)" "n = rv_total (view r)" "e = None \<Longrightarrow> rv_left (view r) = 0"
  using composed_read_next [OF assms(1), of r] assms(2) by (auto split: if_splits)

lemma composed_read_start:
  "composed_read_ok R view written room \<Longrightarrow>
     view (cr_start R buf) = \<lparr>rv_left = room buf, rv_total = 0, rv_error = None\<rparr>"
  by (simp add: composed_read_ok_def)

lemma composed_read_answer:
  "composed_read_ok R view written room \<Longrightarrow> rv_error (view r) = None \<Longrightarrow>
     view (cr_answer R r (e, n)) =
       \<lparr>rv_left = rv_left (view r) - n, rv_total = rv_total (view r) + n, rv_error = e\<rparr>"
  by (simp add: composed_read_ok_def)

section \<open>The system\<close>

datatype 'r fetch_pc = Fetch_call 'r | Fetch_waiting 'r | Fetch_done "nat io_result"

text \<open>
  \<open>fs_base\<close> is what reads of the stream had returned before the call, \<open>fs_size\<close> the size of the
  buffers.
\<close>

record ('e, 'b, 'c, 'r) fetch_sys =
  fs_sys :: "('e, 'b, 'c) stream_sys"
  fs_pc :: "'r fetch_pc"
  fs_base :: "byte list"
  fs_size :: nat

abbreviation fs_stream :: "('e, 'b, 'c, 'r) fetch_sys \<Rightarrow> ('e, 'b, 'c) stream" where
  "fs_stream x \<equiv> sys_stream (fs_sys x)"

definition read_history :: "('e, 'b, 'c) stream_sys \<Rightarrow> byte list \<times> byte list \<times> nat" where
  "read_history s = (sys_received s, sys_delivered s, sys_consumed s)"

text \<open>
  The others: nghttp2 delivers, ends or closes, and steps that do not touch the read side. There is
  no data after the end of the body or on a stream that has been closed and left the table.
\<close>

inductive fetch_env ::
  "('e, 'b, 'c) capy \<Rightarrow> ('b \<Rightarrow> byte list) \<Rightarrow> ('c \<Rightarrow> byte list)
    \<Rightarrow> ('e, 'b, 'c) stream_sys \<Rightarrow> ('e, 'b, 'c) stream_sys \<Rightarrow> bool"
  for K written rest where
  fetch_data:
    "\<not> st_read_eof (sys_stream s) \<Longrightarrow> \<not> st_closed (sys_stream s) \<Longrightarrow>
     fetch_env K written rest s
       (s\<lparr>sys_stream := on_data K d (sys_stream s), sys_received := sys_received s @ d\<rparr>)"
| fetch_eof: "fetch_env K written rest s (s\<lparr>sys_stream := on_read_eof K (sys_stream s)\<rparr>)"
| fetch_close: "fetch_env K written rest s (s\<lparr>sys_stream := on_close K (sys_stream s)\<rparr>)"
| fetch_other:
    "stream_step K written rest s t \<Longrightarrow> read_side (sys_stream t) = read_side (sys_stream s) \<Longrightarrow>
     read_history t = read_history s \<Longrightarrow> fetch_env K written rest s t"

text \<open>The stream after a part of \<open>read_some\<close>, and the control flow after it.\<close>

definition fetch_read ::
  "('b \<Rightarrow> byte list) \<Rightarrow> 'b read_outcome \<Rightarrow> ('e, 'b, 'c) stream \<Rightarrow> stream_effect list
    \<Rightarrow> ('e, 'b, 'c) stream_sys \<Rightarrow> ('e, 'b, 'c) stream_sys" where
  "fetch_read written out st effs s =
     s\<lparr>sys_stream := st, sys_delivered := sys_delivered s @ returned written out,
       sys_consumed := sys_consumed s + credited effs\<rparr>"

definition fetch_after_read ::
  "('r, 'b) composed_read \<Rightarrow> 'r \<Rightarrow> 'b read_outcome \<Rightarrow> 'r fetch_pc" where
  "fetch_after_read R r out =
     (case out of Read_parked \<Rightarrow> Fetch_waiting r | Read_done res bp \<Rightarrow> Fetch_call (cr_answer R r res))"

inductive fetch_own_step ::
  "('e, 'b, 'c) capy \<Rightarrow> ('r, 'b) composed_read \<Rightarrow> ('b \<Rightarrow> byte list)
    \<Rightarrow> ('e, 'b, 'c, 'r) fetch_sys \<Rightarrow> ('e, 'b, 'c, 'r) fetch_sys \<Rightarrow> bool"
  for K R written where
  fetch_call_read:
    "fs_pc x = Fetch_call r \<Longrightarrow> cr_next R r = Call_read_some bp \<Longrightarrow>
     read_some K bp (fs_stream x) = Some (out, st', effs) \<Longrightarrow>
     fetch_own_step K R written x
       (x\<lparr>fs_sys := fetch_read written out st' effs (fs_sys x), fs_pc := fetch_after_read R r out\<rparr>)"
| fetch_wake:
    "fs_pc x = Fetch_waiting r \<Longrightarrow> st_read_sink (fs_stream x) = Some sink \<Longrightarrow>
     wait_ends K e (st_read_ready (fs_stream x)) \<Longrightarrow>
     read_some_resume K e sink (fs_stream x) = (out, st', effs) \<Longrightarrow>
     fetch_own_step K R written x
       (x\<lparr>fs_sys := fetch_read written out st' effs (fs_sys x), fs_pc := fetch_after_read R r out\<rparr>)"
| fetch_return:
    "fs_pc x = Fetch_call r \<Longrightarrow> cr_next R r = Read_returns res \<Longrightarrow>
     fetch_own_step K R written x (x\<lparr>fs_pc := Fetch_done res\<rparr>)"

inductive fetch_step ::
  "('e, 'b, 'c) capy \<Rightarrow> ('r, 'b) composed_read \<Rightarrow> ('b \<Rightarrow> byte list) \<Rightarrow> ('c \<Rightarrow> byte list)
    \<Rightarrow> ('e, 'b, 'c, 'r) fetch_sys \<Rightarrow> ('e, 'b, 'c, 'r) fetch_sys \<Rightarrow> bool"
  for K R written rest where
  fetch_others: "fetch_env K written rest (fs_sys x) t \<Longrightarrow> fetch_step K R written rest x (x\<lparr>fs_sys := t\<rparr>)"
| fetch_own: "fetch_own_step K R written x y \<Longrightarrow> fetch_step K R written rest x y"

text \<open>The call: a stream in any state it can be in, on which nobody reads.\<close>

definition fetch_starts ::
  "('e, 'b, 'c) capy \<Rightarrow> ('r, 'b) composed_read \<Rightarrow> ('r \<Rightarrow> read_view) \<Rightarrow> ('b \<Rightarrow> byte list) \<Rightarrow> ('b \<Rightarrow> nat)
    \<Rightarrow> ('c \<Rightarrow> byte list) \<Rightarrow> 'b \<Rightarrow> ('e, 'b, 'c, 'r) fetch_sys \<Rightarrow> bool" where
  "fetch_starts K R view written room rest buf x \<longleftrightarrow>
     library_ok K written room rest \<and> composed_read_ok R view written room \<and>
     reachable (starts K written room rest) (stream_step K written rest) (fs_sys x) \<and>
     st_read_sink (fs_stream x) = None \<and> fs_pc x = Fetch_call (cr_start R buf) \<and>
     fs_base x = sys_delivered (fs_sys x) \<and> fs_size x = room buf"

section \<open>The invariant\<close>

fun fetch_view :: "('r \<Rightarrow> read_view) \<Rightarrow> 'r fetch_pc \<Rightarrow> nat \<times> ec" where
  "fetch_view view (Fetch_call r) = (rv_total (view r), rv_error (view r))"
| "fetch_view view (Fetch_waiting r) = (rv_total (view r), rv_error (view r))"
| "fetch_view view (Fetch_done (e, n)) = (n, e)"

text \<open>Where the coroutine is suspended shows in the stream.\<close>

definition fetch_control :: "('r \<Rightarrow> read_view) \<Rightarrow> ('b \<Rightarrow> nat) \<Rightarrow> ('e, 'b, 'c, 'r) fetch_sys \<Rightarrow> bool" where
  "fetch_control view room x \<longleftrightarrow>
     (case st_read_sink (fs_stream x) of
        None \<Rightarrow> \<forall>r. fs_pc x \<noteq> Fetch_waiting r
      | Some sink \<Rightarrow>
          \<exists>r. fs_pc x = Fetch_waiting r \<and> rv_error (view r) = None \<and> 0 < room (sink_bp sink) + sink_copied sink \<and>
              room (sink_bp sink) + sink_copied sink \<le> rv_left (view r))"

text \<open>What reads returned since the call is what the call has counted.\<close>

definition fetch_balance :: "('r \<Rightarrow> read_view) \<Rightarrow> ('e, 'b, 'c, 'r) fetch_sys \<Rightarrow> bool" where
  "fetch_balance view x \<longleftrightarrow>
     (\<exists>got. sys_delivered (fs_sys x) = fs_base x @ got \<and> length got = fst (fetch_view view (fs_pc x))) \<and>
     (case fs_pc x of
        Fetch_done (e, n) \<Rightarrow> n \<le> fs_size x \<and> (e = None \<longrightarrow> n = fs_size x)
      | Fetch_call r \<Rightarrow> rv_total (view r) + rv_left (view r) = fs_size x
      | Fetch_waiting r \<Rightarrow> rv_total (view r) + rv_left (view r) = fs_size x)"

text \<open>An error is the end of the stream, after everything was read, or a cancellation.\<close>

definition fetch_cause :: "('r \<Rightarrow> read_view) \<Rightarrow> ('e, 'b, 'c, 'r) fetch_sys \<Rightarrow> bool" where
  "fetch_cause view x \<longleftrightarrow>
     (case snd (fetch_view view (fs_pc x)) of
        None \<Rightarrow> True
      | Some Error_eof \<Rightarrow> st_read_eof (fs_stream x) \<and> sys_received (fs_sys x) = sys_delivered (fs_sys x)
      | Some Error_stream_truncated \<Rightarrow>
          st_closed (fs_stream x) \<and> sys_received (fs_sys x) = sys_delivered (fs_sys x)
      | Some e \<Rightarrow> e = Error_canceled)"

definition fetch_inv ::
  "('e, 'b, 'c) capy \<Rightarrow> ('r, 'b) composed_read \<Rightarrow> ('r \<Rightarrow> read_view) \<Rightarrow> ('b \<Rightarrow> byte list) \<Rightarrow> ('b \<Rightarrow> nat)
    \<Rightarrow> ('c \<Rightarrow> byte list) \<Rightarrow> ('e, 'b, 'c, 'r) fetch_sys \<Rightarrow> bool" where
  "fetch_inv K R view written room rest x \<longleftrightarrow>
     library_ok K written room rest \<and> composed_read_ok R view written room \<and>
     sys_inv K written room rest (fs_sys x) \<and>
     fetch_control view room x \<and> fetch_balance view x \<and> fetch_cause view x"

lemmas fetch_defs = fetch_control_def fetch_balance_def fetch_cause_def

lemma fetch_invD:
  assumes "fetch_inv K R view written room rest x"
  shows "library_ok K written room rest" "composed_read_ok R view written room"
    "sys_inv K written room rest (fs_sys x)" "fetch_control view room x" "fetch_balance view x" "fetch_cause view x"
  using assms by (simp_all add: fetch_inv_def)

lemma fetch_starts_inv:
  assumes "fetch_starts K R view written room rest buf x"
  shows "fetch_inv K R view written room rest x"
  using assms composed_read_start [of R view written room buf]
  by (auto simp: fetch_starts_def fetch_inv_def fetch_defs intro: stream_inv.inv_reachable)

subsection \<open>Steps of the others\<close>

lemma fetch_env_stream: "fetch_env K written rest s t \<Longrightarrow> stream_step K written rest s t"
  by (induction rule: fetch_env.induct) (auto intro: stream_step.intros)

lemma fetch_cause_end:
  assumes "fetch_cause view x" "sys_received t = sys_received (fs_sys x)" "sys_delivered t = sys_delivered (fs_sys x)"
    and "st_read_eof (fs_stream x) \<Longrightarrow> st_read_eof (sys_stream t)"
    and "st_closed (fs_stream x) \<Longrightarrow> st_closed (sys_stream t)"
  shows "fetch_cause view (x\<lparr>fs_sys := t\<rparr>)"
  using assms by (auto simp: fetch_cause_def split: option.splits error_code.splits)

lemma fetch_cause_data:
  assumes "fetch_cause view x" "\<not> st_read_eof (fs_stream x)" "\<not> st_closed (fs_stream x)"
  shows "fetch_cause view (x\<lparr>fs_sys := t\<rparr>)"
  using assms by (auto simp: fetch_cause_def split: option.splits error_code.splits)

lemma fetch_balance_frame:
  assumes "fetch_balance view x" "sys_delivered t = sys_delivered (fs_sys x)"
  shows "fetch_balance view (x\<lparr>fs_sys := t\<rparr>)"
  using assms by (cases "fs_pc x") (auto simp: fetch_balance_def)

lemma fetch_env_frame:
  assumes "fetch_inv K R view written room rest x" "fetch_env K written rest (fs_sys x) t"
  shows "fetch_control view room (x\<lparr>fs_sys := t\<rparr>) \<and> fetch_balance view (x\<lparr>fs_sys := t\<rparr>) \<and>
    fetch_cause view (x\<lparr>fs_sys := t\<rparr>)"
proof -
  note I = fetch_invD [OF assms(1)]
  note ends = fetch_balance_frame [OF I(5)] fetch_cause_end [OF I(6)] fetch_cause_data [OF I(6)]
  from assms(2) show ?thesis
  proof cases
    case (fetch_data d)
    with I(4) on_data_sink_room [OF library_okD(2) [OF I(1)], of "fs_stream x" d] show ?thesis
      by (auto simp: fetch_control_def ends split: option.splits)
  next
    case fetch_eof
    with I(4) show ?thesis by (auto simp: fetch_control_def on_read_eof_def intro!: ends(1,2) split: option.splits)
  next
    case fetch_close
    with I(4) show ?thesis by (auto simp: fetch_control_def on_close_def intro!: ends(1,2) split: option.splits)
  next
    case fetch_other
    with I(4) show ?thesis
      by (auto simp: fetch_control_def read_side_def read_history_def intro!: ends(1,2) split: option.splits)
  qed
qed

subsection \<open>Steps of the coroutine\<close>

lemma fetch_own_step_stream:
  assumes "fetch_own_step K R written x y" "fetch_inv K R view written room rest x"
  shows "stream_step K written rest (fs_sys x) (fs_sys y) \<or> fs_sys y = fs_sys x"
  using assms
proof (induction rule: fetch_own_step.induct)
  case (fetch_call_read x r bp out st' effs)
  note I = fetch_invD [OF fetch_call_read.prems]
  have "st_read_sink (fs_stream x) = None"
    using I(4) fetch_call_read.hyps(1) by (auto simp: fetch_control_def split: option.splits)
  with step_read [of "fs_sys x" written bp K out st' effs rest] fetch_call_read.hyps(3)
    composed_read_call [OF I(2) fetch_call_read.hyps(2)] show ?case by (simp add: fetch_read_def)
next
  case (fetch_wake x r sink e out st' effs)
  with step_read_wake [of "fs_sys x" sink K e out st' effs written rest] show ?case
    by (simp add: fetch_read_def wait_ends_def)
qed simp

text \<open>
  The three things a part of \<open>read_some\<close> can come back with: bytes, an error without bytes, or that
  it waits.
\<close>

definition fetching :: "('r \<Rightarrow> read_view) \<Rightarrow> 'r \<Rightarrow> ('e, 'b, 'c, 'r) fetch_sys \<Rightarrow> bool" where
  "fetching view r x \<longleftrightarrow>
     (fs_pc x = Fetch_call r \<or> fs_pc x = Fetch_waiting r) \<and> rv_error (view r) = None"

lemma fetchingD:
  assumes "fetch_balance view x" "fetching view r x"
  shows "rv_error (view r) = None" "rv_total (view r) + rv_left (view r) = fs_size x"
    "\<exists>got. sys_delivered (fs_sys x) = fs_base x @ got \<and> length got = rv_total (view r)"
  using assms by (auto simp: fetching_def fetch_balance_def)

lemma fetch_after_data:
  assumes inv: "fetch_inv K R view written room rest x" and r: "fetching view r x"
    and "out = Read_done (None, n) bp" "st_read_sink st' = None"
    and "length (returned written out) = n" "n \<le> rv_left (view r)"
    and y: "y = x\<lparr>fs_sys := fetch_read written out st' effs (fs_sys x), fs_pc := fetch_after_read R r out\<rparr>"
  shows "fetch_control view room y \<and> fetch_balance view y \<and> fetch_cause view y"
proof -
  note I = fetch_invD [OF inv] and D = fetchingD [OF fetch_invD(5) [OF inv] r]
  note view = composed_read_answer [OF I(2) D(1)]
  from D(3) obtain got where "sys_delivered (fs_sys x) = fs_base x @ got" "length got = rv_total (view r)" by blast
  then have "\<exists>got. sys_delivered (fs_sys y) = fs_base y @ got \<and> length got = rv_total (view r) + n"
    using assms(5) by (intro exI [of _ "got @ returned written out"]) (simp add: y fetch_read_def)
  with assms(3,4,6) D(2) view [of None n] show ?thesis
    by (simp add: y fetch_defs fetch_read_def fetch_after_read_def)
qed

lemma fetch_after_error:
  assumes inv: "fetch_inv K R view written room rest x" and r: "fetching view r x"
    and "out = Read_done (Some e, 0) bp" "st_read_sink st' = None"
    and cause: "e = Error_canceled \<or> Some e = eof_error st' \<and> (st_read_eof st' \<or> st_closed st') \<and>
      sys_received (fs_sys x) = sys_delivered (fs_sys x)"
    and y: "y = x\<lparr>fs_sys := fetch_read written out st' effs (fs_sys x), fs_pc := fetch_after_read R r out\<rparr>"
  shows "fetch_control view room y \<and> fetch_balance view y \<and> fetch_cause view y"
proof -
  note I = fetch_invD [OF inv] and D = fetchingD [OF fetch_invD(5) [OF inv] r]
  from composed_read_answer [OF I(2) D(1), of "Some e" 0] D(2,3) assms(3,4) cause show ?thesis
    by (auto simp: y fetch_defs fetch_read_def fetch_after_read_def eof_error_def split: if_splits)
qed

lemma fetch_after_park:
  assumes inv: "fetch_inv K R view written room rest x" and r: "fetching view r x"
    and "out = Read_parked" "st_read_sink st' = Some sink"
    and "0 < room (sink_bp sink) + sink_copied sink" "room (sink_bp sink) + sink_copied sink \<le> rv_left (view r)"
    and y: "y = x\<lparr>fs_sys := fetch_read written out st' effs (fs_sys x), fs_pc := fetch_after_read R r out\<rparr>"
  shows "fetch_control view room y \<and> fetch_balance view y \<and> fetch_cause view y"
  using fetchingD [OF fetch_invD(5) [OF inv] r] assms(3-6)
  by (simp add: y fetch_defs fetch_read_def fetch_after_read_def)

lemma fetch_call_frame:
  assumes inv: "fetch_inv K R view written room rest x" and pc: "fs_pc x = Fetch_call r"
    and nxt: "cr_next R r = Call_read_some bp" and rd: "read_some K bp (fs_stream x) = Some (out, st', effs)"
    and y: "y = x\<lparr>fs_sys := fetch_read written out st' effs (fs_sys x), fs_pc := fetch_after_read R r out\<rparr>"
  shows "fetch_control view room y \<and> fetch_balance view y \<and> fetch_cause view y"
proof -
  note I = fetch_invD [OF inv] and C = composed_read_call [OF fetch_invD(2) [OF inv] nxt]
  have r: "fetching view r x" using pc C(1) by (simp add: fetching_def)
  have sink: "st_read_sink (fs_stream x) = None"
    using I(4) pc by (auto simp: fetch_control_def split: option.splits)
  from I(1,3) sink C(2,3) rd show ?thesis
  proof (cases rule: read_some_cases)
    case (data n bp')
    from fetch_after_data [OF inv r data(1,2,4) le_trans [OF data(5) C(4)] y] show ?thesis .
  next
    case ended
    with sink show ?thesis
      by (intro fetch_after_error [OF inv r _ _ _ y]) (auto simp: eof_error_def)
  next
    case parked
    with C(3,4) show ?thesis by (intro fetch_after_park [OF inv r _ _ _ _ y]) (auto simp: read_park_def)
  qed
qed

lemma fetch_wake_frame:
  assumes inv: "fetch_inv K R view written room rest x" and pc: "fs_pc x = Fetch_waiting r"
    and sink: "st_read_sink (fs_stream x) = Some sink" and e: "wait_ends K e (st_read_ready (fs_stream x))"
    and rd: "read_some_resume K e sink (fs_stream x) = (out, st', effs)"
    and y: "y = x\<lparr>fs_sys := fetch_read written out st' effs (fs_sys x), fs_pc := fetch_after_read R r out\<rparr>"
  shows "fetch_control view room y \<and> fetch_balance view y \<and> fetch_cause view y"
proof -
  note I = fetch_invD [OF inv]
  have C: "rv_error (view r) = None" "0 < room (sink_bp sink) + sink_copied sink"
    "room (sink_bp sink) + sink_copied sink \<le> rv_left (view r)"
    using I(4) pc sink by (auto simp: fetch_control_def)
  have r: "fetching view r x" using pc C(1) by (simp add: fetching_def)
  have end': "e = None \<or> e = Some Error_canceled" using e by (simp add: wait_ends_def)
  from I(3) sink refl C(2) end' rd show ?thesis
  proof (cases rule: read_resume_cases)
    case (data n bp')
    from fetch_after_data [OF inv r data(1,2,4) le_trans [OF data(5) C(3)] y] show ?thesis .
  next
    case ended
    then show ?thesis by (intro fetch_after_error [OF inv r _ _ _ y]) (auto simp: eof_error_def)
  next
    case canceled
    then show ?thesis by (intro fetch_after_error [OF inv r _ _ _ y]) auto
  next
    case parked
    with C(2,3) show ?thesis by (intro fetch_after_park [OF inv r _ _ _ _ y]) (auto simp: read_park_def)
  qed
qed

lemma fetch_own_step_frame:
  assumes "fetch_own_step K R written x y" "fetch_inv K R view written room rest x"
  shows "fetch_control view room y \<and> fetch_balance view y \<and> fetch_cause view y"
  using assms
proof (induction rule: fetch_own_step.induct)
  case (fetch_call_read x r bp out st' effs)
  from fetch_call_frame [OF fetch_call_read.prems fetch_call_read.hyps refl] show ?case .
next
  case (fetch_wake x r sink e out st' effs)
  from fetch_wake_frame [OF fetch_wake.prems fetch_wake.hyps refl] show ?case .
next
  case (fetch_return x r res)
  note I = fetch_invD [OF fetch_return.prems]
  from composed_read_return [OF I(2), of r "fst res" "snd res"] fetch_return.hyps(2)
  have "fst res = rv_error (view r)" "snd res = rv_total (view r)" "fst res = None \<Longrightarrow> rv_left (view r) = 0"
    by (cases res; simp)+
  with I(4-6) fetch_return.hyps(1) show ?case
    by (cases res) (auto simp: fetch_defs split: option.splits error_code.splits)
qed

lemma fetch_step_inv:
  assumes "fetch_step K R written rest x y" "fetch_inv K R view written room rest x"
  shows "fetch_inv K R view written room rest y"
  using assms(1)
proof cases
  case (fetch_others t)
  have "sys_inv K written room rest t"
    using fetch_others(2) fetch_invD(3) [OF assms(2)] by (blast intro: stream_step_inv fetch_env_stream)
  with fetch_env_frame [OF assms(2) fetch_others(2)] fetch_others(1) assms(2) show ?thesis by (simp add: fetch_inv_def)
next
  case fetch_own
  have "sys_inv K written room rest (fs_sys y)"
    using fetch_own_step_stream [OF fetch_own assms(2)] fetch_invD(3) [OF assms(2)] by (metis stream_step_inv)
  with fetch_own_step_frame [OF fetch_own assms(2)] assms(2) show ?thesis by (simp add: fetch_inv_def)
qed

interpretation fetch_reach: step_invariant "fetch_starts K R view written room rest buf"
  "fetch_step K R written rest" "fetch_inv K R view written room rest"
  for K :: "('e, 'b, 'c) capy" and R :: "('r, 'b) composed_read" and view written room rest buf
  by unfold_locales (auto intro: fetch_starts_inv fetch_step_inv)

section \<open>A run\<close>

text \<open>The next step of the coroutine when no wait is cancelled.\<close>

definition fetch_next ::
  "('e, 'b, 'c) capy \<Rightarrow> ('r, 'b) composed_read \<Rightarrow> ('b \<Rightarrow> byte list)
    \<Rightarrow> ('e, 'b, 'c, 'r) fetch_sys \<Rightarrow> ('e, 'b, 'c, 'r) fetch_sys option" where
  "fetch_next K R written x =
     (let after = (\<lambda>r (out, st', effs).
            x\<lparr>fs_sys := fetch_read written out st' effs (fs_sys x), fs_pc := fetch_after_read R r out\<rparr>)
      in case fs_pc x of
           Fetch_call r \<Rightarrow>
             (case cr_next R r of
                Read_returns res \<Rightarrow> Some (x\<lparr>fs_pc := Fetch_done res\<rparr>)
              | Call_read_some bp \<Rightarrow> map_option (after r) (read_some K bp (fs_stream x)))
         | Fetch_waiting r \<Rightarrow>
             (case st_read_sink (fs_stream x) of
                None \<Rightarrow> None
              | Some sink \<Rightarrow>
                  if ev_is_set K (st_read_ready (fs_stream x))
                  then Some (after r (read_some_resume K None sink (fs_stream x))) else None)
         | Fetch_done res \<Rightarrow> None)"

lemma fetch_next_step:
  assumes "fetch_next K R written x = Some y"
  shows "fetch_own_step K R written x y"
proof (cases "fs_pc x")
  case (Fetch_call r)
  with assms show ?thesis
    by (auto simp: fetch_next_def Let_def split: read_action.splits intro: fetch_call_read fetch_return)
next
  case (Fetch_waiting r)
  with assms obtain sink out st' effs where
    "st_read_sink (fs_stream x) = Some sink" "ev_is_set K (st_read_ready (fs_stream x))"
    "read_some_resume K None sink (fs_stream x) = (out, st', effs)"
    "y = x\<lparr>fs_sys := fetch_read written out st' effs (fs_sys x), fs_pc := fetch_after_read R r out\<rparr>"
    by (auto simp: fetch_next_def Let_def split: option.splits if_splits prod.splits)
  with fetch_wake [OF Fetch_waiting, of sink K None] show ?thesis by (simp add: wait_ends_def may_resume_def)
next
  case (Fetch_done res)
  with assms show ?thesis by (simp add: fetch_next_def)
qed

text \<open>One buffer at a time; the state is its own view.\<close>

definition plain_read :: "(read_view, byte list \<times> nat) composed_read" where
  "plain_read =
     \<lparr>cr_start = (\<lambda>buf. \<lparr>rv_left = snd buf, rv_total = 0, rv_error = None\<rparr>),
      cr_next = (\<lambda>r. if rv_error r \<noteq> None \<or> rv_left r = 0 then Read_returns (rv_error r, rv_total r)
                     else Call_read_some ([], rv_left r)),
      cr_answer = (\<lambda>r (e, n). \<lparr>rv_left = rv_left r - n, rv_total = rv_total r + n, rv_error = e\<rparr>)\<rparr>"

lemma plain_read_ok: "composed_read_ok plain_read (\<lambda>r. r) fst snd"
  by (auto simp: composed_read_ok_def plain_read_def)

type_synonym demo_fetch = "(bool, byte list \<times> nat, nat \<times> byte list, read_view) fetch_sys"

datatype fetch_move = Fetch_own | Fetch_data "byte list" | Fetch_end

fun fetch_event :: "fetch_move \<Rightarrow> demo_fetch \<Rightarrow> demo_fetch" where
  "fetch_event Fetch_own x = (case fetch_next flat_capy plain_read fst x of None \<Rightarrow> x | Some y \<Rightarrow> y)"
| "fetch_event (Fetch_data d) x =
     (if st_read_eof (fs_stream x) \<or> st_closed (fs_stream x) then x
      else x\<lparr>fs_sys := (fs_sys x)\<lparr>sys_stream := on_data flat_capy d (fs_stream x),
                                  sys_received := sys_received (fs_sys x) @ d\<rparr>\<rparr>)"
| "fetch_event Fetch_end x = x\<lparr>fs_sys := (fs_sys x)\<lparr>sys_stream := on_read_eof flat_capy (fs_stream x)\<rparr>\<rparr>"

definition fetch_run :: "nat \<Rightarrow> fetch_move list \<Rightarrow> demo_fetch" where
  "fetch_run m evs =
     foldl (\<lambda>x ev. fetch_event ev x)
       \<lparr>fs_sys = init_sys flat_capy 1 [], fs_pc = Fetch_call (cr_start plain_read ([], m)), fs_base = [],
        fs_size = m\<rparr> evs"

abbreviation demo_fetch_reach :: "nat \<Rightarrow> demo_fetch \<Rightarrow> bool" where
  "demo_fetch_reach m \<equiv>
     reachable (fetch_starts flat_capy plain_read (\<lambda>r. r) fst snd snd ([], m)) (fetch_step flat_capy plain_read fst snd)"

lemma fetch_event_reach: "demo_fetch_reach m x \<Longrightarrow> demo_fetch_reach m (fetch_event ev x)"
  by (cases ev)
    (auto split: option.split intro: reachable_step fetch_own fetch_next_step fetch_others fetch_data fetch_eof)

lemma fetch_run_reach: "demo_fetch_reach m (fetch_run m evs)"
proof (induction evs rule: rev_induct)
  case Nil
  have "reachable (starts flat_capy fst snd snd) (stream_step flat_capy fst snd) (init_sys flat_capy 1 [])"
    by (rule reachable_init) (auto simp: starts_def flat_capy_ok)
  then show ?case
    using flat_capy_ok plain_read_ok
    by (intro reachable_init) (simp add: fetch_run_def fetch_starts_def init_sys_def new_stream_def)
next
  case (snoc ev evs)
  then show ?case using fetch_event_reach by (simp add: fetch_run_def)
qed

lemmas fetch_run_defs = fetch_run_def init_sys_def new_stream_def fetch_next_def Let_def flat_capy_def
  plain_read_def fetch_read_def fetch_after_read_def read_some_def drain_chunks.simps read_park_def consume_def
  read_some_resume_def on_data_def sink_put_def on_read_eof_def eof_error_def

text \<open>A buffer of five bytes, and a body of three that comes in two pieces.\<close>

definition short_body :: "fetch_move list" where
  "short_body = [Fetch_own, Fetch_data [1, 2], Fetch_own, Fetch_data [3], Fetch_own, Fetch_end, Fetch_own, Fetch_own]"

lemma short_body_state:
  "fs_pc (fetch_run 5 short_body) = Fetch_done (Some Error_eof, 3)" "fs_base (fetch_run 5 short_body) = []"
  "fs_size (fetch_run 5 short_body) = 5" "sys_received (fs_sys (fetch_run 5 short_body)) = [1, 2, 3]"
  unfolding short_body_def by (simp_all add: fetch_run_defs)

section \<open>Properties\<close>

text \<open>
  C16. The result of \<open>Request::read\<close> is right: when it returns, with an error or without, the number it
  reports is the number of bytes reads of the stream returned since the call, and they are the next
  bytes of the body in order. Without an error the buffers are full; with \<open>eof\<close> everything that was
  received has been read and the body has ended, with \<open>stream_truncated\<close> everything that was received
  has been read and the stream was closed, and there is no other error but a cancellation.
\<close>

theorem read_returns_next_bytes:
  assumes "reachable (fetch_starts K R view written room rest buf) (fetch_step K R written rest) x"
    and "fs_pc x = Fetch_done (e, n)"
  shows "n \<le> fs_size x \<and>
    sys_delivered (fs_sys x) = fs_base x @ take n (drop (length (fs_base x)) (sys_received (fs_sys x))) \<and>
    length (sys_delivered (fs_sys x)) = length (fs_base x) + n \<and>
    e \<in> {None, Some Error_eof, Some Error_stream_truncated, Some Error_canceled} \<and>
    (e = None \<longrightarrow> n = fs_size x) \<and>
    (e = Some Error_eof \<longrightarrow> st_read_eof (fs_stream x) \<and> sys_delivered (fs_sys x) = sys_received (fs_sys x)) \<and>
    (e = Some Error_stream_truncated \<longrightarrow>
      st_closed (fs_stream x) \<and> sys_delivered (fs_sys x) = sys_received (fs_sys x))"
proof -
  note I = fetch_invD [OF fetch_reach.inv_reachable [OF assms(1)]]
  from I(5) assms(2) obtain got where got: "sys_delivered (fs_sys x) = fs_base x @ got" "length got = n"
    and size: "n \<le> fs_size x" "e = None \<Longrightarrow> n = fs_size x"
    by (auto simp: fetch_balance_def)
  have "sys_received (fs_sys x) = sys_delivered (fs_sys x) @ unread written (fs_stream x)"
    using I(3) by (simp add: sys_inv_def read_sys_inv_def)
  with got have "take n (drop (length (fs_base x)) (sys_received (fs_sys x))) = got" by simp
  with got have "sys_delivered (fs_sys x) = fs_base x @ take n (drop (length (fs_base x)) (sys_received (fs_sys x)))"
    "length (sys_delivered (fs_sys x)) = length (fs_base x) + n" by (simp_all only: length_append)
  moreover have "e \<in> {None, Some Error_eof, Some Error_stream_truncated, Some Error_canceled}"
    using I(6) by (simp add: fetch_cause_def assms(2) split: option.splits error_code.splits)
  moreover have "e = Some Error_eof \<longrightarrow> st_read_eof (fs_stream x) \<and> sys_delivered (fs_sys x) = sys_received (fs_sys x)"
    "e = Some Error_stream_truncated \<longrightarrow> st_closed (fs_stream x) \<and> sys_delivered (fs_sys x) = sys_received (fs_sys x)"
    using I(6) by (auto simp: fetch_cause_def assms(2))
  ultimately show ?thesis using size by blast
qed

theorem read_returns_next_bytes_witness:
  "sys_delivered (fs_sys (fetch_run 5 short_body)) = [1, 2, 3] \<and> st_read_eof (fs_stream (fetch_run 5 short_body))"
proof -
  have "st_read_eof (fs_stream (fetch_run 5 short_body)) \<and>
      sys_delivered (fs_sys (fetch_run 5 short_body)) = sys_received (fs_sys (fetch_run 5 short_body))"
    using read_returns_next_bytes [OF fetch_run_reach short_body_state(1)] by blast
  with short_body_state(4) show ?thesis by simp
qed

lemma fetch_progress:
  assumes "fetch_inv K R view written room rest x"
  shows "(\<exists>res. fs_pc x = Fetch_done res) \<or>
    (\<exists>y. fetch_next K R written x = Some y \<and> fetch_own_step K R written x y) \<or>
    \<not> st_read_eof (fs_stream x) \<and> \<not> st_closed (fs_stream x) \<and> sys_received (fs_sys x) = sys_delivered (fs_sys x)"
proof (cases "fetch_next K R written x")
  case (Some y)
  with fetch_next_step [OF this] show ?thesis by blast
next
  case None
  note I = fetch_invD [OF assms]
  show ?thesis
  proof (cases "fs_pc x")
    case (Fetch_call r)
    have "chunks_wf (st_chunks (fs_stream x)) (st_front_offset (fs_stream x))"
      using I(3) by (simp add: sys_inv_def read_sys_inv_def read_inv_def)
    moreover from None Fetch_call obtain bp where "read_some K bp (fs_stream x) = None"
      by (auto simp: fetch_next_def Let_def split: read_action.splits)
    ultimately show ?thesis using read_some_total [OF library_okD(2) [OF I(1)], where bp = bp] by fastforce
  next
    case (Fetch_waiting r)
    then obtain sink where sink: "st_read_sink (fs_stream x) = Some sink" "0 < room (sink_bp sink) + sink_copied sink"
      using I(4) by (auto simp: fetch_control_def split: option.splits)
    with None Fetch_waiting have "\<not> ev_is_set K (st_read_ready (fs_stream x))"
      by (auto simp: fetch_next_def Let_def split: if_splits)
    with I(3) sink show ?thesis
      by (auto simp: sys_inv_def read_sys_inv_def read_inv_def read_awake_def unread_def in_flight_def)
  qed (simp add: exI)
qed

text \<open>
  Reading does not get stuck: in every reachable state the coroutine has returned, or it can take its
  next step without being cancelled, or it waits on an open stream whose body has not ended, has been
  given nothing since it began to wait, and everything that was received has been read.
\<close>

theorem read_never_stuck:
  assumes "reachable (fetch_starts K R view written room rest buf) (fetch_step K R written rest) x"
  shows "(\<exists>res. fs_pc x = Fetch_done res) \<or>
    (\<exists>y. fetch_next K R written x = Some y \<and> fetch_own_step K R written x y) \<or>
    \<not> st_read_eof (fs_stream x) \<and> \<not> st_closed (fs_stream x) \<and> sys_received (fs_sys x) = sys_delivered (fs_sys x)"
  using fetch_progress [OF fetch_reach.inv_reachable [OF assms]] .

theorem read_never_stuck_witness:
  "\<exists>y. fetch_next flat_capy plain_read fst (fetch_run 5 [Fetch_own, Fetch_data [1, 2], Fetch_end]) = Some y"
proof -
  let ?x = "fetch_run 5 [Fetch_own, Fetch_data [1, 2], Fetch_end]"
  have "st_read_eof (fs_stream ?x)" "\<exists>r. fs_pc ?x = Fetch_waiting r" by (simp_all add: fetch_run_defs)
  with read_never_stuck [OF fetch_run_reach, of 5 "[Fetch_own, Fetch_data [1, 2], Fetch_end]"] show ?thesis by auto
qed

section \<open>Termination\<close>

text \<open>A run in which the coroutine takes \<open>n\<close> steps of its own, among any number of others.\<close>

inductive fetch_steps ::
  "('e, 'b, 'c) capy \<Rightarrow> ('r, 'b) composed_read \<Rightarrow> ('b \<Rightarrow> byte list) \<Rightarrow> ('c \<Rightarrow> byte list)
    \<Rightarrow> nat \<Rightarrow> ('e, 'b, 'c, 'r) fetch_sys \<Rightarrow> ('e, 'b, 'c, 'r) fetch_sys \<Rightarrow> bool"
  for K R written rest where
  fetch_steps_none: "fetch_steps K R written rest 0 x x"
| fetch_steps_others:
    "fetch_steps K R written rest n x y \<Longrightarrow> fetch_env K written rest (fs_sys y) t \<Longrightarrow>
     fetch_steps K R written rest n x (y\<lparr>fs_sys := t\<rparr>)"
| fetch_steps_own:
    "fetch_steps K R written rest n x y \<Longrightarrow> fetch_own_step K R written y z \<Longrightarrow>
     fetch_steps K R written rest (Suc n) x z"

definition body_over :: "('e, 'b, 'c, 'r) fetch_sys \<Rightarrow> bool" where
  "body_over x \<longleftrightarrow> st_read_eof (fs_stream x) \<or> st_closed (fs_stream x)"

text \<open>Once the body is over every call returns a byte or ends the operation.\<close>

fun fetch_rank :: "('r \<Rightarrow> read_view) \<Rightarrow> 'r fetch_pc \<Rightarrow> nat" where
  "fetch_rank view (Fetch_call r) = (if rv_error (view r) = None then rv_left (view r) + 2 else 1)"
| "fetch_rank view (Fetch_waiting r) = rv_left (view r) + 3"
| "fetch_rank view (Fetch_done res) = 0"

lemma fetch_env_over: "fetch_env K written rest (fs_sys x) t \<Longrightarrow> body_over x \<Longrightarrow> body_over (x\<lparr>fs_sys := t\<rparr>)"
  by (induction "fs_sys x" t rule: fetch_env.induct)
    (auto simp: body_over_def on_read_eof_def on_close_def read_side_def)

lemma read_some_over:
  assumes "read_some K bp st = Some (out, st', effs)"
  shows "st_read_eof st' = st_read_eof st" "st_closed st' = st_closed st"
    "st_read_eof st \<or> st_closed st \<Longrightarrow> \<exists>err n b. out = Read_done (err, n) b \<and> (err = None \<longrightarrow> 0 < n)"
  using assms by (auto simp: read_some_def read_park_def eof_error_def Let_def split: option.splits if_splits)

lemma read_resume_over:
  assumes "read_some_resume K e sink st = (out, st', effs)"
  shows "st_read_eof st' = st_read_eof st" "st_closed st' = st_closed st"
    "st_read_eof st \<or> st_closed st \<Longrightarrow> \<exists>err n b. out = Read_done (err, n) b \<and> (err = None \<longrightarrow> 0 < n)"
  using assms by (auto simp: read_some_resume_def read_park_def eof_error_def Let_def split: if_splits)

lemma fetch_rank_answer:
  assumes "composed_read_ok R view written room" "rv_error (view r) = None" "0 < rv_left (view r)"
    and "out = Read_done (err, n) b" "err = None \<longrightarrow> 0 < n"
  shows "fetch_rank view (fetch_after_read R r out) < rv_left (view r) + 2"
  using composed_read_answer [OF assms(1,2), of err n] assms(3-5) by (cases err) (auto simp: fetch_after_read_def)

lemma fetch_step_pays:
  assumes "fetch_own_step K R written x y" "fetch_inv K R view written room rest x" "body_over x"
  shows "body_over y \<and> fs_size y = fs_size x \<and> fetch_rank view (fs_pc y) < fetch_rank view (fs_pc x)"
  using assms
proof (induction rule: fetch_own_step.induct)
  case (fetch_call_read x r bp out st' effs)
  note I = fetch_invD [OF fetch_call_read.prems(1)]
  note C = composed_read_call [OF I(2) fetch_call_read.hyps(2)]
  note over = read_some_over [OF fetch_call_read.hyps(3)]
  from over(3) fetch_call_read.prems(2) obtain err n b where "out = Read_done (err, n) b" "err = None \<longrightarrow> 0 < n"
    by (auto simp: body_over_def)
  with fetch_rank_answer [OF I(2) C(1), of out err n b] C fetch_call_read.hyps(1) fetch_call_read.prems(2) over(1,2)
  show ?case by (auto simp: body_over_def fetch_read_def)
next
  case (fetch_wake x r sink e out st' effs)
  note I = fetch_invD [OF fetch_wake.prems(1)]
  have C: "rv_error (view r) = None" "0 < rv_left (view r)"
    using I(4) fetch_wake.hyps(1,2) by (auto simp: fetch_control_def)
  note over = read_resume_over [OF fetch_wake.hyps(4)]
  from over(3) fetch_wake.prems(2) obtain err n b where "out = Read_done (err, n) b" "err = None \<longrightarrow> 0 < n"
    by (auto simp: body_over_def)
  with fetch_rank_answer [OF I(2) C, of out err n b] fetch_wake.hyps(1) fetch_wake.prems(2) over(1,2)
  show ?case by (auto simp: body_over_def fetch_read_def)
qed (simp add: body_over_def)

lemma fetch_steps_pay:
  assumes "fetch_steps K R written rest n x y" "body_over x"
    and "reachable (fetch_starts K R view written room rest buf) (fetch_step K R written rest) x"
  shows "n + fetch_rank view (fs_pc y) \<le> fetch_rank view (fs_pc x) \<and> body_over y \<and>
    reachable (fetch_starts K R view written room rest buf) (fetch_step K R written rest) y"
  using assms
proof (induction rule: fetch_steps.induct)
  case (fetch_steps_others n x y t)
  then show ?case by (auto intro: reachable_step fetch_others fetch_env_over)
next
  case (fetch_steps_own n x y z)
  then have y: "n + fetch_rank view (fs_pc y) \<le> fetch_rank view (fs_pc x)" "body_over y"
    "reachable (fetch_starts K R view written room rest buf) (fetch_step K R written rest) y" by blast+
  from fetch_step_pays [OF fetch_steps_own.hyps(2) fetch_reach.inv_reachable [OF y(3)] y(2)] y
    reachable_step [OF y(3) fetch_own [OF fetch_steps_own.hyps(2)]] show ?case by simp
qed simp

text \<open>
  C29. Reading ends with the body: from a state in which the body has ended or the stream was closed,
  under every interleaving, \<open>Request::read\<close> takes at most three steps more than its buffers have
  bytes, and until it has returned its next step is possible without a cancellation.
\<close>

theorem read_ends_with_body:
  assumes "reachable (fetch_starts K R view written room rest buf) (fetch_step K R written rest) x" "body_over x"
    and "fetch_steps K R written rest n x y"
  shows "n \<le> fs_size x + 3 \<and>
    ((\<exists>res. fs_pc y = Fetch_done res) \<or> (\<exists>z. fetch_next K R written y = Some z \<and> fetch_own_step K R written y z))"
proof -
  note y = fetch_steps_pay [OF assms(3,2,1)]
  have "fetch_rank view (fs_pc x) \<le> fs_size x + 3"
    using fetch_invD(5) [OF fetch_reach.inv_reachable [OF assms(1)]]
    by (cases "fs_pc x") (auto simp: fetch_balance_def)
  with y fetch_progress [OF fetch_reach.inv_reachable [OF conjunct2 [OF conjunct2 [OF y]]]] show ?thesis
    by (auto simp: body_over_def)
qed

theorem read_ends_with_body_witness:
  "\<exists>z. fetch_next flat_capy plain_read fst (fetch_run 5 [Fetch_own, Fetch_data [1, 2], Fetch_end]) = Some z"
proof -
  let ?x = "fetch_run 5 [Fetch_own, Fetch_data [1, 2], Fetch_end]"
  have "body_over ?x" "\<exists>r. fs_pc ?x = Fetch_waiting r" by (simp_all add: fetch_run_defs body_over_def)
  with read_ends_with_body [OF fetch_run_reach this(1) fetch_steps_none] show ?thesis by auto
qed

end
