(* ===== verification/Echo_Stream.thy ===== *)
theory Echo_Stream
  imports Composed_Write Handlers
begin

text \<open>
  The echo handler of \<open>echo_handler.cpp\<close> at work on its stream. Theory \<open>Handlers\<close> models the
  handler by what it asks for, with the answers given; here the answers come from the stream of
  theory \<open>Http2_Stream\<close> while nghttp2 delivers, pulls, ends and closes at any moment.

  The program counter names the points between the handler's calls and those where it is suspended
  in \<open>read_some\<close>, in the \<open>write_some\<close> of a composed write, or in \<open>write_eof\<close>. A step is one call or
  one resumption, so an interleaving of this system is finer than one of the program, where the
  handler runs undisturbed from one suspension to the next. The histories of the stream system
  (\<open>sys_received\<close>, \<open>sys_pulled\<close>) say what the request brought and what the response took. What the calls
  ask of the session is left out, since nghttp2 acts at any moment; theory \<open>Echo_Flow\<close> adds it.
\<close>

section \<open>The system\<close>

datatype 'w echo_pc =
    Echo_started
  | Echo_read bool
  | Echo_reading bool
  | Echo_write 'w
  | Echo_writing 'w
  | Echo_left bool
  | Echo_finish
  | Echo_finishing
  | Echo_done ec

text \<open>
  \<open>es_cause\<close> records the error that ended the loop (of a read, or \<open>Inr\<close> of a write) and \<open>es_ended\<close>
  that the data provider has set the end-of-data flag.
\<close>

record ('e, 'b, 'c, 'w) echo_sys =
  es_sys :: "('e, 'b, 'c) stream_sys"
  es_pc :: "'w echo_pc"
  es_cause :: "(error_code + error_code) option"
  es_ended :: bool

abbreviation es_stream :: "('e, 'b, 'c, 'w) echo_sys \<Rightarrow> ('e, 'b, 'c) stream" where
  "es_stream x \<equiv> sys_stream (es_sys x)"

text \<open>
  What nghttp2 does to the stream; the flag is that of the data provider. It delivers no data after
  the end of the body.
\<close>

inductive peer_step ::
  "('e, 'b, 'c) capy \<Rightarrow> ('e, 'b, 'c) stream_sys \<Rightarrow> bool \<Rightarrow> ('e, 'b, 'c) stream_sys \<Rightarrow> bool"
  for K where
  peer_data:
    "\<not> st_read_eof (sys_stream s) \<Longrightarrow>
     peer_step K s False (s\<lparr>sys_stream := on_data K d (sys_stream s), sys_received := sys_received s @ d\<rparr>)"
| peer_eof: "peer_step K s False (s\<lparr>sys_stream := on_read_eof K (sys_stream s)\<rparr>)"
| peer_close: "peer_step K s False (s\<lparr>sys_stream := on_close K (sys_stream s)\<rparr>)"
| peer_pull:
    "producer_callback K len (sys_stream s) = (res, eof, st') \<Longrightarrow>
     peer_step K s eof (s\<lparr>sys_stream := st', sys_pulled := sys_pulled s @ pulled_bytes res\<rparr>)"

text \<open>
  The control flow of \<open>echo\<close> after each of its calls. \<open>sub\<close> is what a submission of the response
  would answer.
\<close>

definition echo_submit :: "ec \<Rightarrow> 'w echo_pc \<Rightarrow> 'w echo_pc" where
  "echo_submit sub next = (case sub of Some e \<Rightarrow> Echo_done (Some e) | None \<Rightarrow> next)"

definition echo_start :: "request \<Rightarrow> ec \<Rightarrow> 'w echo_pc" where
  "echo_start rq sub =
     (if has_header ''x-eager-submit'' (rq_headers rq) then echo_submit sub (Echo_read True)
      else Echo_read False)"

definition echo_after_read ::
  "'w composed_write \<Rightarrow> ('b \<Rightarrow> byte list) \<Rightarrow> bool \<Rightarrow> ec \<Rightarrow> 'b read_outcome \<Rightarrow> 'w echo_pc" where
  "echo_after_read W written submitted sub out =
     (case out of
        Read_parked \<Rightarrow> Echo_reading submitted
      | Read_done (rec, n) bp \<Rightarrow>
          if rec \<noteq> None then Echo_left submitted
          else
            (let write = Echo_write (cw_start W [take n (written bp)])
             in if submitted then write else echo_submit sub write))"

definition echo_after_write :: "nat io_result \<Rightarrow> 'w echo_pc" where
  "echo_after_write r = (if fst r \<noteq> None then Echo_left True else Echo_read True)"

definition echo_after_loop :: "bool \<Rightarrow> ec \<Rightarrow> 'w echo_pc" where
  "echo_after_loop submitted sub = (if submitted then Echo_finish else echo_submit sub Echo_finish)"

fun read_error :: "'b read_outcome \<Rightarrow> ec" where
  "read_error (Read_done (e, n) bp) = e"
| "read_error Read_parked = None"

text \<open>The handler's own steps; \<open>buf\<close> is its buffer.\<close>

definition echo_buffer_size :: nat where
  "echo_buffer_size = 64 * 1024"

inductive echo_own_step ::
  "('e, 'b, 'c) capy \<Rightarrow> 'w composed_write \<Rightarrow> ('b \<Rightarrow> byte list) \<Rightarrow> ('c \<Rightarrow> byte list) \<Rightarrow> 'b \<Rightarrow> request
    \<Rightarrow> ('e, 'b, 'c, 'w) echo_sys \<Rightarrow> ('e, 'b, 'c, 'w) echo_sys \<Rightarrow> bool"
  for K W written rest buf rq where
  echo_begin:
    "es_pc x = Echo_started \<Longrightarrow> echo_own_step K W written rest buf rq x (x\<lparr>es_pc := echo_start rq sub\<rparr>)"
| echo_call_read:
    "es_pc x = Echo_read submitted \<Longrightarrow> s = es_sys x \<Longrightarrow>
     read_some K buf (sys_stream s) = Some (out, st', effs) \<Longrightarrow>
     echo_own_step K W written rest buf rq x
       (x\<lparr>es_sys := s\<lparr>sys_stream := st', sys_delivered := sys_delivered s @ returned written out,
                      sys_consumed := sys_consumed s + credited effs\<rparr>,
          es_pc := echo_after_read W written submitted sub out,
          es_cause := map_option Inl (read_error out)\<rparr>)"
| echo_wake_read:
    "es_pc x = Echo_reading submitted \<Longrightarrow> s = es_sys x \<Longrightarrow>
     st_read_sink (sys_stream s) = Some sink \<Longrightarrow> wait_ends K e (st_read_ready (sys_stream s)) \<Longrightarrow>
     read_some_resume K e sink (sys_stream s) = (out, st', effs) \<Longrightarrow>
     echo_own_step K W written rest buf rq x
       (x\<lparr>es_sys := s\<lparr>sys_stream := st', sys_delivered := sys_delivered s @ returned written out,
                      sys_consumed := sys_consumed s + credited effs\<rparr>,
          es_pc := echo_after_read W written submitted sub out,
          es_cause := map_option Inl (read_error out)\<rparr>)"
| echo_call_write:
    "es_pc x = Echo_write w \<Longrightarrow> s = es_sys x \<Longrightarrow> cw_next W w = Call_write_some bufs \<Longrightarrow>
     write_some K bufs (sys_stream s) = (Write_parked, st', effs) \<Longrightarrow>
     echo_own_step K W written rest buf rq x
       (x\<lparr>es_sys := s\<lparr>sys_stream := st', sys_writing := True, sys_write_data := rest (cb_array K bufs)\<rparr>,
          es_pc := Echo_writing w\<rparr>)"
| echo_write_refused:
    "es_pc x = Echo_write w \<Longrightarrow> cw_next W w = Call_write_some bufs \<Longrightarrow>
     write_some K bufs (es_stream x) = (Write_done r, st', effs) \<Longrightarrow>
     echo_own_step K W written rest buf rq x
       (x\<lparr>es_sys := (es_sys x)\<lparr>sys_stream := st'\<rparr>, es_pc := Echo_write (cw_answer W w r)\<rparr>)"
| echo_wake_write:
    "es_pc x = Echo_writing w \<Longrightarrow> s = es_sys x \<Longrightarrow> wait_ends K e (st_write_progress (sys_stream s)) \<Longrightarrow>
     write_impl_resume e (sys_stream s) = ((e, n), st') \<Longrightarrow>
     echo_own_step K W written rest buf rq x
       (x\<lparr>es_sys := s\<lparr>sys_stream := st', sys_writing := False,
                      sys_reported := sys_reported s @ take n (sys_write_data s)\<rparr>,
          es_pc := Echo_write (cw_answer W w (e, n))\<rparr>)"
| echo_write_done:
    "es_pc x = Echo_write w \<Longrightarrow> cw_next W w = Write_returns r \<Longrightarrow>
     echo_own_step K W written rest buf rq x
       (x\<lparr>es_pc := echo_after_write r, es_cause := map_option Inr (fst r)\<rparr>)"
| echo_loop_over:
    "es_pc x = Echo_left submitted \<Longrightarrow>
     echo_own_step K W written rest buf rq x (x\<lparr>es_pc := echo_after_loop submitted sub\<rparr>)"
| echo_call_eof:
    "es_pc x = Echo_finish \<Longrightarrow> s = es_sys x \<Longrightarrow>
     write_eof K [] (sys_stream s) = (Write_parked, st', effs) \<Longrightarrow>
     echo_own_step K W written rest buf rq x
       (x\<lparr>es_sys := s\<lparr>sys_stream := st', sys_writing := True, sys_write_data := rest (cb_array K [])\<rparr>,
          es_pc := Echo_finishing\<rparr>)"
| echo_eof_refused:
    "es_pc x = Echo_finish \<Longrightarrow> write_eof K [] (es_stream x) = (Write_done r, st', effs) \<Longrightarrow>
     echo_own_step K W written rest buf rq x
       (x\<lparr>es_sys := (es_sys x)\<lparr>sys_stream := st'\<rparr>, es_pc := Echo_done (fst r)\<rparr>)"
| echo_wake_eof:
    "es_pc x = Echo_finishing \<Longrightarrow> s = es_sys x \<Longrightarrow> wait_ends K e (st_write_progress (sys_stream s)) \<Longrightarrow>
     write_impl_resume e (sys_stream s) = ((e, n), st') \<Longrightarrow>
     echo_own_step K W written rest buf rq x
       (x\<lparr>es_sys := s\<lparr>sys_stream := st', sys_writing := False,
                      sys_reported := sys_reported s @ take n (sys_write_data s)\<rparr>,
          es_pc := Echo_done e\<rparr>)"

inductive echo_step ::
  "('e, 'b, 'c) capy \<Rightarrow> 'w composed_write \<Rightarrow> ('b \<Rightarrow> byte list) \<Rightarrow> ('c \<Rightarrow> byte list) \<Rightarrow> 'b \<Rightarrow> request
    \<Rightarrow> ('e, 'b, 'c, 'w) echo_sys \<Rightarrow> ('e, 'b, 'c, 'w) echo_sys \<Rightarrow> bool"
  for K W written rest buf rq where
  echo_peer:
    "peer_step K (es_sys x) eof t \<Longrightarrow>
     echo_step K W written rest buf rq x (x\<lparr>es_sys := t, es_ended := (es_ended x \<or> eof)\<rparr>)"
| echo_own: "echo_own_step K W written rest buf rq x y \<Longrightarrow> echo_step K W written rest buf rq x y"

section \<open>The invariant\<close>

definition echo_ok ::
  "('e, 'b, 'c) capy \<Rightarrow> 'w composed_write \<Rightarrow> ('w \<Rightarrow> write_view) \<Rightarrow> ('b \<Rightarrow> byte list) \<Rightarrow> ('b \<Rightarrow> nat)
    \<Rightarrow> ('c \<Rightarrow> byte list) \<Rightarrow> 'b \<Rightarrow> bool" where
  "echo_ok K W view written room rest buf \<longleftrightarrow>
     library_ok K written room rest \<and> composed_write_ok K W view \<and>
     written buf = [] \<and> room buf = echo_buffer_size"

definition in_loop :: "'w echo_pc \<Rightarrow> bool" where
  "in_loop pc \<longleftrightarrow> (case pc of Echo_left _ \<Rightarrow> False | Echo_finish \<Rightarrow> False | Echo_finishing \<Rightarrow> False
     | Echo_done _ \<Rightarrow> False | _ \<Rightarrow> True)"

text \<open>Where the handler is suspended shows in the stream.\<close>

definition echo_control ::
  "('b \<Rightarrow> nat) \<Rightarrow> 'b \<Rightarrow> ('e, 'b, 'c, 'w) echo_sys \<Rightarrow> bool" where
  "echo_control room buf x \<longleftrightarrow>
     (case st_read_sink (es_stream x) of
        None \<Rightarrow> \<forall>b. es_pc x \<noteq> Echo_reading b
      | Some sink \<Rightarrow> (\<exists>b. es_pc x = Echo_reading b) \<and> room (sink_bp sink) + sink_copied sink = room buf) \<and>
     (sys_writing (es_sys x) \<longleftrightarrow> (\<exists>w. es_pc x = Echo_writing w) \<or> es_pc x = Echo_finishing)"

text \<open>What was read is what was written and what is left to write.\<close>

definition echo_balance :: "('w \<Rightarrow> write_view) \<Rightarrow> ('e, 'b, 'c, 'w) echo_sys \<Rightarrow> bool" where
  "echo_balance view x \<longleftrightarrow>
     (let s = es_sys x in
      (case es_pc x of
         Echo_started \<Rightarrow> sys_delivered s = sys_reported s
       | Echo_read _ \<Rightarrow> sys_delivered s = sys_reported s
       | Echo_reading _ \<Rightarrow> sys_delivered s = sys_reported s
       | Echo_write w \<Rightarrow> sys_delivered s = sys_reported s @ wv_left (view w)
       | Echo_writing w \<Rightarrow>
           sys_delivered s = sys_reported s @ wv_left (view w) \<and> wv_error (view w) = None \<and>
           (\<exists>later. wv_left (view w) = sys_write_data s @ later) \<and>
           \<not> st_write_eof_requested (sys_stream s)
       | Echo_finishing \<Rightarrow> (\<exists>left. sys_delivered s = sys_reported s @ left) \<and> sys_write_data s = []
       | _ \<Rightarrow> \<exists>left. sys_delivered s = sys_reported s @ left))"

definition echo_cause :: "('e, 'b, 'c, 'w) echo_sys \<Rightarrow> bool" where
  "echo_cause x \<longleftrightarrow>
     (in_loop (es_pc x) \<longrightarrow> es_cause x = None) \<and>
     (\<forall>e. es_cause x = Some (Inl e) \<longrightarrow> sys_delivered (es_sys x) = sys_reported (es_sys x)) \<and>
     (es_cause x = Some (Inl Error_eof) \<longrightarrow>
        st_read_eof (es_stream x) \<and> sys_received (es_sys x) = sys_delivered (es_sys x))"

text \<open>The end of the body is signalled last.\<close>

definition echo_ending :: "('e, 'b, 'c) capy \<Rightarrow> ('e, 'b, 'c, 'w) echo_sys \<Rightarrow> bool" where
  "echo_ending K x \<longleftrightarrow>
     (es_ended x \<longrightarrow> \<not> st_write_pending (es_stream x) \<and>
        (es_pc x = Echo_finishing \<or> (\<exists>e. es_pc x = Echo_done e))) \<and>
     (es_pc x = Echo_finishing \<longrightarrow> st_write_eof_requested (es_stream x) \<and>
        (ev_is_set K (st_write_progress (es_stream x)) \<longrightarrow> es_ended x \<or> st_closed (es_stream x))) \<and>
     (es_pc x = Echo_done None \<longrightarrow> es_ended x \<or> st_closed (es_stream x))"

definition echo_inv ::
  "('e, 'b, 'c) capy \<Rightarrow> 'w composed_write \<Rightarrow> ('w \<Rightarrow> write_view) \<Rightarrow> ('b \<Rightarrow> byte list) \<Rightarrow> ('b \<Rightarrow> nat)
    \<Rightarrow> ('c \<Rightarrow> byte list) \<Rightarrow> 'b \<Rightarrow> ('e, 'b, 'c, 'w) echo_sys \<Rightarrow> bool" where
  "echo_inv K W view written room rest buf x \<longleftrightarrow>
     echo_ok K W view written room rest buf \<and> sys_inv K written room rest (es_sys x) \<and>
     echo_control room buf x \<and> echo_balance view x \<and> echo_cause x \<and> echo_ending K x"

lemmas echo_inv_defs = echo_inv_def echo_control_def echo_balance_def echo_cause_def echo_ending_def in_loop_def

subsection \<open>Every step is a step of the stream\<close>

lemma peer_step_stream: "peer_step K s eof t \<Longrightarrow> stream_step K written rest s t"
  by (induction rule: peer_step.induct) (auto intro: stream_step.intros)

lemma echo_own_step_stream:
  assumes "echo_own_step K W written rest buf rq x y" "echo_control room buf x" "written buf = []"
  shows "stream_step K written rest (es_sys x) (es_sys y) \<or> es_sys y = es_sys x"
  using assms
proof (induction rule: echo_own_step.induct)
  case (echo_call_read x submitted s out st' effs sub)
  then have "st_read_sink (sys_stream s) = None" by (auto simp: echo_control_def split: option.splits)
  with echo_call_read step_read [of s written buf K out st' effs rest] show ?case by simp
next
  case (echo_wake_read x submitted s sink e out st' effs sub)
  with step_read_wake [of s sink K e out st' effs written rest] show ?case by (simp add: wait_ends_def)
next
  case (echo_call_write x w s bufs st' effs)
  then have "\<not> sys_writing s" by (simp add: echo_control_def)
  with echo_call_write step_write [of s K bufs False st' effs written rest] show ?case
    by (simp add: write_some_def)
next
  case (echo_wake_write x w s e n st')
  then have "sys_writing s" by (simp add: echo_control_def)
  with echo_wake_write step_write_wake [of s K e n st' written rest] show ?case by (simp add: wait_ends_def)
next
  case (echo_call_eof x s st' effs)
  then have "\<not> sys_writing s" by (simp add: echo_control_def)
  with echo_call_eof step_write [of s K "[]" True st' effs written rest] show ?case
    by (simp add: write_eof_def)
next
  case (echo_wake_eof x s e n st')
  then have "sys_writing s" by (simp add: echo_control_def)
  with echo_wake_eof step_write_wake [of s K e n st' written rest] show ?case by (simp add: wait_ends_def)
qed (auto simp: write_some_def write_eof_def dest!: write_refused)

lemma echo_step_sys_inv:
  assumes "echo_step K W written rest buf rq x y" "echo_inv K W view written room rest buf x"
  shows "sys_inv K written room rest (es_sys y)"
  using assms
proof (induction rule: echo_step.induct)
  case (echo_peer x eof t)
  then show ?case by (auto simp: echo_inv_def intro: stream_step_inv dest: peer_step_stream)
next
  case (echo_own x y)
  then have "echo_control room buf x" "written buf = []" "sys_inv K written room rest (es_sys x)"
    by (simp_all add: echo_inv_def echo_ok_def)
  with echo_own echo_own_step_stream show ?case by (metis stream_step_inv)
qed

subsection \<open>Steps of nghttp2\<close>

lemma echo_peer_frame:
  assumes "echo_inv K W view written room rest buf x" "peer_step K (es_sys x) eof t"
  shows "echo_control room buf (x\<lparr>es_sys := t, es_ended := (es_ended x \<or> eof)\<rparr>) \<and>
    echo_balance view (x\<lparr>es_sys := t, es_ended := (es_ended x \<or> eof)\<rparr>) \<and>
    echo_cause (x\<lparr>es_sys := t, es_ended := (es_ended x \<or> eof)\<rparr>)"
  using assms(2)
proof cases
  case (peer_data d)
  with assms(1) on_data_sink_room [of K written room "es_stream x" d] show ?thesis
    by (auto simp: echo_inv_defs echo_ok_def library_ok_def Let_def split: option.splits echo_pc.splits)
next
  case peer_eof
  with assms(1) show ?thesis
    by (auto simp: echo_inv_defs on_read_eof_def Let_def split: option.splits echo_pc.splits)
next
  case peer_close
  with assms(1) show ?thesis
    by (auto simp: echo_inv_defs on_close_def Let_def split: option.splits echo_pc.splits)
next
  case (peer_pull len res st')
  with assms(1) producer_callback_read_side [OF peer_pull(2)] producer_callback_eof(1) [OF peer_pull(2)]
  show ?thesis
    by (auto simp: echo_inv_defs read_side_def Let_def split: option.splits echo_pc.splits)
qed

lemma echo_peer_ending:
  assumes inv: "echo_inv K W view written room rest buf x" and step: "peer_step K (es_sys x) eof t"
  shows "echo_ending K (x\<lparr>es_sys := t, es_ended := (es_ended x \<or> eof)\<rparr>)"
  using step
proof cases
  case (peer_pull len res st')
  note pull = producer_callback_eof [OF peer_pull(2)] producer_callback_frame [OF peer_pull(2)]
  show ?thesis
  proof (cases "st_write_pending (es_stream x)")
    case False
    with inv peer_pull pull show ?thesis by (auto simp: echo_inv_def echo_ending_def)
  next
    case True
    with inv have "sys_writing (es_sys x)" "\<not> es_ended x"
      by (auto simp: echo_inv_defs sys_inv_def write_inv_def Let_def)
    with inv consider (finishing) "es_pc x = Echo_finishing" | (writing) w where "es_pc x = Echo_writing w"
      by (auto simp: echo_inv_def echo_control_def)
    then show ?thesis
    proof cases
      case finishing
      with inv have "sys_write_data (es_sys x) = []" "st_write_eof_requested (es_stream x)"
        "source_ok K rest" "write_inv K rest (es_sys x)"
        by (auto simp: echo_inv_defs echo_ok_def library_ok_def sys_inv_def Let_def)
      with producer_callback_empty [OF _ _ _ True _ peer_pull(2)] have eof by blast
      with finishing peer_pull pull \<open>st_write_eof_requested (es_stream x)\<close> show ?thesis
        by (simp add: echo_ending_def)
    next
      case writing
      with inv have "\<not> st_write_eof_requested (es_stream x)" by (simp add: echo_inv_defs Let_def)
      with pull have "\<not> eof" by blast
      with writing \<open>\<not> es_ended x\<close> peer_pull show ?thesis by (simp add: echo_ending_def)
    qed
  qed
qed (use inv in \<open>auto simp: echo_inv_def echo_ending_def on_read_eof_def on_close_def\<close>)

subsection \<open>Steps of the handler\<close>

definition echo_frame ::
  "('e, 'b, 'c) capy \<Rightarrow> ('w \<Rightarrow> write_view) \<Rightarrow> ('b \<Rightarrow> nat) \<Rightarrow> 'b \<Rightarrow> ('e, 'b, 'c, 'w) echo_sys \<Rightarrow> bool" where
  "echo_frame K view room buf x \<longleftrightarrow>
     echo_control room buf x \<and> echo_balance view x \<and> echo_cause x \<and> echo_ending K x"

lemmas echo_frame_defs = echo_frame_def echo_control_def echo_balance_def echo_cause_def
  echo_ending_def in_loop_def Let_def

lemma echo_invD:
  assumes "echo_inv K W view written room rest buf x"
  shows "library_ok K written room rest" "composed_write_ok K W view" "written buf = []"
    "room buf = echo_buffer_size" "sys_inv K written room rest (es_sys x)" "echo_frame K view room buf x"
  using assms by (simp_all add: echo_inv_def echo_ok_def echo_frame_def)

text \<open>The state after a read has come back or has parked.\<close>

lemma echo_frame_read:
  assumes x: "echo_frame K view room buf x" and pc: "in_loop (es_pc x)" and ok: "composed_write_ok K W view"
    and D: "sys_delivered s = sys_reported s" and writing: "\<not> sys_writing s" and st: "sys_stream s = es_stream x"
    and out: "out = Read_parked \<and> (\<exists>sink. st_read_sink st' = Some sink \<and>
          room (sink_bp sink) + sink_copied sink = room buf) \<and> returned written out = []
      \<or> st_read_sink st' = None \<and> (\<exists>n bp. out = Read_done (None, n) bp)
      \<or> st_read_sink st' = None \<and> (\<exists>e bp. out = Read_done (Some e, 0) bp \<and>
          (e = Error_eof \<longrightarrow> st_read_eof st' \<and> sys_received s = sys_delivered s))"
  shows "echo_frame K view room buf
    (x\<lparr>es_sys := s\<lparr>sys_stream := st', sys_delivered := sys_delivered s @ returned written out,
                   sys_consumed := c\<rparr>,
       es_pc := echo_after_read W written submitted sub out,
       es_cause := map_option Inl (read_error out)\<rparr>)"
proof -
  have no_end: "\<not> es_ended x" using x pc by (auto simp: echo_frame_defs split: echo_pc.splits)
  from out consider (parked) sink where "out = Read_parked" "st_read_sink st' = Some sink"
      "room (sink_bp sink) + sink_copied sink = room buf" "returned written out = []"
    | (data) n bp where "st_read_sink st' = None" "out = Read_done (None, n) bp"
    | (error) e bp where "st_read_sink st' = None" "out = Read_done (Some e, 0) bp"
        "e = Error_eof \<longrightarrow> st_read_eof st' \<and> sys_received s = sys_delivered s" by blast
  then show ?thesis
  proof cases
    case parked
    with no_end D writing show ?thesis by (simp add: echo_frame_defs echo_after_read_def)
  next
    case data
    with no_end D writing composed_write_start [OF ok] show ?thesis
      by (simp add: echo_frame_defs echo_after_read_def echo_submit_def split: option.split)
  next
    case error
    with no_end D writing show ?thesis by (simp add: echo_frame_defs echo_after_read_def)
  qed
qed

lemma echo_frame_call_read:
  assumes inv: "echo_inv K W view written room rest buf x" and pc: "es_pc x = Echo_read submitted"
    and rd: "read_some K buf (es_stream x) = Some (out, st', effs)"
  shows "echo_frame K view room buf
    (x\<lparr>es_sys := (es_sys x)\<lparr>sys_stream := st', sys_delivered := sys_delivered (es_sys x) @ returned written out,
                   sys_consumed := c\<rparr>,
       es_pc := echo_after_read W written submitted sub out,
       es_cause := map_option Inl (read_error out)\<rparr>)"
proof -
  note I = echo_invD [OF inv]
  from I(6) pc have s: "st_read_sink (es_stream x) = None" "\<not> sys_writing (es_sys x)"
    "sys_delivered (es_sys x) = sys_reported (es_sys x)"
    by (auto simp: echo_frame_defs split: option.splits)
  have room: "0 < room buf" using I(4) by (simp add: echo_buffer_size_def)
  show ?thesis
  proof (rule echo_frame_read [OF I(6) _ I(2) s(3,2) refl])
    show "in_loop (es_pc x)" using pc by (simp add: in_loop_def)
    from read_some_cases [OF I(1,5) s(1) I(3) room rd]
    show "out = Read_parked \<and> (\<exists>sink. st_read_sink st' = Some sink \<and>
          room (sink_bp sink) + sink_copied sink = room buf) \<and> returned written out = []
      \<or> st_read_sink st' = None \<and> (\<exists>n bp. out = Read_done (None, n) bp)
      \<or> st_read_sink st' = None \<and> (\<exists>e bp. out = Read_done (Some e, 0) bp \<and>
          (e = Error_eof \<longrightarrow> st_read_eof st' \<and> sys_received (es_sys x) = sys_delivered (es_sys x)))"
      by cases (use s(1) in \<open>auto simp: read_park_def eof_error_def\<close>)
  qed
qed

lemma echo_frame_wake_read:
  assumes inv: "echo_inv K W view written room rest buf x" and pc: "es_pc x = Echo_reading submitted"
    and sink: "st_read_sink (es_stream x) = Some sink" and e: "wait_ends K e (st_read_ready (es_stream x))"
    and rd: "read_some_resume K e sink (es_stream x) = (out, st', effs)"
  shows "echo_frame K view room buf
    (x\<lparr>es_sys := (es_sys x)\<lparr>sys_stream := st', sys_delivered := sys_delivered (es_sys x) @ returned written out,
                   sys_consumed := c\<rparr>,
       es_pc := echo_after_read W written submitted sub out,
       es_cause := map_option Inl (read_error out)\<rparr>)"
proof -
  note I = echo_invD [OF inv]
  from I(6) pc sink have s: "room (sink_bp sink) + sink_copied sink = room buf" "\<not> sys_writing (es_sys x)"
    "sys_delivered (es_sys x) = sys_reported (es_sys x)"
    by (auto simp: echo_frame_defs)
  have room: "0 < room buf" using I(4) by (simp add: echo_buffer_size_def)
  have e': "e = None \<or> e = Some Error_canceled" using e by (simp add: wait_ends_def)
  show ?thesis
  proof (rule echo_frame_read [OF I(6) _ I(2) s(3,2) refl])
    show "in_loop (es_pc x)" using pc by (simp add: in_loop_def)
    from read_resume_cases [OF I(5) sink s(1) room e' rd]
    show "out = Read_parked \<and> (\<exists>sink. st_read_sink st' = Some sink \<and>
          room (sink_bp sink) + sink_copied sink = room buf) \<and> returned written out = []
      \<or> st_read_sink st' = None \<and> (\<exists>n bp. out = Read_done (None, n) bp)
      \<or> st_read_sink st' = None \<and> (\<exists>e bp. out = Read_done (Some e, 0) bp \<and>
          (e = Error_eof \<longrightarrow> st_read_eof st' \<and> sys_received (es_sys x) = sys_delivered (es_sys x)))"
      by cases (use s(1) in \<open>auto simp: read_park_def eof_error_def\<close>)
  qed
qed

lemma echo_own_step_frame:
  assumes "echo_own_step K W written rest buf rq x y" "echo_inv K W view written room rest buf x"
  shows "echo_frame K view room buf y"
  using assms
proof (induction rule: echo_own_step.induct)
  case (echo_begin x sub)
  note F = echo_invD(6) [OF echo_begin(2)]
  from F echo_begin(1) show ?case
    by (auto simp: echo_frame_defs echo_start_def echo_submit_def split: option.splits)
next
  case (echo_call_read x submitted s out st' effs sub)
  show ?case
    unfolding echo_call_read(2)
    by (rule echo_frame_call_read [OF echo_call_read(4,1) echo_call_read(3) [unfolded echo_call_read(2)]])
next
  case (echo_wake_read x submitted s sink e out st' effs sub)
  show ?case
    unfolding echo_wake_read(2)
    by (rule echo_frame_wake_read [OF echo_wake_read(6,1) echo_wake_read(3-5) [unfolded echo_wake_read(2)]])
next
  case (echo_call_write x w s bufs st' effs)
  note I = echo_invD [OF echo_call_write(5)]
  note C = composed_write_call [OF I(2) echo_call_write(3)]
  have "rest (cb_array K bufs) = concat bufs" using C(3) library_okD(4) [OF I(1)] by (simp add: source_ok_def)
  with I(6) C echo_call_write(1,2,4) show ?case
    by (auto simp: echo_frame_defs write_some_def write_impl_def split: if_splits option.splits)
next
  case (echo_write_refused x w bufs r st' effs)
  note I = echo_invD [OF echo_write_refused(4)]
  note C = composed_write_call [OF I(2) echo_write_refused(2)]
  have r: "r = (Some Error_eof, 0)" "st' = es_stream x"
    using write_refused [OF echo_write_refused(3) [unfolded write_some_def]] by simp_all
  have "view (cw_answer W w r) = \<lparr>wv_left = wv_left (view w), wv_total = wv_total (view w), wv_error = Some Error_eof\<rparr>"
    using composed_write_answer [OF I(2) C(1), of "Some Error_eof" 0] by (simp add: r)
  with I(6) echo_write_refused(1) show ?case by (auto simp: r(2) echo_frame_defs split: option.splits)
next
  case (echo_wake_write x w s e n st')
  note I = echo_invD [OF echo_wake_write(5)]
  from I(6) echo_wake_write(1) have err: "wv_error (view w) = None" by (simp add: echo_frame_defs)
  have n: "n = st_write_offset (sys_stream s)" "st' = (sys_stream s)\<lparr>st_write_pending := False\<rparr>"
    using echo_wake_write(4) by (auto simp: write_impl_resume_def)
  have "sys_writing s" using I(6) echo_wake_write(1,2) by (simp add: echo_frame_defs)
  then have "n \<le> length (sys_write_data s)"
    using I(5) echo_wake_write(2) by (simp add: sys_inv_def write_inv_def Let_def n)
  with I(6) echo_wake_write(1,2) composed_write_answer [OF I(2) err, of e n] n(2) show ?case
    by (auto simp: echo_frame_defs split: option.splits)
next
  case (echo_write_done x w r)
  note I = echo_invD [OF echo_write_done(3)]
  from composed_write_return [OF I(2), of w "fst r" "snd r"] echo_write_done(2)
  have "fst r = None \<Longrightarrow> wv_left (view w) = []" by (cases r) simp
  with I(6) echo_write_done(1) show ?case
    by (auto simp: echo_frame_defs echo_after_write_def split: option.splits)
next
  case (echo_loop_over x submitted sub)
  note F = echo_invD(6) [OF echo_loop_over(2)]
  from F echo_loop_over(1) show ?case
    by (auto simp: echo_frame_defs echo_after_loop_def echo_submit_def split: option.splits)
next
  case (echo_call_eof x s st' effs)
  note I = echo_invD [OF echo_call_eof(4)]
  have "rest (cb_array K []) = []" "event_ok K"
    using library_okD [OF I(1)] by (auto simp: source_ok_def)
  with I(6) echo_call_eof(1-3) show ?case
    by (auto simp: echo_frame_defs write_eof_def write_impl_def event_ok_def split: if_splits option.splits)
next
  case (echo_eof_refused x r st' effs)
  note I = echo_invD [OF echo_eof_refused(3)]
  have r: "r = (Some Error_eof, 0)" "st' = es_stream x"
    using write_refused [OF echo_eof_refused(2) [unfolded write_eof_def]] by simp_all
  from I(6) echo_eof_refused(1) show ?case by (auto simp: r echo_frame_defs split: option.splits)
next
  case (echo_wake_eof x s e n st')
  note I = echo_invD [OF echo_wake_eof(5)]
  have "st' = (sys_stream s)\<lparr>st_write_pending := False\<rparr>"
    using echo_wake_eof(4) by (auto simp: write_impl_resume_def)
  with I(6) echo_wake_eof(1-3) show ?case
    by (auto simp: echo_frame_defs wait_ends_def may_resume_def split: option.splits)
qed

section \<open>Reachable states\<close>

text \<open>The handler starts on a stream of which nobody has read and to which nobody has written.\<close>

definition echo_starts ::
  "('e, 'b, 'c) capy \<Rightarrow> 'w composed_write \<Rightarrow> ('w \<Rightarrow> write_view) \<Rightarrow> ('b \<Rightarrow> byte list) \<Rightarrow> ('b \<Rightarrow> nat)
    \<Rightarrow> ('c \<Rightarrow> byte list) \<Rightarrow> 'b \<Rightarrow> ('e, 'b, 'c, 'w) echo_sys \<Rightarrow> bool" where
  "echo_starts K W view written room rest buf x \<longleftrightarrow>
     echo_ok K W view written room rest buf \<and>
     reachable (starts K written room rest) (stream_step K written rest) (es_sys x) \<and>
     st_read_sink (es_stream x) = None \<and> \<not> sys_writing (es_sys x) \<and>
     sys_delivered (es_sys x) = [] \<and> sys_reported (es_sys x) = [] \<and>
     es_pc x = Echo_started \<and> es_cause x = None \<and> \<not> es_ended x"

lemma echo_starts_inv:
  "echo_starts K W view written room rest buf x \<Longrightarrow> echo_inv K W view written room rest buf x"
  by (auto simp: echo_starts_def echo_inv_defs dest: stream_inv.inv_reachable)

lemma echo_step_inv:
  assumes "echo_inv K W view written room rest buf x" "echo_step K W written rest buf rq x y"
  shows "echo_inv K W view written room rest buf y"
  using assms(2)
proof cases
  case (echo_peer eof t)
  with echo_peer_frame [OF assms(1) echo_peer(2)] echo_peer_ending [OF assms(1) echo_peer(2)]
    echo_step_sys_inv [OF assms(2,1)] assms(1) show ?thesis by (simp add: echo_inv_def)
next
  case echo_own
  from echo_own_step_frame [OF echo_own assms(1)] echo_step_sys_inv [OF assms(2,1)] assms(1) show ?thesis
    by (simp add: echo_inv_def echo_frame_def)
qed

interpretation echo_reach: step_invariant "echo_starts K W view written room rest buf"
  "echo_step K W written rest buf rq" "echo_inv K W view written room rest buf"
  for K :: "('e, 'b, 'c) capy" and W :: "'w composed_write" and view written room rest buf rq
  by unfold_locales (auto intro: echo_starts_inv echo_step_inv)

end
