(* ===== verification/Echo_Properties.thy ===== *)
theory Echo_Properties
  imports Echo_Stream
begin

text \<open>
  What the echo handler guarantees on its stream: the response is a prefix of the request at every
  moment and the whole of it at the end, the end of the body is signalled last, no wakeup is lost,
  and the handler comes to its end soon after its stream was closed. \<open>echo_next\<close> is the handler's
  next step as a function; with it a run is executed, which the witnesses use.
\<close>

section \<open>Properties\<close>

lemma echo_pulled:
  assumes "echo_inv K W view written room rest buf x"
  shows "\<exists>left. sys_delivered (es_sys x) = sys_pulled (es_sys x) @ left"
proof (cases "sys_writing (es_sys x)")
  case False
  with assms have "sys_pulled (es_sys x) = sys_reported (es_sys x)"
    by (simp add: echo_inv_def sys_inv_def write_inv_def Let_def)
  with assms show ?thesis by (auto simp: echo_inv_defs Let_def split: echo_pc.splits)
next
  case True
  let ?s = "es_sys x"
  from True assms have p: "sys_pulled ?s = sys_reported ?s @ take (st_write_offset (sys_stream ?s)) (sys_write_data ?s)"
    by (simp add: echo_inv_def sys_inv_def write_inv_def Let_def)
  from True assms have "\<exists>later. sys_delivered ?s = sys_reported ?s @ sys_write_data ?s @ later"
    by (auto simp: echo_inv_defs Let_def)
  then show ?thesis by (metis p append.assoc append_take_drop_id)
qed

subsection \<open>A concrete run\<close>

text \<open>The next step of the handler when its submission succeeds and no wait is cancelled.\<close>

definition echo_next ::
  "('e, 'b, 'c) capy \<Rightarrow> 'w composed_write \<Rightarrow> ('b \<Rightarrow> byte list) \<Rightarrow> ('c \<Rightarrow> byte list) \<Rightarrow> 'b \<Rightarrow> request
    \<Rightarrow> ('e, 'b, 'c, 'w) echo_sys \<Rightarrow> ('e, 'b, 'c, 'w) echo_sys option" where
  "echo_next K W written rest buf rq x =
     (let s = es_sys x;
          read = (\<lambda>submitted (out, st', effs).
            x\<lparr>es_sys := s\<lparr>sys_stream := st', sys_delivered := sys_delivered s @ returned written out,
                          sys_consumed := sys_consumed s + credited effs\<rparr>,
              es_pc := echo_after_read W written submitted None out,
              es_cause := map_option Inl (read_error out)\<rparr>)
      in case es_pc x of
           Echo_started \<Rightarrow> Some (x\<lparr>es_pc := echo_start rq None\<rparr>)
         | Echo_read submitted \<Rightarrow> map_option (read submitted) (read_some K buf (sys_stream s))
         | Echo_reading submitted \<Rightarrow>
             (case st_read_sink (sys_stream s) of
                None \<Rightarrow> None
              | Some sink \<Rightarrow>
                  if ev_is_set K (st_read_ready (sys_stream s))
                  then Some (read submitted (read_some_resume K None sink (sys_stream s))) else None)
         | Echo_write w \<Rightarrow>
             (case cw_next W w of
                Write_returns r \<Rightarrow>
                  Some (x\<lparr>es_pc := echo_after_write r, es_cause := map_option Inr (fst r)\<rparr>)
              | Call_write_some bufs \<Rightarrow>
                  (case write_some K bufs (sys_stream s) of
                     (Write_parked, st', effs) \<Rightarrow>
                       Some (x\<lparr>es_sys := s\<lparr>sys_stream := st', sys_writing := True,
                                           sys_write_data := rest (cb_array K bufs)\<rparr>,
                               es_pc := Echo_writing w\<rparr>)
                   | (Write_done r, st', effs) \<Rightarrow>
                       Some (x\<lparr>es_sys := s\<lparr>sys_stream := st'\<rparr>, es_pc := Echo_write (cw_answer W w r)\<rparr>)))
         | Echo_writing w \<Rightarrow>
             if ev_is_set K (st_write_progress (sys_stream s))
             then (case write_impl_resume None (sys_stream s) of
                     ((e, n), st') \<Rightarrow>
                       Some (x\<lparr>es_sys := s\<lparr>sys_stream := st', sys_writing := False,
                                           sys_reported := sys_reported s @ take n (sys_write_data s)\<rparr>,
                               es_pc := Echo_write (cw_answer W w (e, n))\<rparr>))
             else None
         | Echo_left submitted \<Rightarrow> Some (x\<lparr>es_pc := echo_after_loop submitted None\<rparr>)
         | Echo_finish \<Rightarrow>
             (case write_eof K [] (sys_stream s) of
                (Write_parked, st', effs) \<Rightarrow>
                  Some (x\<lparr>es_sys := s\<lparr>sys_stream := st', sys_writing := True,
                                      sys_write_data := rest (cb_array K [])\<rparr>,
                          es_pc := Echo_finishing\<rparr>)
              | (Write_done r, st', effs) \<Rightarrow>
                  Some (x\<lparr>es_sys := s\<lparr>sys_stream := st'\<rparr>, es_pc := Echo_done (fst r)\<rparr>))
         | Echo_finishing \<Rightarrow>
             if ev_is_set K (st_write_progress (sys_stream s))
             then (case write_impl_resume None (sys_stream s) of
                     ((e, n), st') \<Rightarrow>
                       Some (x\<lparr>es_sys := s\<lparr>sys_stream := st', sys_writing := False,
                                           sys_reported := sys_reported s @ take n (sys_write_data s)\<rparr>,
                               es_pc := Echo_done e\<rparr>))
             else None
         | Echo_done e \<Rightarrow> None)"

lemma echo_next_step:
  assumes "echo_next K W written rest buf rq x = Some y"
  shows "echo_own_step K W written rest buf rq x y"
proof (cases "es_pc x")
  case Echo_started
  with assms show ?thesis by (auto simp: echo_next_def intro: echo_begin)
next
  case (Echo_read submitted)
  with assms show ?thesis by (auto simp: echo_next_def Let_def intro: echo_call_read)
next
  case (Echo_reading submitted)
  with assms obtain sink out st' effs where
    "st_read_sink (es_stream x) = Some sink" "ev_is_set K (st_read_ready (es_stream x))"
    "read_some_resume K None sink (es_stream x) = (out, st', effs)"
    by (cases "st_read_sink (es_stream x)"; cases "read_some_resume K None (the (st_read_sink (es_stream x))) (es_stream x)")
      (auto simp: echo_next_def Let_def split: if_splits)
  with assms Echo_reading show ?thesis
    by (auto simp: echo_next_def Let_def wait_ends_def may_resume_def intro!: echo_wake_read [where e = None])
next
  case (Echo_write w)
  with assms show ?thesis
    by (auto simp: echo_next_def Let_def split: write_action.splits prod.splits write_outcome.splits
        intro: echo_call_write echo_write_refused echo_write_done)
next
  case (Echo_writing w)
  with assms show ?thesis
    by (auto simp: echo_next_def Let_def wait_ends_def may_resume_def write_impl_resume_def
        split: if_splits intro!: echo_wake_write)
next
  case (Echo_left submitted)
  with assms show ?thesis by (auto simp: echo_next_def intro: echo_loop_over)
next
  case Echo_finish
  with assms show ?thesis
    by (auto simp: echo_next_def Let_def split: prod.splits write_outcome.splits
        intro: echo_call_eof echo_eof_refused)
next
  case Echo_finishing
  with assms show ?thesis
    by (auto simp: echo_next_def Let_def wait_ends_def may_resume_def write_impl_resume_def
        split: if_splits intro!: echo_wake_eof)
next
  case (Echo_done e)
  with assms show ?thesis by (simp add: echo_next_def)
qed

datatype echo_move = Own | Data "byte list" | Eof | Pull nat

fun echo_event ::
  "echo_move \<Rightarrow> (bool, byte list \<times> nat, nat \<times> byte list, write_view) echo_sys
    \<Rightarrow> (bool, byte list \<times> nat, nat \<times> byte list, write_view) echo_sys" where
  "echo_event Own x =
     (case echo_next flat_capy plain_write fst snd ([], echo_buffer_size) demo_request x of None \<Rightarrow> x | Some y \<Rightarrow> y)"
| "echo_event (Data d) x =
     (if st_read_eof (es_stream x) then x
      else x\<lparr>es_sys := (es_sys x)\<lparr>sys_stream := on_data flat_capy d (es_stream x),
                                  sys_received := sys_received (es_sys x) @ d\<rparr>\<rparr>)"
| "echo_event Eof x = x\<lparr>es_sys := (es_sys x)\<lparr>sys_stream := on_read_eof flat_capy (es_stream x)\<rparr>\<rparr>"
| "echo_event (Pull n) x =
     (case producer_callback flat_capy n (es_stream x) of
        (res, eof, st') \<Rightarrow>
          x\<lparr>es_sys := (es_sys x)\<lparr>sys_stream := st', sys_pulled := sys_pulled (es_sys x) @ pulled_bytes res\<rparr>,
            es_ended := (es_ended x \<or> eof)\<rparr>)"

abbreviation demo_echo_reach :: "(bool, byte list \<times> nat, nat \<times> byte list, write_view) echo_sys \<Rightarrow> bool" where
  "demo_echo_reach \<equiv> reachable (echo_starts flat_capy plain_write (\<lambda>w. w) fst snd snd ([], echo_buffer_size))
     (echo_step flat_capy plain_write fst snd ([], echo_buffer_size) demo_request)"

definition echo_init :: "(bool, byte list \<times> nat, nat \<times> byte list, write_view) echo_sys" where
  "echo_init = \<lparr>es_sys = init_sys flat_capy 1 [], es_pc = Echo_started, es_cause = None, es_ended = False\<rparr>"

definition echo_run :: "echo_move list \<Rightarrow> (bool, byte list \<times> nat, nat \<times> byte list, write_view) echo_sys" where
  "echo_run evs = foldl (\<lambda>x ev. echo_event ev x) echo_init evs"

lemma echo_event_reach: "demo_echo_reach x \<Longrightarrow> demo_echo_reach (echo_event ev x)"
proof (cases ev)
  case Own
  assume "demo_echo_reach x"
  with Own show ?thesis
    by (auto split: option.split intro: reachable_step echo_own echo_next_step)
next
  case (Data d)
  assume x: "demo_echo_reach x"
  show ?thesis
  proof (cases "st_read_eof (es_stream x)")
    case False
    from reachable_step [OF x echo_peer [OF peer_data [OF False, of flat_capy d]]] Data False show ?thesis
      by simp
  qed (simp add: Data x)
next
  case Eof
  assume x: "demo_echo_reach x"
  from reachable_step [OF x echo_peer [OF peer_eof [of flat_capy]]] Eof show ?thesis by simp
next
  case (Pull n)
  assume x: "demo_echo_reach x"
  obtain res eof st' where pull: "producer_callback flat_capy n (es_stream x) = (res, eof, st')"
    by (cases "producer_callback flat_capy n (es_stream x)")
  from reachable_step [OF x echo_peer [OF peer_pull [OF pull]]] Pull pull show ?thesis by simp
qed

lemma echo_ok_demo: "echo_ok flat_capy plain_write (\<lambda>w. w) fst snd snd ([], echo_buffer_size)"
  using flat_capy_ok plain_write_ok [of flat_capy] by (simp add: echo_ok_def flat_capy_def)

lemma echo_run_reach: "demo_echo_reach (echo_run evs)"
proof -
  have "reachable (starts flat_capy fst snd snd) demo_step (init_sys flat_capy 1 [])"
    by (rule reachable_init) (auto simp: starts_def flat_capy_ok)
  then have "demo_echo_reach echo_init"
    by (intro reachable_init)
      (simp add: echo_starts_def echo_ok_demo echo_init_def init_sys_def new_stream_def)
  then have "demo_echo_reach (foldl (\<lambda>x ev. echo_event ev x) echo_init evs)"
    by (induction evs rule: rev_induct) (auto intro: echo_event_reach)
  then show ?thesis by (simp add: echo_run_def)
qed

lemmas echo_run_defs = echo_run_def echo_init_def init_sys_def new_stream_def echo_next_def Let_def
  flat_capy_def plain_write_def on_data_def sink_put_def on_read_eof_def read_some_def drain_chunks.simps
  read_park_def read_some_resume_def consume_def eof_error_def write_some_def write_eof_def write_impl_def
  write_impl_resume_def producer_callback_def echo_start_def echo_after_read_def echo_after_write_def
  echo_after_loop_def echo_submit_def has_header_def demo_request_def echo_buffer_size_def

text \<open>The body arrives in two pieces and is pulled in pieces of at most two bytes.\<close>

definition demo_echo :: "(bool, byte list \<times> nat, nat \<times> byte list, write_view) echo_sys" where
  "demo_echo = echo_run [Data [1, 2], Own, Own, Data [3], Own, Pull 1, Own]"

definition demo_echo_done :: "(bool, byte list \<times> nat, nat \<times> byte list, write_view) echo_sys" where
  "demo_echo_done = echo_run
     [Data [1, 2], Own, Own, Own, Pull 8, Own, Own, Eof, Own, Own, Own, Pull 8, Own]"

lemma demo_echo_state:
  "es_pc demo_echo = Echo_write \<lparr>wv_left = [2], wv_total = 1, wv_error = None\<rparr>"
  "sys_received (es_sys demo_echo) = [1, 2, 3]" "sys_pulled (es_sys demo_echo) = [1]"
  unfolding demo_echo_def by (simp_all add: echo_run_defs)

lemma demo_echo_done_state:
  "es_pc demo_echo_done = Echo_done None" "es_cause demo_echo_done = Some (Inl Error_eof)"
  "es_ended demo_echo_done" "sys_received (es_sys demo_echo_done) = [1, 2]"
  unfolding demo_echo_done_def by (simp_all add: echo_run_defs)

subsection \<open>The response body\<close>

text \<open>
  C9. The echo on the wire: whatever nghttp2 and the peer do and however they interleave with the
  handler (deliveries while it reads or writes, partial pulls, an early end, a close in the middle
  of a write, cancellation), the bytes nghttp2 has taken for the response are always a prefix of
  the bytes it has delivered of the request.
\<close>

theorem echo_response_is_prefix:
  assumes "reachable (echo_starts K W view written room rest buf) (echo_step K W written rest buf rq) x"
  shows "\<exists>later. sys_received (es_sys x) = sys_pulled (es_sys x) @ later"
proof -
  note inv = echo_reach.inv_reachable [OF assms]
  from inv have "sys_received (es_sys x) = sys_delivered (es_sys x) @ unread written (es_stream x)"
    by (simp add: echo_inv_def sys_inv_def read_sys_inv_def)
  with echo_pulled [OF inv] show ?thesis by auto
qed

theorem echo_response_is_prefix_witness:
  "\<exists>later. [1, 2, 3] = sys_pulled (es_sys demo_echo) @ later"
  using echo_response_is_prefix [OF echo_run_reach, of "[Data [1, 2], Own, Own, Data [3], Own, Pull 1, Own]"]
    demo_echo_state(2) by (simp add: demo_echo_def)

text \<open>
  C10. The echo is complete: when the handler has returned without an error and its loop was ended by
  a clean end of the request body, nghttp2 has taken the whole request body for the response, and
  it has been told that the response body ends there, unless the stream was closed before it asked.
\<close>

theorem echo_response_is_complete:
  assumes "reachable (echo_starts K W view written room rest buf) (echo_step K W written rest buf rq) x"
    and "es_pc x = Echo_done None" and "es_cause x = Some (Inl Error_eof)"
  shows "sys_pulled (es_sys x) = sys_received (es_sys x) \<and> (es_ended x \<or> st_closed (es_stream x))"
proof -
  note inv = echo_reach.inv_reachable [OF assms(1)]
  have "\<not> sys_writing (es_sys x)" using inv assms(2) by (simp add: echo_inv_defs)
  then have "sys_pulled (es_sys x) = sys_reported (es_sys x)"
    using inv by (simp add: echo_inv_def sys_inv_def write_inv_def Let_def)
  with inv assms(2,3) show ?thesis by (simp add: echo_inv_def echo_cause_def echo_ending_def)
qed

theorem echo_response_is_complete_witness: "sys_pulled (es_sys demo_echo_done) = [1, 2]"
  using echo_response_is_complete [OF echo_run_reach,
      of "[Data [1, 2], Own, Own, Own, Pull 8, Own, Own, Eof, Own, Own, Own, Pull 8, Own]"]
    demo_echo_done_state by (simp add: demo_echo_done_def)

text \<open>
  The end of the body comes last: once the data provider has set the end-of-data flag, no step of
  the handler or of nghttp2 moves another byte into the response.
\<close>

theorem echo_end_is_final:
  assumes "reachable (echo_starts K W view written room rest buf) (echo_step K W written rest buf rq) x"
    and "es_ended x" and "echo_step K W written rest buf rq x y"
  shows "es_ended y \<and> sys_pulled (es_sys y) = sys_pulled (es_sys x)"
  using assms(3)
proof cases
  case (echo_peer eof t)
  have "\<not> st_write_pending (es_stream x)"
    using echo_reach.inv_reachable [OF assms(1)] assms(2) by (simp add: echo_inv_def echo_ending_def)
  with echo_peer(2) have "sys_pulled t = sys_pulled (es_sys x)"
    by cases (auto dest: producer_callback_eof(3))
  with echo_peer(1) assms(2) show ?thesis by simp
next
  case echo_own
  then show ?thesis using assms(2) by cases simp_all
qed

theorem echo_end_is_final_witness:
  "sys_pulled (es_sys (echo_event (Pull 8) demo_echo_done)) = sys_pulled (es_sys demo_echo_done)"
proof -
  obtain res eof st' where pull: "producer_callback flat_capy 8 (es_stream demo_echo_done) = (res, eof, st')"
    by (cases "producer_callback flat_capy 8 (es_stream demo_echo_done)")
  have "demo_echo_reach demo_echo_done" unfolding demo_echo_done_def by (rule echo_run_reach)
  from echo_end_is_final [OF this demo_echo_done_state(3) echo_peer [OF peer_pull [OF pull]]] pull
  show ?thesis by simp
qed

subsection \<open>Progress\<close>

text \<open>The handler is not suspended, or the event it waits on is set.\<close>

definition runnable :: "('e, 'b, 'c) capy \<Rightarrow> ('e, 'b, 'c, 'w) echo_sys \<Rightarrow> bool" where
  "runnable K x \<longleftrightarrow>
     (case es_pc x of
        Echo_reading _ \<Rightarrow> ev_is_set K (st_read_ready (es_stream x))
      | Echo_writing _ \<Rightarrow> ev_is_set K (st_write_progress (es_stream x))
      | Echo_finishing \<Rightarrow> ev_is_set K (st_write_progress (es_stream x))
      | Echo_done _ \<Rightarrow> False
      | _ \<Rightarrow> True)"

lemma echo_read_returns:
  assumes inv: "echo_inv K W view written room rest buf x" and pc: "es_pc x = Echo_read submitted"
  shows "\<exists>r. read_some K buf (es_stream x) = Some r"
proof -
  note I = echo_invD [OF inv]
  have "chunks_wf (st_chunks (es_stream x)) (st_front_offset (es_stream x))"
    using I(5) by (simp add: sys_inv_def read_sys_inv_def read_inv_def)
  with library_okD(2) [OF I(1)] show ?thesis by (rule read_some_total)
qed

lemma runnable_next:
  assumes inv: "echo_inv K W view written room rest buf x" and run: "runnable K x"
  shows "\<exists>y. echo_next K W written rest buf rq x = Some y"
proof (cases "es_pc x")
  case (Echo_read submitted)
  with echo_read_returns [OF inv] show ?thesis by (auto simp: echo_next_def Let_def)
next
  case (Echo_reading submitted)
  with echo_invD(6) [OF inv] obtain sink where "st_read_sink (es_stream x) = Some sink"
    by (auto simp: echo_frame_defs split: option.splits)
  with Echo_reading run show ?thesis by (simp add: echo_next_def runnable_def Let_def)
next
  case (Echo_write w)
  then show ?thesis
    by (cases "cw_next W w")
      (auto simp: echo_next_def Let_def split: prod.split write_outcome.split)
qed (use run in \<open>auto simp: echo_next_def runnable_def Let_def split: prod.split write_outcome.split\<close>)

text \<open>
  C27. No wakeup is lost between the handler and the stream: in every reachable state the handler has
  returned, or it can take its next step without being cancelled, or it waits for what has really
  not happened: for the request, of which it has read everything that was delivered and which has
  neither ended nor been closed, or for nghttp2 to pull from an open stream, to which its bytes or
  the end of its body are on offer and whose data provider is not left deferred.
\<close>

theorem echo_never_stuck:
  assumes "reachable (echo_starts K W view written room rest buf) (echo_step K W written rest buf rq) x"
  shows "(\<exists>e. es_pc x = Echo_done e) \<or>
    (\<exists>y. echo_next K W written rest buf rq x = Some y \<and> echo_own_step K W written rest buf rq x y) \<or>
    (\<exists>b. es_pc x = Echo_reading b) \<and> sys_received (es_sys x) = sys_delivered (es_sys x) \<and>
      \<not> st_read_eof (es_stream x) \<and> \<not> st_closed (es_stream x) \<or>
    ((\<exists>w. es_pc x = Echo_writing w) \<or> es_pc x = Echo_finishing) \<and> st_write_pending (es_stream x) \<and>
      \<not> st_closed (es_stream x) \<and> \<not> st_write_deferred (es_stream x)"
proof (cases "runnable K x")
  case True
  then obtain y where "echo_next K W written rest buf rq x = Some y"
    using runnable_next [OF echo_reach.inv_reachable [OF assms] True, of rq] by auto
  with echo_next_step [OF this] show ?thesis by blast
next
  case False
  note I = echo_invD [OF echo_reach.inv_reachable [OF assms]]
  show ?thesis
  proof (cases "es_pc x")
    case (Echo_reading b)
    with I(6) obtain sink where sink: "st_read_sink (es_stream x) = Some sink"
      "room (sink_bp sink) + sink_copied sink = room buf"
      by (auto simp: echo_frame_defs split: option.splits)
    with I(4,5) False Echo_reading show ?thesis
      by (auto simp: runnable_def sys_inv_def read_sys_inv_def read_awake_def read_inv_def unread_def
          in_flight_def echo_buffer_size_def)
  next
    case (Echo_writing w)
    with I(5,6) False show ?thesis by (auto simp: runnable_def echo_frame_defs sys_inv_def write_inv_def)
  next
    case Echo_finishing
    with I(5,6) False show ?thesis by (auto simp: runnable_def echo_frame_defs sys_inv_def write_inv_def)
  qed (use False in \<open>auto simp: runnable_def\<close>)
qed

theorem echo_never_stuck_witness:
  "\<exists>y. echo_next flat_capy plain_write fst snd ([], echo_buffer_size) demo_request demo_echo = Some y"
  using echo_never_stuck [OF echo_run_reach, of "[Data [1, 2], Own, Own, Data [3], Own, Pull 1, Own]"]
    demo_echo_state(1) by (auto simp: demo_echo_def)

text \<open>An upper bound on the steps the handler has left once its stream is closed.\<close>

definition echo_rank :: "('w \<Rightarrow> write_view) \<Rightarrow> 'w echo_pc \<Rightarrow> nat" where
  "echo_rank view pc =
     (case pc of
        Echo_done _ \<Rightarrow> 0
      | Echo_finish \<Rightarrow> 1
      | Echo_finishing \<Rightarrow> 1
      | Echo_left _ \<Rightarrow> 2
      | Echo_write w \<Rightarrow> if wv_error (view w) \<noteq> None then 3 else if wv_left (view w) \<noteq> [] then 4 else 6
      | Echo_read _ \<Rightarrow> 5
      | Echo_reading _ \<Rightarrow> 5
      | Echo_writing _ \<Rightarrow> 7
      | Echo_started \<Rightarrow> 7)"

lemma echo_rank_read:
  assumes "composed_write_ok K W view" "out \<noteq> Read_parked"
    and "\<And>n bp. out = Read_done (None, n) bp \<Longrightarrow> returned written out \<noteq> []"
  shows "echo_rank view (echo_after_read W written submitted sub out) < 5"
proof (cases out)
  case (Read_done r bp)
  with assms show ?thesis
    by (cases r; cases "fst r")
      (auto simp: echo_after_read_def echo_rank_def echo_submit_def Let_def
        composed_write_start [OF assms(1)] split: option.split)
qed (use assms in simp)

lemma echo_rank_decreases:
  assumes "echo_own_step K W written rest buf rq x y" "echo_inv K W view written room rest buf x"
    and "st_closed (es_stream x)"
  shows "echo_rank view (es_pc y) < echo_rank view (es_pc x) \<and> st_closed (es_stream y)"
  using assms
proof (induction rule: echo_own_step.induct)
  case (echo_begin x sub)
  then show ?case by (auto simp: echo_start_def echo_submit_def echo_rank_def split: option.split)
next
  case (echo_call_read x submitted s out st' effs sub)
  note I = echo_invD [OF echo_call_read(4)]
  from I(6) echo_call_read(1) have sink: "st_read_sink (es_stream x) = None"
    by (auto simp: echo_frame_defs split: option.splits)
  have room: "0 < room buf" using I(4) by (simp add: echo_buffer_size_def)
  have rd: "read_some K buf (es_stream x) = Some (out, st', effs)" using echo_call_read(2,3) by simp
  have "out \<noteq> Read_parked"
    using rd echo_call_read(5) by (auto simp: read_some_def Let_def split: option.splits if_splits)
  moreover have "returned written out \<noteq> []" if "out = Read_done (None, n) bp" for n bp
    using read_some_cases [OF I(1,5) sink I(3) room rd] that by (cases; auto simp: eof_error_def)
  ultimately have "echo_rank view (echo_after_read W written submitted sub out) < 5"
    by (rule echo_rank_read [OF I(2)])
  moreover have "st_closed st'" using read_some_write_side [OF rd] echo_call_read(5) by (simp add: write_side_def)
  ultimately show ?case using echo_call_read(1) by (simp add: echo_rank_def)
next
  case (echo_wake_read x submitted s sink e out st' effs sub)
  note I = echo_invD [OF echo_wake_read(6)]
  from I(6) echo_wake_read(1-3) have room: "room (sink_bp sink) + sink_copied sink = room buf" "0 < room buf"
    using I(4) by (auto simp: echo_frame_defs echo_buffer_size_def)
  have e: "e = None \<or> e = Some Error_canceled" using echo_wake_read(4) by (simp add: wait_ends_def)
  have rd: "st_read_sink (es_stream x) = Some sink" "read_some_resume K e sink (es_stream x) = (out, st', effs)"
    using echo_wake_read(2,3,5) by simp_all
  have "out \<noteq> Read_parked"
    using rd(2) echo_wake_read(7) by (auto simp: read_some_resume_def Let_def split: if_splits)
  moreover have "returned written out \<noteq> []" if "out = Read_done (None, n) bp" for n bp
    using read_resume_cases [OF I(5) rd(1) room e rd(2)] that by (cases; auto simp: eof_error_def)
  ultimately have "echo_rank view (echo_after_read W written submitted sub out) < 5"
    by (rule echo_rank_read [OF I(2)])
  moreover have "st_closed st'"
    using read_some_resume_write_side [OF rd(2)] echo_wake_read(7) by (simp add: write_side_def)
  ultimately show ?case using echo_wake_read(1) by (simp add: echo_rank_def)
next
  case (echo_call_write x w s bufs st' effs)
  then show ?case by (simp add: write_some_def write_impl_def)
next
  case (echo_write_refused x w bufs r st' effs)
  note I = echo_invD [OF echo_write_refused(4)]
  note C = composed_write_call [OF I(2) echo_write_refused(2)]
  have r: "r = (Some Error_eof, 0)" "st' = es_stream x"
    using write_refused [OF echo_write_refused(3) [unfolded write_some_def]] by simp_all
  from C echo_write_refused(1,5) composed_write_answer [OF I(2) C(1), of "Some Error_eof" 0] show ?case
    by (auto simp: r echo_rank_def)
next
  case (echo_wake_write x w s e n st')
  then show ?case by (auto simp: echo_rank_def write_impl_resume_def)
next
  case (echo_write_done x w r)
  note I = echo_invD [OF echo_write_done(3)]
  from composed_write_return [OF I(2), of w "fst r" "snd r"] echo_write_done
  show ?case by (cases r) (auto simp: echo_rank_def echo_after_write_def)
next
  case (echo_loop_over x submitted sub)
  then show ?case by (auto simp: echo_after_loop_def echo_submit_def echo_rank_def split: option.split)
next
  case (echo_call_eof x s st' effs)
  then show ?case by (simp add: write_eof_def write_impl_def)
next
  case (echo_eof_refused x r st' effs)
  then show ?case by (auto simp: echo_rank_def write_eof_def dest!: write_refused)
next
  case (echo_wake_eof x s e n st')
  then show ?case by (auto simp: echo_rank_def write_impl_resume_def)
qed

text \<open>\<open>n\<close> steps of the handler, among any number of steps of nghttp2.\<close>

inductive echo_steps ::
  "('e, 'b, 'c) capy \<Rightarrow> 'w composed_write \<Rightarrow> ('b \<Rightarrow> byte list) \<Rightarrow> ('c \<Rightarrow> byte list) \<Rightarrow> 'b \<Rightarrow> request
    \<Rightarrow> nat \<Rightarrow> ('e, 'b, 'c, 'w) echo_sys \<Rightarrow> ('e, 'b, 'c, 'w) echo_sys \<Rightarrow> bool"
  for K W written rest buf rq where
  steps_none: "echo_steps K W written rest buf rq 0 x x"
| steps_peer:
    "echo_steps K W written rest buf rq n x y \<Longrightarrow> peer_step K (es_sys y) eof t \<Longrightarrow>
     echo_steps K W written rest buf rq n x (y\<lparr>es_sys := t, es_ended := (es_ended y \<or> eof)\<rparr>)"
| steps_own:
    "echo_steps K W written rest buf rq n x y \<Longrightarrow> echo_own_step K W written rest buf rq y z \<Longrightarrow>
     echo_steps K W written rest buf rq (Suc n) x z"

lemma peer_step_closed: "peer_step K s eof t \<Longrightarrow> st_closed (sys_stream s) \<Longrightarrow> st_closed (sys_stream t)"
  by (induction rule: peer_step.induct) (auto simp: on_read_eof_def on_close_def dest: producer_callback_frame)

lemma echo_steps_rank:
  assumes "echo_steps K W written rest buf rq n x y" "echo_inv K W view written room rest buf x"
    "st_closed (es_stream x)"
  shows "n + echo_rank view (es_pc y) \<le> echo_rank view (es_pc x) \<and> st_closed (es_stream y) \<and>
    echo_inv K W view written room rest buf y"
  using assms
proof (induction rule: echo_steps.induct)
  case (steps_peer n x y eof t)
  then show ?case using echo_step_inv [OF _ echo_peer] peer_step_closed by fastforce
next
  case (steps_own n x y z)
  then have y: "n + echo_rank view (es_pc y) \<le> echo_rank view (es_pc x)" "st_closed (es_stream y)"
    "echo_inv K W view written room rest buf y" by blast+
  from echo_rank_decreases [OF steps_own(2) y(3,2)] y(1) echo_step_inv [OF y(3) echo_own [OF steps_own(2)]]
  show ?case by simp
qed simp

lemma closed_writer_awake:
  "write_inv K rest s \<Longrightarrow> sys_writing s \<Longrightarrow> st_closed (sys_stream s) \<Longrightarrow> ev_is_set K (st_write_progress (sys_stream s))"
  by (simp add: write_inv_def Let_def)

lemma closed_runnable:
  assumes "echo_inv K W view written room rest buf x" "st_closed (es_stream x)" "\<forall>e. es_pc x \<noteq> Echo_done e"
  shows "runnable K x"
proof (cases "es_pc x")
  case (Echo_reading b)
  with assms(1) obtain sink where "st_read_sink (es_stream x) = Some sink"
    by (auto simp: echo_inv_def echo_control_def split: option.splits)
  with assms(1,2) Echo_reading show ?thesis
    by (simp add: runnable_def echo_inv_def sys_inv_def read_sys_inv_def read_awake_def)
next
  case (Echo_writing w)
  with assms(1) have "sys_writing (es_sys x)" "write_inv K rest (es_sys x)"
    by (simp_all add: echo_inv_def echo_control_def sys_inv_def)
  with closed_writer_awake assms(2) show ?thesis by (simp add: runnable_def \<open>es_pc x = _\<close>)
next
  case Echo_finishing
  with assms(1) have "sys_writing (es_sys x)" "write_inv K rest (es_sys x)"
    by (simp_all add: echo_inv_def echo_control_def sys_inv_def)
  with closed_writer_awake assms(2) show ?thesis by (simp add: runnable_def \<open>es_pc x = _\<close>)
qed (use assms(3) in \<open>simp_all add: runnable_def\<close>)

text \<open>
  C28. The handler ends after its stream was closed (by the peer, by an error, or by the end of the
  session): whatever else happens on the stream, it takes at most seven more steps, and as long as
  it has not returned its next step is possible without being cancelled.
\<close>

theorem echo_ends_after_close:
  assumes "reachable (echo_starts K W view written room rest buf) (echo_step K W written rest buf rq) x"
    and "st_closed (es_stream x)" and "echo_steps K W written rest buf rq n x y"
  shows "n \<le> 7 \<and> ((\<exists>e. es_pc y = Echo_done e) \<or>
    (\<exists>z. echo_next K W written rest buf rq y = Some z \<and> echo_own_step K W written rest buf rq y z))"
proof -
  from echo_steps_rank [OF assms(3) echo_reach.inv_reachable [OF assms(1)] assms(2)]
  have y: "n + echo_rank view (es_pc y) \<le> echo_rank view (es_pc x)" "st_closed (es_stream y)"
    "echo_inv K W view written room rest buf y" by blast+
  have "echo_rank view (es_pc x) \<le> 7" by (simp add: echo_rank_def split: echo_pc.split)
  moreover have "\<exists>z. echo_next K W written rest buf rq y = Some z" if "\<forall>e. es_pc y \<noteq> Echo_done e"
    using runnable_next [OF y(3) closed_runnable [OF y(3,2) that], of rq] .
  ultimately show ?thesis using y(1) echo_next_step by fastforce
qed

definition demo_echo_closed :: "(bool, byte list \<times> nat, nat \<times> byte list, write_view) echo_sys" where
  "demo_echo_closed = demo_echo\<lparr>es_sys := (es_sys demo_echo)\<lparr>sys_stream := on_close flat_capy (es_stream demo_echo)\<rparr>\<rparr>"

theorem echo_ends_after_close_witness:
  "\<exists>z. echo_next flat_capy plain_write fst snd ([], echo_buffer_size) demo_request demo_echo_closed = Some z"
proof -
  have "demo_echo_reach demo_echo" unfolding demo_echo_def by (rule echo_run_reach)
  from reachable_step [OF this echo_peer [OF peer_close [of flat_capy]]]
  have "demo_echo_reach demo_echo_closed" by (simp add: demo_echo_closed_def)
  moreover have "st_closed (es_stream demo_echo_closed)" "es_pc demo_echo_closed = es_pc demo_echo"
    by (simp_all add: demo_echo_closed_def on_close_def)
  ultimately show ?thesis
    using echo_ends_after_close [OF _ _ steps_none, of flat_capy plain_write "\<lambda>w. w" fst snd snd
        "([], echo_buffer_size)" demo_request demo_echo_closed] demo_echo_state(1) by auto
qed

end
