(* ===== verification/Echo_Exchange.thy ===== *)
theory Echo_Exchange
  imports Echo_Properties Body_Write
begin

text \<open>
  A client and the echo handler of a server, each on its own stream, with the bodies in transit
  between them. The client sends a body with \<open>ClientRequest::write_eof\<close> and reads the response
  concurrently; the server runs \<open>echo\<close>. Of HTTP/2 only this is assumed: the data of a stream arrives
  in order, in pieces of any size, and the end of a body arrives after all its data. Both streams may
  be closed at any moment. nghttp2 may pull and deliver whenever it likes, so what is proved here holds
  for every behaviour of it; what the streams ask of their sessions has no effect here and is carried out
  in theory \<open>Echo_Flow\<close>.

  The theorems are about the composition: what the client reads back is its own body.
\<close>

section \<open>Why the echo handler ends\<close>

text \<open>
  The error that ended the loop of \<open>echo\<close>: the end of the request, a cancellation, or a close of the
  stream. After a close the end of the response cannot be signalled any more.
\<close>

definition orderly :: "(error_code + error_code) option \<Rightarrow> bool" where
  "orderly cause \<longleftrightarrow> cause \<in> {Some (Inl Error_eof), Some (Inl Error_canceled), Some (Inr Error_canceled)}"

definition echo_reason ::
  "('w \<Rightarrow> write_view) \<Rightarrow> ('e, 'b, 'c, 'w) echo_sys \<Rightarrow> bool" where
  "echo_reason view x \<longleftrightarrow>
     (\<not> in_loop (es_pc x) \<longrightarrow> (\<forall>e. es_pc x \<noteq> Echo_done (Some e)) \<longrightarrow> orderly (es_cause x) \<or> st_closed (es_stream x)) \<and>
     (\<forall>w e. es_pc x = Echo_write w \<longrightarrow> wv_error (view w) = Some e \<longrightarrow>
        e = Error_canceled \<or> st_closed (es_stream x)) \<and>
     (es_pc x = Echo_finishing \<or> es_ended x \<longrightarrow> orderly (es_cause x))"

lemma echo_reason_peer:
  assumes inv: "echo_inv K W view written room rest buf x" and r: "echo_reason view x"
    and step: "peer_step K (es_sys x) eof t"
  shows "echo_reason view (x\<lparr>es_sys := t, es_ended := (es_ended x \<or> eof)\<rparr>)"
proof -
  have "es_pc x = Echo_finishing" if "eof"
  proof -
    from step that have "st_write_pending (es_stream x)" "st_write_eof_requested (es_stream x)"
      by (cases; auto dest: producer_callback_eof(2))+
    with inv show ?thesis
      by (auto simp: echo_inv_defs sys_inv_def write_inv_def Let_def)
  qed
  with r peer_step_closed [OF step] show ?thesis by (auto simp: echo_reason_def)
qed

lemma read_some_open_error:
  assumes "read_some K buf st = Some (Read_done (Some e, n) bp, st', effs)"
  shows "e = Error_eof \<or> st_closed st'"
  using assms
  by (auto simp: read_some_def eof_error_def Let_def split: option.splits if_splits)

lemma read_resume_open_error:
  assumes "read_some_resume K c sink st = (Read_done (Some e, n) bp, st', effs)" "c = None \<or> c = Some Error_canceled"
  shows "e = Error_eof \<or> e = Error_canceled \<or> st_closed st'"
  using assms
  by (auto simp: read_some_resume_def eof_error_def Let_def split: if_splits)

text \<open>After a read: the handler goes on, or it leaves the loop for a reason.\<close>

lemma echo_reason_read:
  assumes "echo_reason view x" "in_loop (es_pc x)" "\<not> es_ended x" "composed_write_ok K W view"
    and "\<And>e n bp. out = Read_done (Some e, n) bp \<Longrightarrow> e = Error_eof \<or> e = Error_canceled \<or> st_closed st'"
  shows "echo_reason view (x\<lparr>es_sys := s\<lparr>sys_stream := st', sys_delivered := d, sys_consumed := c\<rparr>,
    es_pc := echo_after_read W written submitted sub out, es_cause := map_option Inl (read_error out)\<rparr>)"
proof (cases out)
  case (Read_done r bp)
  obtain e n where r: "r = (e, n)" by fastforce
  show ?thesis
  proof (cases e)
    case None
    with Read_done r assms(1-3) composed_write_start [OF assms(4)] show ?thesis
      by (auto simp: echo_reason_def echo_after_read_def echo_submit_def in_loop_def Let_def split: option.splits)
  next
    case (Some err)
    with Read_done r assms(3) assms(5) [of err n bp] show ?thesis
      by (auto simp: echo_reason_def echo_after_read_def orderly_def)
  qed
qed (use assms(3) in \<open>auto simp: echo_reason_def echo_after_read_def in_loop_def\<close>)

lemma echo_reason_own:
  assumes "echo_own_step K W written rest buf rq x y" "echo_inv K W view written room rest buf x"
    and "echo_reason view x"
  shows "echo_reason view y"
  using assms
proof (induction rule: echo_own_step.induct)
  case (echo_begin x sub)
  note F = echo_invD(6) [OF echo_begin(2)]
  then have "\<not> es_ended x" using echo_begin(1) by (auto simp: echo_frame_defs)
  with echo_begin show ?case
    by (auto simp: echo_reason_def echo_start_def echo_submit_def in_loop_def split: option.splits)
next
  case (echo_call_read x submitted s out st' effs sub)
  note I = echo_invD [OF echo_call_read(4)]
  have "\<not> es_ended x" using I(6) echo_call_read(1) by (auto simp: echo_frame_defs)
  moreover have "in_loop (es_pc x)" using echo_call_read(1) by (simp add: in_loop_def)
  ultimately show ?case
    using echo_call_read(3)
    by (intro echo_reason_read [OF echo_call_read(5) _ _ I(2)]) (auto dest: read_some_open_error)
next
  case (echo_wake_read x submitted s sink e out st' effs sub)
  note I = echo_invD [OF echo_wake_read(6)]
  have "\<not> es_ended x" using I(6) echo_wake_read(1) by (auto simp: echo_frame_defs)
  moreover have "in_loop (es_pc x)" using echo_wake_read(1) by (simp add: in_loop_def)
  moreover have "e = None \<or> e = Some Error_canceled" using echo_wake_read(4) by (simp add: wait_ends_def)
  ultimately show ?case
    using echo_wake_read(5)
    by (intro echo_reason_read [OF echo_wake_read(7) _ _ I(2)]) (auto dest: read_resume_open_error)
next
  case (echo_call_write x w s bufs st' effs)
  note F = echo_invD(6) [OF echo_call_write(5)]
  with echo_call_write(1,6) show ?case by (auto simp: echo_reason_def in_loop_def echo_frame_defs)
next
  case (echo_write_refused x w bufs r st' effs)
  note I = echo_invD [OF echo_write_refused(4)]
  have r: "st_closed (es_stream x)" "st' = es_stream x"
    using write_refused [OF echo_write_refused(3) [unfolded write_some_def]] by simp_all
  from I(6) echo_write_refused(1) have "\<not> es_ended x" by (auto simp: echo_frame_defs)
  with r echo_write_refused(5) show ?case by (auto simp: echo_reason_def in_loop_def)
next
  case (echo_wake_write x w s e n st')
  note I = echo_invD [OF echo_wake_write(5)]
  from I(6) echo_wake_write(1) have err: "wv_error (view w) = None" "\<not> es_ended x"
    by (auto simp: echo_frame_defs)
  have "e = None \<or> e = Some Error_canceled" using echo_wake_write(3) by (simp add: wait_ends_def)
  with err(2) composed_write_answer [OF I(2) err(1), of e n] show ?case
    by (auto simp: echo_reason_def in_loop_def)
next
  case (echo_write_done x w r)
  note I = echo_invD [OF echo_write_done(3)]
  from composed_write_return [OF I(2), of w "fst r" "snd r"] echo_write_done(2)
  have "fst r = wv_error (view w)" by (cases r) simp
  moreover have "\<not> es_ended x" using I(6) echo_write_done(1) by (auto simp: echo_frame_defs)
  ultimately show ?case
    using echo_write_done(1,4) by (auto simp: echo_reason_def echo_after_write_def in_loop_def orderly_def)
next
  case (echo_loop_over x submitted sub)
  note F = echo_invD(6) [OF echo_loop_over(2)]
  then have "\<not> es_ended x" using echo_loop_over(1) by (auto simp: echo_frame_defs)
  with echo_loop_over(1,3) show ?case
    by (auto simp: echo_reason_def echo_after_loop_def echo_submit_def in_loop_def split: option.splits)
next
  case (echo_call_eof x s st' effs)
  have "\<not> st_closed (es_stream x)" "st_closed st' = st_closed (es_stream x)"
    using echo_call_eof(2,3) by (auto simp: write_eof_def write_impl_def Let_def split: if_splits)
  with echo_call_eof(1,5) show ?case by (auto simp: echo_reason_def in_loop_def)
next
  case (echo_eof_refused x r st' effs)
  have r: "r = (Some Error_eof, 0)" "st_closed st'"
    using write_refused [OF echo_eof_refused(2) [unfolded write_eof_def]] by auto
  then show ?case using echo_eof_refused(1,4) by (auto simp: echo_reason_def in_loop_def)
next
  case (echo_wake_eof x s e n st')
  then show ?case by (auto simp: echo_reason_def in_loop_def)
qed

definition echo_full_inv where
  "echo_full_inv K W view written room rest buf x \<longleftrightarrow>
     echo_inv K W view written room rest buf x \<and> echo_reason view x"

lemma echo_full_step:
  assumes "echo_full_inv K W view written room rest buf x" "echo_step K W written rest buf rq x y"
  shows "echo_full_inv K W view written room rest buf y"
  using assms(2)
proof cases
  case (echo_peer eof t)
  have inv: "echo_inv K W view written room rest buf x" "echo_reason view x"
    using assms(1) by (simp_all add: echo_full_inv_def)
  from echo_reason_peer [OF inv echo_peer(2)] echo_step_inv [OF inv(1) assms(2)] echo_peer(1) show ?thesis
    by (simp add: echo_full_inv_def)
next
  case echo_own
  have inv: "echo_inv K W view written room rest buf x" "echo_reason view x"
    using assms(1) by (simp_all add: echo_full_inv_def)
  from echo_reason_own [OF echo_own inv] echo_step_inv [OF inv(1) assms(2)] show ?thesis
    by (simp add: echo_full_inv_def)
qed

section \<open>The exchange\<close>

text \<open>The client, the server, and the bytes of both bodies that are on their way.\<close>

record ('e, 'b, 'c, 'w) exchange =
  xc_client :: "('e, 'b, 'c, 'w) body_sys"
  xc_server :: "('e, 'b, 'c, 'w) echo_sys"
  xc_request :: "byte list"
  xc_response :: "byte list"

abbreviation client_stream :: "('e, 'b, 'c, 'w) exchange \<Rightarrow> ('e, 'b, 'c) stream" where
  "client_stream x \<equiv> bs_stream (xc_client x)"

abbreviation server_stream :: "('e, 'b, 'c, 'w) exchange \<Rightarrow> ('e, 'b, 'c) stream" where
  "server_stream x \<equiv> es_stream (xc_server x)"

abbreviation client_sys :: "('e, 'b, 'c, 'w) exchange \<Rightarrow> ('e, 'b, 'c) stream_sys" where
  "client_sys x \<equiv> bs_sys (xc_client x)"

abbreviation server_stream_sys :: "('e, 'b, 'c, 'w) exchange \<Rightarrow> ('e, 'b, 'c) stream_sys" where
  "server_stream_sys x \<equiv> es_sys (xc_server x)"

text \<open>A step of the client that reads, waits for the status or does anything but write.\<close>

definition client_other ::
  "('e, 'b, 'c) capy \<Rightarrow> ('b \<Rightarrow> byte list) \<Rightarrow> ('c \<Rightarrow> byte list)
    \<Rightarrow> ('e, 'b, 'c) stream_sys \<Rightarrow> ('e, 'b, 'c) stream_sys \<Rightarrow> bool" where
  "client_other K written rest s t \<longleftrightarrow>
     stream_step K written rest s t \<and> write_side (sys_stream t) = write_side (sys_stream s) \<and>
     write_history t = write_history s \<and> sys_received t = sys_received s \<and>
     st_read_eof (sys_stream t) = st_read_eof (sys_stream s)"

inductive exchange_step ::
  "('e, 'b, 'c) capy \<Rightarrow> 'w composed_write \<Rightarrow> ('b \<Rightarrow> byte list) \<Rightarrow> ('c \<Rightarrow> byte list) \<Rightarrow> 'b \<Rightarrow> request
    \<Rightarrow> ('e, 'b, 'c, 'w) exchange \<Rightarrow> ('e, 'b, 'c, 'w) exchange \<Rightarrow> bool"
  for K W written rest buf rq where
  client_writes:
    "body_own_step K W rest (xc_client x) c \<Longrightarrow> exchange_step K W written rest buf rq x (x\<lparr>xc_client := c\<rparr>)"
| client_reads:
    "client_other K written rest (client_sys x) t \<Longrightarrow>
     exchange_step K W written rest buf rq x (x\<lparr>xc_client := (xc_client x)\<lparr>bs_sys := t\<rparr>\<rparr>)"
| request_leaves:
    "producer_callback K len (client_stream x) = (res, eof, st') \<Longrightarrow>
     exchange_step K W written rest buf rq x
       (x\<lparr>xc_client := (xc_client x)\<lparr>
            bs_sys := (client_sys x)\<lparr>sys_stream := st', sys_pulled := sys_pulled (client_sys x) @ pulled_bytes res\<rparr>,
            bs_ended := (bs_ended (xc_client x) \<or> eof)\<rparr>,
          xc_request := xc_request x @ pulled_bytes res\<rparr>)"
| request_arrives:
    "xc_request x = d @ later \<Longrightarrow> \<not> st_read_eof (server_stream x) \<Longrightarrow>
     exchange_step K W written rest buf rq x
       (x\<lparr>xc_server := (xc_server x)\<lparr>
            es_sys := (server_stream_sys x)\<lparr>sys_stream := on_data K d (server_stream x),
                                     sys_received := sys_received (server_stream_sys x) @ d\<rparr>\<rparr>,
          xc_request := later\<rparr>)"
| request_ends:
    "xc_request x = [] \<Longrightarrow> bs_ended (xc_client x) \<Longrightarrow>
     exchange_step K W written rest buf rq x
       (x\<lparr>xc_server := (xc_server x)\<lparr>es_sys := (server_stream_sys x)\<lparr>sys_stream := on_read_eof K (server_stream x)\<rparr>\<rparr>\<rparr>)"
| server_echoes:
    "echo_own_step K W written rest buf rq (xc_server x) s \<Longrightarrow>
     exchange_step K W written rest buf rq x (x\<lparr>xc_server := s\<rparr>)"
| response_leaves:
    "producer_callback K len (server_stream x) = (res, eof, st') \<Longrightarrow>
     exchange_step K W written rest buf rq x
       (x\<lparr>xc_server := (xc_server x)\<lparr>
            es_sys := (server_stream_sys x)\<lparr>sys_stream := st', sys_pulled := sys_pulled (server_stream_sys x) @ pulled_bytes res\<rparr>,
            es_ended := (es_ended (xc_server x) \<or> eof)\<rparr>,
          xc_response := xc_response x @ pulled_bytes res\<rparr>)"
| response_arrives:
    "xc_response x = d @ later \<Longrightarrow> \<not> st_read_eof (client_stream x) \<Longrightarrow>
     exchange_step K W written rest buf rq x
       (x\<lparr>xc_client := (xc_client x)\<lparr>
            bs_sys := (client_sys x)\<lparr>sys_stream := on_data K d (client_stream x),
                                     sys_received := sys_received (client_sys x) @ d\<rparr>\<rparr>,
          xc_response := later\<rparr>)"
| response_ends:
    "xc_response x = [] \<Longrightarrow> es_ended (xc_server x) \<Longrightarrow>
     exchange_step K W written rest buf rq x
       (x\<lparr>xc_client := (xc_client x)\<lparr>bs_sys := (client_sys x)\<lparr>sys_stream := on_read_eof K (client_stream x)\<rparr>\<rparr>\<rparr>)"
| client_closes:
    "exchange_step K W written rest buf rq x
       (x\<lparr>xc_client := (xc_client x)\<lparr>bs_sys := (client_sys x)\<lparr>sys_stream := on_close K (client_stream x)\<rparr>\<rparr>\<rparr>)"
| server_closes:
    "exchange_step K W written rest buf rq x
       (x\<lparr>xc_server := (xc_server x)\<lparr>es_sys := (server_stream_sys x)\<lparr>sys_stream := on_close K (server_stream x)\<rparr>\<rparr>\<rparr>)"

text \<open>Both streams are new, the client has called \<open>write_eof(bufs)\<close> and the handler is about to start.\<close>

definition exchange_starts ::
  "('e, 'b, 'c) capy \<Rightarrow> 'w composed_write \<Rightarrow> ('w \<Rightarrow> write_view) \<Rightarrow> ('b \<Rightarrow> byte list) \<Rightarrow> ('b \<Rightarrow> nat)
    \<Rightarrow> ('c \<Rightarrow> byte list) \<Rightarrow> 'b \<Rightarrow> byte list list \<Rightarrow> ('e, 'b, 'c, 'w) exchange \<Rightarrow> bool" where
  "exchange_starts K W view written room rest buf bufs x \<longleftrightarrow>
     echo_ok K W view written room rest buf \<and>
     (\<exists>i p j q. x =
        \<lparr>xc_client = \<lparr>bs_sys = init_sys K i p, bs_pc = Body_write (cw_start W bufs), bs_base = [],
                      bs_data = concat bufs, bs_ended = False\<rparr>,
         xc_server = \<lparr>es_sys = init_sys K j q, es_pc = Echo_started, es_cause = None, es_ended = False\<rparr>,
         xc_request = [], xc_response = []\<rparr>)"

section \<open>The invariant\<close>

definition exchange_inv ::
  "('e, 'b, 'c) capy \<Rightarrow> 'w composed_write \<Rightarrow> ('w \<Rightarrow> write_view) \<Rightarrow> ('b \<Rightarrow> byte list) \<Rightarrow> ('b \<Rightarrow> nat)
    \<Rightarrow> ('c \<Rightarrow> byte list) \<Rightarrow> 'b \<Rightarrow> byte list list \<Rightarrow> ('e, 'b, 'c, 'w) exchange \<Rightarrow> bool" where
  "exchange_inv K W view written room rest buf bufs x \<longleftrightarrow>
     body_inv K W view written room rest (xc_client x) \<and>
     echo_full_inv K W view written room rest buf (xc_server x) \<and>
     bs_base (xc_client x) = [] \<and> bs_data (xc_client x) = concat bufs \<and>
     sys_pulled (client_sys x) = sys_received (server_stream_sys x) @ xc_request x \<and>
     sys_pulled (server_stream_sys x) = sys_received (client_sys x) @ xc_response x \<and>
     (st_read_eof (server_stream x) \<longrightarrow> bs_ended (xc_client x) \<and> xc_request x = []) \<and>
     (st_read_eof (client_stream x) \<longrightarrow> es_ended (xc_server x) \<and> xc_response x = [])"

text \<open>The own steps of either side move nothing on the wire.\<close>

lemma body_own_step_keeps:
  assumes "body_own_step K W rest c d"
  shows "sys_pulled (bs_sys d) = sys_pulled (bs_sys c) \<and> sys_received (bs_sys d) = sys_received (bs_sys c) \<and>
    st_read_eof (bs_stream d) = st_read_eof (bs_stream c) \<and> bs_base d = bs_base c \<and> bs_data d = bs_data c \<and>
    bs_ended d = bs_ended c"
  using assms
  by cases (auto simp: write_some_def write_eof_def write_impl_def write_impl_resume_def Let_def split: if_splits)

lemma echo_own_step_keeps:
  assumes "echo_own_step K W written rest buf rq x y"
  shows "sys_pulled (es_sys y) = sys_pulled (es_sys x) \<and> sys_received (es_sys y) = sys_received (es_sys x) \<and>
    st_read_eof (es_stream y) = st_read_eof (es_stream x) \<and> es_ended y = es_ended x"
  using assms
  by cases (auto simp: write_some_def write_eof_def write_impl_def write_impl_resume_def read_some_def
      read_some_resume_def read_park_def Let_def split: if_splits option.splits)

text \<open>After the end of a body nothing more is pulled.\<close>

lemma body_ended_pulls_nothing:
  assumes "body_inv K W view written room rest c" "bs_ended c" "producer_callback K len (bs_stream c) = (res, eof, st')"
  shows "pulled_bytes res = []"
  using producer_callback_eof(3) [OF assms(3)] assms(1,2) by (simp add: body_inv_def body_ending_def)

lemma echo_ended_pulls_nothing:
  assumes "echo_inv K W view written room rest buf x" "es_ended x" "producer_callback K len (es_stream x) = (res, eof, st')"
  shows "pulled_bytes res = []"
  using producer_callback_eof(3) [OF assms(3)] assms(1,2) by (simp add: echo_inv_def echo_ending_def)

lemma exchange_client:
  assumes "exchange_inv K W view written room rest buf bufs x" "body_step K W written rest (xc_client x) c"
  shows "body_inv K W view written room rest c"
  using assms body_step_inv by (auto simp: exchange_inv_def)

lemma exchange_server:
  assumes "exchange_inv K W view written room rest buf bufs x" "echo_step K W written rest buf rq (xc_server x) s"
  shows "echo_full_inv K W view written room rest buf s"
  using assms echo_full_step by (auto simp: exchange_inv_def)

lemma body_env_data:
  "body_env K written rest s False (s\<lparr>sys_stream := on_data K d (sys_stream s), sys_received := sys_received s @ d\<rparr>)"
  by (rule env_other [OF step_data]) (simp_all add: write_history_def)

lemma body_env_read_eof: "body_env K written rest s False (s\<lparr>sys_stream := on_read_eof K (sys_stream s)\<rparr>)"
  by (rule env_other [OF step_read_eof]) (simp_all add: on_read_eof_def write_side_def write_history_def)

lemma exchange_step_inv:
  assumes "exchange_step K W written rest buf rq x y" "exchange_inv K W view written room rest buf bufs x"
  shows "exchange_inv K W view written room rest buf bufs y"
  using assms
proof (induction rule: exchange_step.induct)
  case (client_writes x c)
  note inv = exchange_client [OF client_writes(2) body_own [OF client_writes(1)]]
  from inv client_writes(2) body_own_step_keeps [OF client_writes(1)] show ?case by (simp add: exchange_inv_def)
next
  case (client_reads x t)
  then have "body_env K written rest (client_sys x) False t" by (auto simp: client_other_def intro: env_other)
  from exchange_client [OF client_reads(2) body_other [OF this]] client_reads show ?case
    by (simp add: exchange_inv_def client_other_def write_history_def)
next
  case (request_leaves len x res eof st')
  note inv = exchange_client [OF request_leaves(2) body_other [OF env_pull [OF request_leaves(1)]]]
  have "st_read_eof st' = st_read_eof (client_stream x)"
    using producer_callback_read_side [OF request_leaves(1)] by (simp add: read_side_def)
  moreover have "pulled_bytes res = []" if "bs_ended (xc_client x)"
    by (rule body_ended_pulls_nothing [OF _ that request_leaves(1)])
      (use request_leaves(2) in \<open>auto simp: exchange_inv_def\<close>)
  ultimately show ?case using inv request_leaves(2) by (auto simp: exchange_inv_def)
next
  case (request_arrives x d later)
  note inv = exchange_server [OF request_arrives(3) echo_peer [OF peer_data [OF request_arrives(2)]]]
  from inv [of d] request_arrives show ?case by (auto simp: exchange_inv_def)
next
  case (request_ends x)
  note inv = exchange_server [OF request_ends(3) echo_peer [OF peer_eof]]
  from inv request_ends show ?case by (auto simp: exchange_inv_def on_read_eof_def)
next
  case (server_echoes x s)
  note inv = exchange_server [OF server_echoes(2) echo_own [OF server_echoes(1)]]
  from inv server_echoes(2) echo_own_step_keeps [OF server_echoes(1)] show ?case by (simp add: exchange_inv_def)
next
  case (response_leaves len x res eof st')
  note inv = exchange_server [OF response_leaves(2) echo_peer [OF peer_pull [OF response_leaves(1)]]]
  have "st_read_eof st' = st_read_eof (server_stream x)"
    using producer_callback_read_side [OF response_leaves(1)] by (simp add: read_side_def)
  moreover have "pulled_bytes res = []" if "es_ended (xc_server x)"
    by (rule echo_ended_pulls_nothing [OF _ that response_leaves(1)])
      (use response_leaves(2) in \<open>auto simp: exchange_inv_def echo_full_inv_def\<close>)
  ultimately show ?case using inv response_leaves(2) by (auto simp: exchange_inv_def)
next
  case (response_arrives x d later)
  note inv = exchange_client [OF response_arrives(3) body_other [OF body_env_data]]
  from inv [of d] response_arrives show ?case by (auto simp: exchange_inv_def)
next
  case (response_ends x)
  note inv = exchange_client [OF response_ends(3) body_other [OF body_env_read_eof]]
  from inv response_ends show ?case by (auto simp: exchange_inv_def on_read_eof_def)
next
  case (client_closes x)
  note inv = exchange_client [OF client_closes body_other [OF env_close]]
  from inv client_closes show ?case by (auto simp: exchange_inv_def on_close_def)
next
  case (server_closes x)
  note inv = exchange_server [OF server_closes echo_peer [OF peer_close]]
  from inv server_closes show ?case by (auto simp: exchange_inv_def on_close_def)
qed

lemma exchange_starts_inv:
  assumes "exchange_starts K W view written room rest buf bufs x"
  shows "exchange_inv K W view written room rest buf bufs x"
proof -
  have ok: "echo_ok K W view written room rest buf" using assms by (simp add: exchange_starts_def)
  then have new: "reachable (starts K written room rest) (stream_step K written rest) (init_sys K i p)" for i p
    by (intro reachable_init) (auto simp: starts_def echo_ok_def)
  from assms have "body_starts K W view written room rest bufs (xc_client x)"
    "echo_starts K W view written room rest buf (xc_server x)"
    using ok new by (auto simp: exchange_starts_def body_starts_def echo_starts_def echo_ok_def init_sys_def new_stream_def)
  from body_starts_inv [OF this(1)] echo_starts_inv [OF this(2)] assms show ?thesis
    by (auto simp: exchange_inv_def echo_full_inv_def exchange_starts_def echo_reason_def in_loop_def
        init_sys_def new_stream_def)
qed

interpretation exchange_reach: step_invariant "exchange_starts K W view written room rest buf bufs"
  "exchange_step K W written rest buf rq" "exchange_inv K W view written room rest buf bufs"
  for K :: "('e, 'b, 'c) capy" and W :: "'w composed_write" and view written room rest buf bufs rq
  by unfold_locales (auto intro: exchange_starts_inv exchange_step_inv)

section \<open>A run\<close>

type_synonym demo_exchange = "(bool, byte list \<times> nat, nat \<times> byte list, write_view) exchange"

datatype exchange_move =
    Client_writes
  | Client_reads nat
  | Request_leaves nat
  | Request_arrives nat
  | Request_ends
  | Server_echoes
  | Response_leaves nat
  | Response_arrives nat
  | Response_ends

text \<open>A move that is not possible leaves the exchange as it is.\<close>

fun exchange_event :: "exchange_move \<Rightarrow> demo_exchange \<Rightarrow> demo_exchange" where
  "exchange_event Client_writes x =
     (case body_next flat_capy plain_write snd (xc_client x) of None \<Rightarrow> x | Some c \<Rightarrow> x\<lparr>xc_client := c\<rparr>)"
| "exchange_event (Client_reads n) x =
     (if st_read_sink (client_stream x) \<noteq> None then x
      else
        (case read_some flat_capy ([], n) (client_stream x) of
           None \<Rightarrow> x
         | Some (out, st', effs) \<Rightarrow>
             x\<lparr>xc_client := (xc_client x)\<lparr>
                 bs_sys := (client_sys x)\<lparr>sys_stream := st',
                   sys_delivered := sys_delivered (client_sys x) @ returned fst out,
                   sys_consumed := sys_consumed (client_sys x) + credited effs\<rparr>\<rparr>\<rparr>))"
| "exchange_event (Request_leaves n) x =
     (case producer_callback flat_capy n (client_stream x) of
        (res, eof, st') \<Rightarrow>
          x\<lparr>xc_client := (xc_client x)\<lparr>
              bs_sys := (client_sys x)\<lparr>sys_stream := st', sys_pulled := sys_pulled (client_sys x) @ pulled_bytes res\<rparr>,
              bs_ended := (bs_ended (xc_client x) \<or> eof)\<rparr>,
            xc_request := xc_request x @ pulled_bytes res\<rparr>)"
| "exchange_event (Request_arrives n) x =
     (if st_read_eof (server_stream x) then x
      else
        (let d = take n (xc_request x) in
         x\<lparr>xc_server := (xc_server x)\<lparr>
             es_sys := (server_stream_sys x)\<lparr>sys_stream := on_data flat_capy d (server_stream x),
                                      sys_received := sys_received (server_stream_sys x) @ d\<rparr>\<rparr>,
           xc_request := drop n (xc_request x)\<rparr>))"
| "exchange_event Request_ends x =
     (if xc_request x = [] \<and> bs_ended (xc_client x)
      then x\<lparr>xc_server := (xc_server x)\<lparr>es_sys := (server_stream_sys x)\<lparr>sys_stream := on_read_eof flat_capy (server_stream x)\<rparr>\<rparr>\<rparr>
      else x)"
| "exchange_event Server_echoes x =
     (case echo_next flat_capy plain_write fst snd ([], echo_buffer_size) demo_request (xc_server x) of
        None \<Rightarrow> x | Some s \<Rightarrow> x\<lparr>xc_server := s\<rparr>)"
| "exchange_event (Response_leaves n) x =
     (case producer_callback flat_capy n (server_stream x) of
        (res, eof, st') \<Rightarrow>
          x\<lparr>xc_server := (xc_server x)\<lparr>
              es_sys := (server_stream_sys x)\<lparr>sys_stream := st', sys_pulled := sys_pulled (server_stream_sys x) @ pulled_bytes res\<rparr>,
              es_ended := (es_ended (xc_server x) \<or> eof)\<rparr>,
            xc_response := xc_response x @ pulled_bytes res\<rparr>)"
| "exchange_event (Response_arrives n) x =
     (if st_read_eof (client_stream x) then x
      else
        (let d = take n (xc_response x) in
         x\<lparr>xc_client := (xc_client x)\<lparr>
             bs_sys := (client_sys x)\<lparr>sys_stream := on_data flat_capy d (client_stream x),
                                      sys_received := sys_received (client_sys x) @ d\<rparr>\<rparr>,
           xc_response := drop n (xc_response x)\<rparr>))"
| "exchange_event Response_ends x =
     (if xc_response x = [] \<and> es_ended (xc_server x)
      then x\<lparr>xc_client := (xc_client x)\<lparr>bs_sys := (client_sys x)\<lparr>sys_stream := on_read_eof flat_capy (client_stream x)\<rparr>\<rparr>\<rparr>
      else x)"

abbreviation demo_exchange_step :: "demo_exchange \<Rightarrow> demo_exchange \<Rightarrow> bool" where
  "demo_exchange_step \<equiv> exchange_step flat_capy plain_write fst snd ([], echo_buffer_size) demo_request"

lemma read_some_client_other:
  assumes "read_some K bp (sys_stream s) = Some (out, st', effs)" "st_read_sink (sys_stream s) = None" "written bp = []"
  shows "client_other K written rest s
    (s\<lparr>sys_stream := st', sys_delivered := sys_delivered s @ returned written out,
       sys_consumed := sys_consumed s + credited effs\<rparr>)"
proof -
  have "st_read_eof st' = st_read_eof (sys_stream s)"
    using assms(1) by (auto simp: read_some_def read_park_def Let_def split: option.splits if_splits)
  with step_read [of s written bp K out st' effs rest] assms read_some_write_side [OF assms(1)] show ?thesis
    by (simp add: client_other_def write_history_def)
qed

lemma exchange_event_step: "exchange_event ev x = x \<or> demo_exchange_step x (exchange_event ev x)"
proof (cases ev)
  case Client_writes
  then show ?thesis by (auto split: option.split intro: client_writes body_next_step)
next
  case (Client_reads n)
  then show ?thesis by (auto split: option.split intro!: client_reads read_some_client_other)
next
  case (Request_leaves n)
  then show ?thesis by (auto split: prod.split intro: request_leaves)
next
  case (Request_arrives n)
  then show ?thesis
    by (cases "st_read_eof (server_stream x)") (simp, auto simp: Let_def intro!: request_arrives)
next
  case Request_ends
  then show ?thesis by (auto intro: request_ends)
next
  case Server_echoes
  then show ?thesis by (auto split: option.split intro: server_echoes echo_next_step)
next
  case (Response_leaves n)
  then show ?thesis by (auto split: prod.split intro: response_leaves)
next
  case (Response_arrives n)
  then show ?thesis
    by (cases "st_read_eof (client_stream x)") (simp, auto simp: Let_def intro!: response_arrives)
next
  case Response_ends
  then show ?thesis by (auto intro: response_ends)
qed

definition exchange_init :: "byte list list \<Rightarrow> demo_exchange" where
  "exchange_init bufs =
     \<lparr>xc_client = \<lparr>bs_sys = init_sys flat_capy 1 [], bs_pc = Body_write (cw_start plain_write bufs), bs_base = [],
                   bs_data = concat bufs, bs_ended = False\<rparr>,
      xc_server = \<lparr>es_sys = init_sys flat_capy 1 [], es_pc = Echo_started, es_cause = None, es_ended = False\<rparr>,
      xc_request = [], xc_response = []\<rparr>"

definition exchange_run :: "byte list list \<Rightarrow> exchange_move list \<Rightarrow> demo_exchange" where
  "exchange_run bufs evs = foldl (\<lambda>x ev. exchange_event ev x) (exchange_init bufs) evs"

abbreviation demo_exchange_reach :: "byte list list \<Rightarrow> demo_exchange \<Rightarrow> bool" where
  "demo_exchange_reach bufs \<equiv>
     reachable (exchange_starts flat_capy plain_write (\<lambda>w. w) fst snd snd ([], echo_buffer_size) bufs) demo_exchange_step"

lemma exchange_run_reach: "demo_exchange_reach bufs (exchange_run bufs evs)"
proof -
  have "demo_exchange_reach bufs (exchange_init bufs)"
    by (rule reachable_init) (auto simp: exchange_starts_def echo_ok_demo exchange_init_def)
  then have "demo_exchange_reach bufs (foldl (\<lambda>x ev. exchange_event ev x) (exchange_init bufs) evs)"
  proof (induction evs rule: rev_induct)
    case (snoc ev evs)
    let ?x = "foldl (\<lambda>x ev. exchange_event ev x) (exchange_init bufs) evs"
    have x: "demo_exchange_reach bufs ?x" using snoc by simp
    from exchange_event_step [of ev ?x] have "demo_exchange_reach bufs (exchange_event ev ?x)"
    proof
      assume "exchange_event ev ?x = ?x"
      with x show ?thesis by simp
    next
      assume "demo_exchange_step ?x (exchange_event ev ?x)"
      with x show ?thesis by (rule reachable_step)
    qed
    then show ?case by simp
  qed simp
  then show ?thesis by (simp add: exchange_run_def)
qed

definition demo_sends :: "exchange_move list" where
  "demo_sends = [Client_writes, Request_leaves 9, Client_writes, Client_writes, Client_writes, Request_leaves 9,
     Client_writes, Request_arrives 1, Request_arrives 1, Request_ends]"

definition demo_replies :: "exchange_move list" where
  "demo_replies = [Server_echoes, Server_echoes, Server_echoes, Response_leaves 9, Server_echoes, Server_echoes,
     Server_echoes, Server_echoes, Server_echoes, Response_leaves 9, Server_echoes]"

definition demo_receives :: "exchange_move list" where
  "demo_receives = [Response_arrives 1, Client_reads 4, Response_arrives 1, Client_reads 4, Response_ends]"

definition demo_whole :: demo_exchange where
  "demo_whole = exchange_run [[7], [8]] (demo_sends @ demo_replies @ demo_receives)"

lemmas exchange_run_defs = exchange_run_def exchange_init_def body_run_defs echo_run_defs

lemma demo_whole_state:
  "st_read_sink (client_stream demo_whole) = None" "es_cause (xc_server demo_whole) = Some (Inl Error_eof)"
  "read_some flat_capy ([], 4) (client_stream demo_whole) =
     Some (Read_done (Some Error_eof, 0) ([], 4), client_stream demo_whole, [])"
  unfolding demo_whole_def demo_sends_def demo_replies_def demo_receives_def
  by (simp_all add: exchange_run_defs)

section \<open>Properties\<close>

lemma body_pulled:
  assumes "body_inv K W view written room rest c"
  shows "\<exists>later. bs_base c @ bs_data c = sys_pulled (bs_sys c) @ later"
proof (cases "sys_writing (bs_sys c)")
  case False
  with assms have "sys_pulled (bs_sys c) = sys_reported (bs_sys c)"
    by (simp add: body_inv_def sys_inv_def write_inv_def Let_def)
  moreover have "\<exists>n. sys_reported (bs_sys c) = bs_base c @ take n (bs_data c)"
    using body_invD(5) [OF assms]
    by (auto simp: body_balance_def Let_def split: body_pc.splits intro: exI [of _ "length (bs_data c)"])
  ultimately show ?thesis by (metis append.assoc append_take_drop_id)
next
  case True
  let ?s = "bs_sys c"
  note I = body_invD [OF assms]
  from True I(3) have p: "sys_pulled ?s = sys_reported ?s @ take (st_write_offset (sys_stream ?s)) (sys_write_data ?s)"
    by (simp add: sys_inv_def write_inv_def Let_def)
  from True I(4) consider (w) w where "bs_pc c = Body_writing w" | (f) n where "bs_pc c = Body_finishing n"
    by (auto simp: body_control_def)
  then have "\<exists>n later. sys_reported ?s = bs_base c @ take n (bs_data c) \<and> drop n (bs_data c) = sys_write_data ?s @ later"
  proof cases
    case w
    with I(5) show ?thesis by (auto simp: body_balance_def Let_def) (metis append_take_drop_id)
  next
    case f
    with I(5) show ?thesis
      by (intro exI [of _ "length (bs_data c)"]) (auto simp: body_balance_def Let_def)
  qed
  then show ?thesis by (metis p append.assoc append_take_drop_id)
qed

text \<open>
  C7. A client never reads anything but its own body back: whatever sizes the pieces have in which
  nghttp2 on both sides takes and delivers the bodies, and whenever a stream is closed or a coroutine
  is cancelled, the bytes that completed reads of the client have returned are the first bytes of
  the body it is sending.
\<close>

theorem exchange_reads_own_body:
  assumes "reachable (exchange_starts K W view written room rest buf bufs) (exchange_step K W written rest buf rq) x"
  shows "\<exists>later. concat bufs = sys_delivered (client_sys x) @ later"
proof -
  note inv = exchange_reach.inv_reachable [OF assms]
  have c: "body_inv K W view written room rest (xc_client x)" "bs_base (xc_client x) = []"
      "bs_data (xc_client x) = concat bufs"
    and s: "echo_inv K W view written room rest buf (xc_server x)"
    and wire: "sys_pulled (client_sys x) = sys_received (server_stream_sys x) @ xc_request x"
      "sys_pulled (server_stream_sys x) = sys_received (client_sys x) @ xc_response x"
    using inv by (simp_all add: exchange_inv_def echo_full_inv_def)
  have "\<exists>l. sys_received (client_sys x) = sys_delivered (client_sys x) @ l"
    using body_invD(3) [OF c(1)] by (auto simp: sys_inv_def read_sys_inv_def)
  moreover have "\<exists>l. sys_received (server_stream_sys x) = sys_pulled (server_stream_sys x) @ l"
    using echo_pulled [OF s] echo_invD(5) [OF s] by (auto simp: sys_inv_def read_sys_inv_def)
  moreover have "\<exists>l. concat bufs = sys_pulled (client_sys x) @ l"
    using body_pulled [OF c(1)] c(2,3) by simp
  ultimately show ?thesis using wire by (metis append.assoc)
qed

theorem exchange_reads_own_body_witness: "\<exists>later. [7, 8] = sys_delivered (client_sys demo_whole) @ later"
  using exchange_reads_own_body [OF exchange_run_reach, of "[[7], [8]]" "demo_sends @ demo_replies @ demo_receives"]
  by (simp add: demo_whole_def)

text \<open>When the response has ended and the handler was not cancelled, the response is the body.\<close>

lemma exchange_ended_whole:
  assumes "exchange_inv K W view written room rest buf bufs x" "es_ended (xc_server x)"
    and "es_cause (xc_server x) \<noteq> Some (Inl Error_canceled)" "es_cause (xc_server x) \<noteq> Some (Inr Error_canceled)"
  shows "sys_pulled (server_stream_sys x) = concat bufs" "sys_received (server_stream_sys x) = concat bufs"
proof -
  have c: "body_inv K W view written room rest (xc_client x)" "bs_base (xc_client x) = []"
      "bs_data (xc_client x) = concat bufs"
    and s: "echo_inv K W view written room rest buf (xc_server x)" "echo_reason view (xc_server x)"
    and wire: "sys_pulled (client_sys x) = sys_received (server_stream_sys x) @ xc_request x"
      "st_read_eof (server_stream x) \<Longrightarrow> bs_ended (xc_client x) \<and> xc_request x = []"
    using assms(1) by (simp_all add: exchange_inv_def echo_full_inv_def)
  note J = echo_invD [OF s(1)]
  from s(2) assms(2-4) have "es_cause (xc_server x) = Some (Inl Error_eof)"
    by (auto simp: echo_reason_def orderly_def)
  with s(1) have srv: "st_read_eof (server_stream x)" "sys_received (server_stream_sys x) = sys_reported (server_stream_sys x)"
    by (auto simp: echo_inv_def echo_cause_def)
  have "sys_pulled (server_stream_sys x) = sys_reported (server_stream_sys x)"
    using J(5,6) assms(2) by (cases "sys_writing (server_stream_sys x)")
      (auto simp: echo_frame_defs sys_inv_def write_inv_def)
  moreover have "sys_pulled (client_sys x) = concat bufs"
    using body_ended_pulled [OF c(1)] wire(2) [OF srv(1)] c(2,3) by simp
  ultimately show "sys_pulled (server_stream_sys x) = concat bufs" "sys_received (server_stream_sys x) = concat bufs"
    using wire(1) wire(2) [OF srv(1)] srv(2) by simp_all
qed

text \<open>
  The next step of a reader reports the clean end of the body, with a buffer that has room: it calls
  \<open>read_some\<close> and is answered at once, or it waits in a \<open>read_some\<close> and is resumed.
\<close>

definition reports_end :: "('e, 'b, 'c) capy \<Rightarrow> ('b \<Rightarrow> nat) \<Rightarrow> ('e, 'b, 'c) stream \<Rightarrow> bool" where
  "reports_end K room st \<longleftrightarrow>
     (\<exists>n bp' st' effs.
        (st_read_sink st = None \<and>
         (\<exists>bp. 0 < room bp \<and> read_some K bp st = Some (Read_done (Some Error_eof, n) bp', st', effs))) \<or>
        (\<exists>sink e. st_read_sink st = Some sink \<and> 0 < room (sink_bp sink) + sink_copied sink \<and>
           wait_ends K e (st_read_ready st) \<and>
           read_some_resume K e sink st = (Read_done (Some Error_eof, n) bp', st', effs)))"

text \<open>Then the body has ended and every byte of it has been read.\<close>

lemma read_some_reports_end:
  assumes "sys_inv K written room rest s" "st_read_sink (sys_stream s) = None" "0 < room bp"
    and rd: "read_some K bp (sys_stream s) = Some (Read_done (Some Error_eof, n) bp', st', effs)"
  shows "st_read_eof (sys_stream s) \<and> sys_received s = sys_delivered s"
proof -
  let ?st = "sys_stream s"
  let ?q = "buffered (st_chunks ?st) (st_front_offset ?st)"
  have ok: "sink_ok K written room" using assms(1) by (simp add: sys_inv_def library_ok_def)
  have wf: "chunks_wf (st_chunks ?st) (st_front_offset ?st)" and rec: "sys_received s = sys_delivered s @ ?q"
    using assms(1,2) by (simp_all add: sys_inv_def read_sys_inv_def read_inv_def unread_def in_flight_def)
  have none: "?q = []"
  proof (rule ccontr)
    assume "?q \<noteq> []"
    with assms(3) have "0 < min (room bp) (length ?q)" by simp
    from read_some_data [OF ok wf refl this] rd show False by auto
  qed
  then show ?thesis using read_some_no_data [OF ok wf, of bp] rd rec by (auto simp: eof_error_def split: if_splits)
qed

lemma reports_end_read:
  assumes inv: "sys_inv K written room rest s" and "reports_end K room (sys_stream s)"
  shows "st_read_eof (sys_stream s) \<and> sys_received s = sys_delivered s"
  using assms(2) unfolding reports_end_def
proof (elim exE disjE conjE)
  fix n bp' st' effs sink e
  assume sink: "st_read_sink (sys_stream s) = Some sink" "0 < room (sink_bp sink) + sink_copied sink"
    and wait: "wait_ends K e (st_read_ready (sys_stream s))"
    and rd: "read_some_resume K e sink (sys_stream s) = (Read_done (Some Error_eof, n) bp', st', effs)"
  have "e = None \<or> e = Some Error_canceled" using wait by (simp add: wait_ends_def)
  with inv sink(1) refl sink(2) show ?thesis using rd
    by (cases rule: read_resume_cases) (auto simp: eof_error_def split: if_splits)
qed (use read_some_reports_end [OF inv] in blast)

text \<open>
  C6. The echo comes back whole: when a read of the client reports the clean end of the response, be it
  at once or after a wait, and the handler on the server was not cancelled, the client has read
  exactly the body it sent, all of which had reached the server. No stream need still be open, and
  the write of the client need not have returned. A handler that was cancelled still calls
  \<open>write_eof\<close>, and the client then sees a clean end after a part of the echo.
\<close>

theorem exchange_echo_is_whole:
  assumes "reachable (exchange_starts K W view written room rest buf bufs) (exchange_step K W written rest buf rq) x"
    and "reports_end K room (client_stream x)"
    and "es_cause (xc_server x) \<noteq> Some (Inl Error_canceled)" "es_cause (xc_server x) \<noteq> Some (Inr Error_canceled)"
  shows "sys_delivered (client_sys x) = concat bufs \<and> sys_received (server_stream_sys x) = concat bufs"
proof -
  note inv = exchange_reach.inv_reachable [OF assms(1)]
  have c: "body_inv K W view written room rest (xc_client x)"
    and wire: "sys_pulled (server_stream_sys x) = sys_received (client_sys x) @ xc_response x"
      "st_read_eof (client_stream x) \<Longrightarrow> es_ended (xc_server x) \<and> xc_response x = []"
    using inv by (simp_all add: exchange_inv_def)
  from reports_end_read [OF body_invD(3) [OF c] assms(2)] wire(2) have
    "es_ended (xc_server x)" "xc_response x = []" "sys_received (client_sys x) = sys_delivered (client_sys x)" by blast+
  with exchange_ended_whole [OF inv] assms(3,4) wire(1) show ?thesis by simp
qed

theorem exchange_echo_is_whole_witness: "sys_delivered (client_sys demo_whole) = [7, 8]"
proof -
  have reach: "demo_exchange_reach [[7], [8]] demo_whole" unfolding demo_whole_def by (rule exchange_run_reach)
  have "0 < snd ([] :: byte list, 4 :: nat)" by simp
  with demo_whole_state(1,3) have "reports_end flat_capy snd (client_stream demo_whole)"
    unfolding reports_end_def by blast
  from exchange_echo_is_whole [OF reach this] demo_whole_state(2) show ?thesis by simp
qed

end
