(* ===== verification/Echo_Flow.thy ===== *)
theory Echo_Flow
  imports Echo_Exchange
begin

text \<open>
  The exchange of theory \<open>Echo_Exchange\<close> with what the streams ask of their sessions. There nghttp2 may
  pull and deliver at any moment; here it is bound by flow control, by data providers that are
  deferred until \<open>nghttp2_session_resume_data\<close> is called, and by send loops that sleep until
  \<open>start_write\<close> is called. The effects of \<open>write_some\<close>, \<open>write_eof\<close> and \<open>read_some\<close> are carried out, so an
  effect that is missing in the code is missing here.

  The first result is the backpressure the program is built on: a client that does not read the
  response can send no more than two windows and one buffer of the handler.
\<close>

section \<open>One side's session\<close>

text \<open>
  What matters of a session to one stream: whether its data provider is deferred, whether
  \<open>write_ready_\<close> is set or the send loop is running, how much the peer lets it send, and how much it
  has consumed and not yet announced with a WINDOW_UPDATE frame.
\<close>

record ng_side =
  ng_deferred :: bool
  ng_awake :: bool
  ng_window :: nat
  ng_credit :: nat

definition new_side :: "nat \<Rightarrow> ng_side" where
  "new_side win = \<lparr>ng_deferred = False, ng_awake = True, ng_window = win, ng_credit = 0\<rparr>"

definition woken :: "ng_side \<Rightarrow> ng_side" where
  "woken v = v\<lparr>ng_awake := True\<rparr>"

fun ng_effect :: "stream_effect \<Rightarrow> ng_side \<Rightarrow> ng_side" where
  "ng_effect (Consume_stream sid n) v = v\<lparr>ng_credit := ng_credit v + n\<rparr>"
| "ng_effect (Resume_data sid) v = v\<lparr>ng_deferred := False\<rparr>"
| "ng_effect Start_write v = woken v"

definition ng_effects :: "stream_effect list \<Rightarrow> ng_side \<Rightarrow> ng_side" where
  "ng_effects effs v = foldl (\<lambda>v e. ng_effect e v) v effs"

text \<open>
  The data provider is asked by a send loop that is awake, when it is not deferred and there is room in
  the window; a window is announced when half of it has been consumed. The loop goes to sleep when
  there is nothing to send: no data of an offered body and no window to announce. The window of the
  whole connection, which \<open>on_data_chunk_recv_callback\<close> gives back at once, is left out.
\<close>

definition may_pull :: "nat \<Rightarrow> ng_side \<Rightarrow> bool" where
  "may_pull len v \<longleftrightarrow> ng_awake v \<and> \<not> ng_deferred v \<and> 0 < len \<and> len \<le> ng_window v"

definition after_pull :: "producer_result \<Rightarrow> ng_side \<Rightarrow> ng_side" where
  "after_pull res v =
     (case res of
        Deferred \<Rightarrow> v\<lparr>ng_deferred := True\<rparr>
      | Copied bs \<Rightarrow> v\<lparr>ng_window := ng_window v - length bs\<rparr>)"

definition to_announce :: "nat \<Rightarrow> ng_side \<Rightarrow> bool" where
  "to_announce win v \<longleftrightarrow> 0 < ng_credit v \<and> win div 2 \<le> ng_credit v"

definition may_announce :: "nat \<Rightarrow> ng_side \<Rightarrow> bool" where
  "may_announce win v \<longleftrightarrow> ng_awake v \<and> to_announce win v"

definition may_sleep :: "nat \<Rightarrow> bool \<Rightarrow> ng_side \<Rightarrow> bool" where
  "may_sleep win offered v \<longleftrightarrow>
     (\<not> offered \<or> ng_deferred v \<or> ng_window v = 0) \<and> \<not> to_announce win v"

section \<open>What the coroutines ask for\<close>

text \<open>The effects of the call a coroutine makes in its next step.\<close>

definition body_asks :: "('e, 'b, 'c) capy \<Rightarrow> 'w composed_write \<Rightarrow> ('e, 'b, 'c, 'w) body_sys \<Rightarrow> stream_effect list" where
  "body_asks K W c =
     (case bs_pc c of
        Body_write w \<Rightarrow>
          (case cw_next W w of
             Call_write_some bufs \<Rightarrow> snd (snd (write_some K bufs (bs_stream c)))
           | Write_returns r \<Rightarrow> [])
      | Body_eof n \<Rightarrow> snd (snd (write_eof K [] (bs_stream c)))
      | _ \<Rightarrow> [])"

definition echo_asks :: "('e, 'b, 'c) capy \<Rightarrow> 'w composed_write \<Rightarrow> 'b \<Rightarrow> ('e, 'b, 'c, 'w) echo_sys \<Rightarrow> stream_effect list" where
  "echo_asks K W buf s =
     (case es_pc s of
        Echo_read submitted \<Rightarrow>
          (case read_some K buf (es_stream s) of None \<Rightarrow> [] | Some (out, st', effs) \<Rightarrow> effs)
      | Echo_reading submitted \<Rightarrow>
          (case st_read_sink (es_stream s) of
             None \<Rightarrow> []
           | Some sink \<Rightarrow> snd (snd (read_some_resume K None sink (es_stream s))))
      | Echo_write w \<Rightarrow>
          (case cw_next W w of
             Call_write_some bufs \<Rightarrow> snd (snd (write_some K bufs (es_stream s)))
           | Write_returns r \<Rightarrow> [])
      | Echo_finish \<Rightarrow> snd (snd (write_eof K [] (es_stream s)))
      | _ \<Rightarrow> [])"

text \<open>The response has been submitted, so nghttp2 has its data provider.\<close>

fun response_submitted :: "'w echo_pc \<Rightarrow> bool" where
  "response_submitted Echo_started \<longleftrightarrow> False"
| "response_submitted (Echo_read submitted) \<longleftrightarrow> submitted"
| "response_submitted (Echo_reading submitted) \<longleftrightarrow> submitted"
| "response_submitted (Echo_left submitted) \<longleftrightarrow> submitted"
| "response_submitted (Echo_done e) \<longleftrightarrow> e = None"
| "response_submitted _ \<longleftrightarrow> True"

section \<open>The system\<close>

record ('e, 'b, 'c, 'w) metered =
  mt_exchange :: "('e, 'b, 'c, 'w) exchange"
  mt_client :: ng_side
  mt_server :: ng_side

abbreviation mt_body :: "('e, 'b, 'c, 'w) metered \<Rightarrow> ('e, 'b, 'c, 'w) body_sys" where
  "mt_body x \<equiv> xc_client (mt_exchange x)"

abbreviation mt_echo :: "('e, 'b, 'c, 'w) metered \<Rightarrow> ('e, 'b, 'c, 'w) echo_sys" where
  "mt_echo x \<equiv> xc_server (mt_exchange x)"

definition put_body :: "('e, 'b, 'c, 'w) body_sys \<Rightarrow> ('e, 'b, 'c, 'w) metered \<Rightarrow> ('e, 'b, 'c, 'w) metered" where
  "put_body c x = x\<lparr>mt_exchange := (mt_exchange x)\<lparr>xc_client := c\<rparr>\<rparr>"

definition put_echo :: "('e, 'b, 'c, 'w) echo_sys \<Rightarrow> ('e, 'b, 'c, 'w) metered \<Rightarrow> ('e, 'b, 'c, 'w) metered" where
  "put_echo s x = x\<lparr>mt_exchange := (mt_exchange x)\<lparr>xc_server := s\<rparr>\<rparr>"

text \<open>A read of the client, or a resumption of one, with its result.\<close>

definition body_read ::
  "('b \<Rightarrow> byte list) \<Rightarrow> 'b read_outcome \<Rightarrow> ('e, 'b, 'c) stream \<Rightarrow> stream_effect list
    \<Rightarrow> ('e, 'b, 'c, 'w) body_sys \<Rightarrow> ('e, 'b, 'c, 'w) body_sys" where
  "body_read written out st effs c =
     c\<lparr>bs_sys := (bs_sys c)\<lparr>sys_stream := st, sys_delivered := sys_delivered (bs_sys c) @ returned written out,
         sys_consumed := sys_consumed (bs_sys c) + credited effs\<rparr>\<rparr>"

inductive metered_step ::
  "('e, 'b, 'c) capy \<Rightarrow> 'w composed_write \<Rightarrow> ('b \<Rightarrow> byte list) \<Rightarrow> ('c \<Rightarrow> byte list) \<Rightarrow> 'b \<Rightarrow> request \<Rightarrow> nat
    \<Rightarrow> ('e, 'b, 'c, 'w) metered \<Rightarrow> ('e, 'b, 'c, 'w) metered \<Rightarrow> bool"
  for K W written rest buf rq win where
  metered_client_writes:
    "body_own_step K W rest (mt_body x) c \<Longrightarrow>
     metered_step K W written rest buf rq win x
       ((put_body c x)\<lparr>mt_client := ng_effects (body_asks K W (mt_body x)) (mt_client x)\<rparr>)"
| metered_client_reads:
    "st_read_sink (bs_stream (mt_body x)) = None \<Longrightarrow> written bp = [] \<Longrightarrow>
     read_some K bp (bs_stream (mt_body x)) = Some (out, st', effs) \<Longrightarrow>
     metered_step K W written rest buf rq win x
       ((put_body (body_read written out st' effs (mt_body x)) x)\<lparr>mt_client := ng_effects effs (mt_client x)\<rparr>)"
| metered_client_read_wakes:
    "st_read_sink (bs_stream (mt_body x)) = Some sink \<Longrightarrow>
     may_resume K e (st_read_ready (bs_stream (mt_body x))) \<Longrightarrow>
     read_some_resume K e sink (bs_stream (mt_body x)) = (out, st', effs) \<Longrightarrow>
     metered_step K W written rest buf rq win x
       ((put_body (body_read written out st' effs (mt_body x)) x)\<lparr>mt_client := ng_effects effs (mt_client x)\<rparr>)"
| metered_client_other:
    "client_other K written rest (bs_sys (mt_body x)) t \<Longrightarrow> sys_delivered t = sys_delivered (bs_sys (mt_body x)) \<Longrightarrow>
     sys_consumed t = sys_consumed (bs_sys (mt_body x)) \<Longrightarrow>
     metered_step K W written rest buf rq win x (put_body ((mt_body x)\<lparr>bs_sys := t\<rparr>) x)"
| metered_request_leaves:
    "may_pull len (mt_client x) \<Longrightarrow> \<not> bs_ended (mt_body x) \<Longrightarrow> s = bs_sys (mt_body x) \<Longrightarrow>
     producer_callback K len (sys_stream s) = (res, eof, st') \<Longrightarrow>
     metered_step K W written rest buf rq win x
       (x\<lparr>mt_exchange := (mt_exchange x)\<lparr>
            xc_client := (mt_body x)\<lparr>bs_sys := s\<lparr>sys_stream := st', sys_pulled := sys_pulled s @ pulled_bytes res\<rparr>,
                                     bs_ended := (bs_ended (mt_body x) \<or> eof)\<rparr>,
            xc_request := xc_request (mt_exchange x) @ pulled_bytes res\<rparr>,
          mt_client := after_pull res (mt_client x)\<rparr>)"
| metered_request_arrives:
    "xc_request (mt_exchange x) = d @ later \<Longrightarrow> \<not> st_read_eof (es_stream (mt_echo x)) \<Longrightarrow> s = es_sys (mt_echo x) \<Longrightarrow>
     metered_step K W written rest buf rq win x
       (x\<lparr>mt_exchange := (mt_exchange x)\<lparr>
            xc_server := (mt_echo x)\<lparr>es_sys := s\<lparr>sys_stream := on_data K d (sys_stream s),
                                                sys_received := sys_received s @ d\<rparr>\<rparr>,
            xc_request := later\<rparr>,
          mt_server := woken (mt_server x)\<rparr>)"
| metered_request_ends:
    "xc_request (mt_exchange x) = [] \<Longrightarrow> bs_ended (mt_body x) \<Longrightarrow> s = es_sys (mt_echo x) \<Longrightarrow>
     metered_step K W written rest buf rq win x
       ((put_echo ((mt_echo x)\<lparr>es_sys := s\<lparr>sys_stream := on_read_eof K (sys_stream s)\<rparr>\<rparr>) x)
          \<lparr>mt_server := woken (mt_server x)\<rparr>)"
| metered_server_echoes:
    "echo_own_step K W written rest buf rq (mt_echo x) s \<Longrightarrow>
     submits = (response_submitted (es_pc s) \<and> \<not> response_submitted (es_pc (mt_echo x))) \<Longrightarrow>
     metered_step K W written rest buf rq win x
       ((put_echo s x)\<lparr>mt_server :=
          ng_effects (echo_asks K W buf (mt_echo x) @ (if submits then [Start_write] else [])) (mt_server x)\<rparr>)"
| metered_response_leaves:
    "may_pull len (mt_server x) \<Longrightarrow> \<not> es_ended (mt_echo x) \<Longrightarrow> response_submitted (es_pc (mt_echo x)) \<Longrightarrow>
     s = es_sys (mt_echo x) \<Longrightarrow> producer_callback K len (sys_stream s) = (res, eof, st') \<Longrightarrow>
     metered_step K W written rest buf rq win x
       (x\<lparr>mt_exchange := (mt_exchange x)\<lparr>
            xc_server := (mt_echo x)\<lparr>es_sys := s\<lparr>sys_stream := st', sys_pulled := sys_pulled s @ pulled_bytes res\<rparr>,
                                     es_ended := (es_ended (mt_echo x) \<or> eof)\<rparr>,
            xc_response := xc_response (mt_exchange x) @ pulled_bytes res\<rparr>,
          mt_server := after_pull res (mt_server x)\<rparr>)"
| metered_response_arrives:
    "xc_response (mt_exchange x) = d @ later \<Longrightarrow> \<not> st_read_eof (bs_stream (mt_body x)) \<Longrightarrow> s = bs_sys (mt_body x) \<Longrightarrow>
     metered_step K W written rest buf rq win x
       (x\<lparr>mt_exchange := (mt_exchange x)\<lparr>
            xc_client := (mt_body x)\<lparr>bs_sys := s\<lparr>sys_stream := on_data K d (sys_stream s),
                                                sys_received := sys_received s @ d\<rparr>\<rparr>,
            xc_response := later\<rparr>,
          mt_client := woken (mt_client x)\<rparr>)"
| metered_response_ends:
    "xc_response (mt_exchange x) = [] \<Longrightarrow> es_ended (mt_echo x) \<Longrightarrow> s = bs_sys (mt_body x) \<Longrightarrow>
     metered_step K W written rest buf rq win x
       ((put_body ((mt_body x)\<lparr>bs_sys := s\<lparr>sys_stream := on_read_eof K (sys_stream s)\<rparr>\<rparr>) x)
          \<lparr>mt_client := woken (mt_client x)\<rparr>)"
| metered_request_window:
    "may_announce win (mt_server x) \<Longrightarrow> v = mt_client x \<Longrightarrow>
     metered_step K W written rest buf rq win x
       (x\<lparr>mt_server := (mt_server x)\<lparr>ng_credit := 0\<rparr>,
          mt_client := woken (v\<lparr>ng_window := ng_window v + ng_credit (mt_server x)\<rparr>)\<rparr>)"
| metered_response_window:
    "may_announce win (mt_client x) \<Longrightarrow> v = mt_server x \<Longrightarrow>
     metered_step K W written rest buf rq win x
       (x\<lparr>mt_client := (mt_client x)\<lparr>ng_credit := 0\<rparr>,
          mt_server := woken (v\<lparr>ng_window := ng_window v + ng_credit (mt_client x)\<rparr>)\<rparr>)"
| metered_client_sleeps:
    "may_sleep win (\<not> bs_ended (mt_body x)) (mt_client x) \<Longrightarrow>
     metered_step K W written rest buf rq win x (x\<lparr>mt_client := (mt_client x)\<lparr>ng_awake := False\<rparr>\<rparr>)"
| metered_server_sleeps:
    "may_sleep win (response_submitted (es_pc (mt_echo x)) \<and> \<not> es_ended (mt_echo x)) (mt_server x) \<Longrightarrow>
     metered_step K W written rest buf rq win x (x\<lparr>mt_server := (mt_server x)\<lparr>ng_awake := False\<rparr>\<rparr>)"
| metered_client_closes:
    "s = bs_sys (mt_body x) \<Longrightarrow>
     metered_step K W written rest buf rq win x
       (put_body ((mt_body x)\<lparr>bs_sys := s\<lparr>sys_stream := on_close K (sys_stream s)\<rparr>\<rparr>) x)"
| metered_server_closes:
    "s = es_sys (mt_echo x) \<Longrightarrow>
     metered_step K W written rest buf rq win x
       (put_echo ((mt_echo x)\<lparr>es_sys := s\<lparr>sys_stream := on_close K (sys_stream s)\<rparr>\<rparr>) x)"

text \<open>
  Both sides announce the same window (\<open>window_size\<close> in \<open>run\<close>); the request has been submitted, which
  wakes the client's send loop, and the server's was woken by its arrival.
\<close>

definition metered_starts ::
  "('e, 'b, 'c) capy \<Rightarrow> 'w composed_write \<Rightarrow> ('w \<Rightarrow> write_view) \<Rightarrow> ('b \<Rightarrow> byte list) \<Rightarrow> ('b \<Rightarrow> nat)
    \<Rightarrow> ('c \<Rightarrow> byte list) \<Rightarrow> 'b \<Rightarrow> nat \<Rightarrow> byte list list \<Rightarrow> ('e, 'b, 'c, 'w) metered \<Rightarrow> bool" where
  "metered_starts K W view written room rest buf win bufs x \<longleftrightarrow>
     0 < win \<and> exchange_starts K W view written room rest buf bufs (mt_exchange x) \<and>
     mt_client x = new_side win \<and> mt_server x = new_side win"

section \<open>Every step is a step of the exchange\<close>

lemma to_announce_simps [simp]:
  "to_announce win (v\<lparr>ng_deferred := b\<rparr>) = to_announce win v" "to_announce win (v\<lparr>ng_awake := b\<rparr>) = to_announce win v"
  "to_announce win (v\<lparr>ng_window := n\<rparr>) = to_announce win v" "to_announce win (woken v) = to_announce win v"
  "\<not> to_announce win (v\<lparr>ng_credit := 0\<rparr>)"
  by (simp_all add: to_announce_def woken_def)

lemma put_simps [simp]:
  "mt_exchange (put_body c x) = (mt_exchange x)\<lparr>xc_client := c\<rparr>" "mt_client (put_body c x) = mt_client x"
  "mt_server (put_body c x) = mt_server x"
  "mt_exchange (put_echo s x) = (mt_exchange x)\<lparr>xc_server := s\<rparr>" "mt_client (put_echo s x) = mt_client x"
  "mt_server (put_echo s x) = mt_server x"
  by (simp_all add: put_body_def put_echo_def)

lemma read_resume_client_other:
  assumes "read_some_resume K e sink (sys_stream s) = (out, st', effs)" "st_read_sink (sys_stream s) = Some sink"
    and "may_resume K e (st_read_ready (sys_stream s))"
  shows "client_other K written rest s
    (s\<lparr>sys_stream := st', sys_delivered := sys_delivered s @ returned written out,
       sys_consumed := sys_consumed s + credited effs\<rparr>)"
proof -
  have "st_read_eof st' = st_read_eof (sys_stream s)"
    using assms(1) by (auto simp: read_some_resume_def read_park_def Let_def split: if_splits)
  with step_read_wake [of s sink K e out st' effs written rest] assms read_some_resume_write_side [OF assms(1)]
  show ?thesis by (simp add: client_other_def write_history_def)
qed

lemma metered_exchange:
  assumes "metered_step K W written rest buf rq win x y"
  shows "exchange_step K W written rest buf rq (mt_exchange x) (mt_exchange y) \<or> mt_exchange y = mt_exchange x"
  using assms
proof (induction rule: metered_step.induct)
  case (metered_client_reads x bp out st' effs)
  from client_reads [OF read_some_client_other [where written = written, OF metered_client_reads(3,1,2)]] show ?case
    by (simp add: body_read_def)
next
  case (metered_client_read_wakes x sink e out st' effs)
  from client_reads [OF read_resume_client_other [OF metered_client_read_wakes(3,1,2)]] show ?case
    by (simp add: body_read_def)
next
  case (metered_request_leaves len x s res eof st')
  with request_leaves [of K len "mt_exchange x" res eof st' W written rest buf rq] show ?case by simp
next
  case (metered_response_leaves len x s res eof st')
  with response_leaves [of K len "mt_exchange x" res eof st' W written rest buf rq] show ?case by simp
qed (auto intro: exchange_step.intros)

section \<open>The invariant\<close>

text \<open>
  The mark of the stream and that of nghttp2 agree on whether the data provider is deferred, and the
  send loop is awake when there is something to send.
\<close>

definition side_ok :: "nat \<Rightarrow> ('e, 'b, 'c) stream \<Rightarrow> ng_side \<Rightarrow> bool" where
  "side_ok win st v \<longleftrightarrow>
     ng_deferred v = st_write_deferred st \<and>
     (st_write_pending st \<and> 0 < ng_window v \<longrightarrow> ng_awake v) \<and> (to_announce win v \<longrightarrow> ng_awake v)"

text \<open>What was sent and not announced as consumed is what the window lacks.\<close>

definition flow_ok :: "nat \<Rightarrow> ng_side \<Rightarrow> ('e, 'b, 'c) stream_sys \<Rightarrow> ('e, 'b, 'c) stream_sys \<Rightarrow> ng_side \<Rightarrow> bool" where
  "flow_ok win v sender receiver v' \<longleftrightarrow>
     ng_window v + length (sys_pulled sender) + ng_credit v' = win + sys_consumed receiver"

lemma side_ok_frame:
  "side_ok win st v \<Longrightarrow> write_side st' = write_side st \<Longrightarrow> side_ok win st' v"
  by (simp add: side_ok_def write_side_def)

lemma side_ok_woken: "side_ok win st v \<Longrightarrow> side_ok win st (woken v)"
  by (simp add: side_ok_def woken_def)

lemma woken_simps [simp]:
  "ng_deferred (woken v) = ng_deferred v" "ng_window (woken v) = ng_window v" "ng_credit (woken v) = ng_credit v"
  "ng_awake (woken v)"
  by (simp_all add: woken_def)

lemma ng_effects_simps [simp]:
  "ng_effects [] v = v" "ng_effects (e # es) v = ng_effects es (ng_effect e v)"
  "ng_effects (es @ fs) v = ng_effects fs (ng_effects es v)"
  by (simp_all add: ng_effects_def)

lemma write_asks:
  assumes "write_impl K bufs eof st = (out, st', effs)" "side_ok win st v"
  shows "side_ok win st' (ng_effects effs v) \<and> ng_window (ng_effects effs v) = ng_window v \<and>
    ng_credit (ng_effects effs v) = ng_credit v"
  using assms by (auto simp: write_impl_def side_ok_def Let_def split: if_splits)

lemma write_resume_asks: "write_impl_resume e st = (r, st') \<Longrightarrow> side_ok win st v \<Longrightarrow> side_ok win st' v"
  by (auto simp: write_impl_resume_def side_ok_def)

lemma consume_asks:
  assumes "side_ok win st v" "write_side st' = write_side st" "effs = [] \<or> effs = [Consume_stream sid n, Start_write]"
  shows "side_ok win st' (ng_effects effs v) \<and> ng_window (ng_effects effs v) = ng_window v \<and>
    ng_credit (ng_effects effs v) = ng_credit v + credited effs"
  using assms by (auto simp: side_ok_def write_side_def)

lemma read_some_effects:
  "read_some K bp st = Some (out, st', effs) \<Longrightarrow> effs = [] \<or> effs = [Consume_stream (st_id st) (credited effs), Start_write]"
  by (auto simp: read_some_def consume_def Let_def split: option.splits if_splits)

lemma read_resume_effects:
  "read_some_resume K e sink st = (out, st', effs) \<Longrightarrow>
    effs = [] \<or> effs = [Consume_stream (st_id st) (credited effs), Start_write]"
  by (auto simp: read_some_resume_def consume_def Let_def split: if_splits)

lemma read_resume_effects_same:
  "read_some_resume K e sink st = (out, st', effs) \<Longrightarrow> snd (snd (read_some_resume K None sink st)) = effs"
  by (auto simp: read_some_resume_def Let_def split: if_splits)

lemmas read_asks = consume_asks [OF _ read_some_write_side read_some_effects]
lemmas resume_asks = consume_asks [OF _ read_some_resume_write_side read_resume_effects]

lemma pull_asks:
  assumes "producer_callback K len st = (res, eof, st')" "side_ok win st v" "source_ok K rest" "may_pull len v"
  shows "side_ok win st' (after_pull res v) \<and> ng_window (after_pull res v) + length (pulled_bytes res) = ng_window v \<and>
    ng_credit (after_pull res v) = ng_credit v"
proof (cases "st_write_pending st")
  case True
  with assms(1) have res: "res = Copied (cb_copy K (st_pending st) len)" "st_write_deferred st' = st_write_deferred st"
    by (auto simp: producer_callback_def Let_def split: if_splits)
  have "length (cb_copy K (st_pending st) len) \<le> ng_window v"
    using assms(3,4) by (simp add: source_ok_def may_pull_def min_def)
  with res assms(2,4) show ?thesis by (simp add: after_pull_def side_ok_def may_pull_def)
qed (use assms in \<open>auto simp: producer_callback_def after_pull_def side_ok_def may_pull_def\<close>)

text \<open>The steps of the two coroutines.\<close>

lemma body_own_asks:
  assumes "body_own_step K W rest c d" "side_ok win (bs_stream c) v"
  shows "side_ok win (bs_stream d) (ng_effects (body_asks K W c) v) \<and>
    ng_window (ng_effects (body_asks K W c) v) = ng_window v \<and>
    ng_credit (ng_effects (body_asks K W c) v) = ng_credit v \<and> sys_consumed (bs_sys d) = sys_consumed (bs_sys c)"
  using assms
proof (induction rule: body_own_step.induct)
  case (body_call_write c w s bufs st' effs)
  with write_asks [of K bufs False "bs_stream c" _ st' effs] show ?case by (simp add: body_asks_def write_some_def)
next
  case (body_write_refused c w bufs r st' effs)
  with write_asks [of K bufs False "bs_stream c" _ st' effs] show ?case by (simp add: body_asks_def write_some_def)
next
  case (body_call_eof c n s st' effs)
  with write_asks [of K "[]" True "bs_stream c" _ st' effs] show ?case by (simp add: body_asks_def write_eof_def)
next
  case (body_eof_refused c n r st' effs)
  with write_asks [of K "[]" True "bs_stream c" _ st' effs] show ?case by (simp add: body_asks_def write_eof_def)
qed (auto simp: body_asks_def dest: write_resume_asks)

lemma echo_own_asks:
  assumes "echo_own_step K W written rest buf rq s t" "side_ok win (es_stream s) v"
  shows "side_ok win (es_stream t) (ng_effects (echo_asks K W buf s) v) \<and>
    ng_window (ng_effects (echo_asks K W buf s) v) = ng_window v \<and>
    ng_credit (ng_effects (echo_asks K W buf s) v) + sys_consumed (es_sys s) = ng_credit v + sys_consumed (es_sys t)"
  using assms
proof (induction rule: echo_own_step.induct)
  case (echo_call_read x submitted s out st' effs sub)
  with read_asks [of win "es_stream x" v K buf out st' effs] show ?case by (simp add: echo_asks_def)
next
  case (echo_wake_read x submitted s sink e out st' effs sub)
  with resume_asks [of win "es_stream x" v K e sink out st' effs] read_resume_effects_same [of K e sink "es_stream x"]
  show ?case by (simp add: echo_asks_def)
next
  case (echo_call_write x w s bufs st' effs)
  with write_asks [of K bufs False "es_stream x" _ st' effs] show ?case by (simp add: echo_asks_def write_some_def)
next
  case (echo_write_refused x w bufs r st' effs)
  with write_asks [of K bufs False "es_stream x" _ st' effs] show ?case by (simp add: echo_asks_def write_some_def)
next
  case (echo_call_eof x s st' effs)
  with write_asks [of K "[]" True "es_stream x" _ st' effs] show ?case by (simp add: echo_asks_def write_eof_def)
next
  case (echo_eof_refused x r st' effs)
  with write_asks [of K "[]" True "es_stream x" _ st' effs] show ?case by (simp add: echo_asks_def write_eof_def)
qed (auto simp: echo_asks_def dest: write_resume_asks)

text \<open>The handler holds at most one buffer: it reads only when everything it read has been taken.\<close>

definition echo_holds :: "('b \<Rightarrow> nat) \<Rightarrow> 'b \<Rightarrow> ('e, 'b, 'c, 'w) echo_sys \<Rightarrow> bool" where
  "echo_holds room buf s \<longleftrightarrow> length (sys_delivered (es_sys s)) \<le> length (sys_reported (es_sys s)) + room buf"

lemma returned_none: "returned written (Read_done (e, 0) bp) = []" "returned written Read_parked = []"
  by simp_all

lemma read_some_at_most:
  assumes "library_ok K written room rest" "sys_inv K written room rest s"
    and "st_read_sink (sys_stream s) = None" "written buf = []" "0 < room buf"
    and "read_some K buf (sys_stream s) = Some (out, st', effs)"
  shows "length (returned written out) \<le> room buf"
  using assms by (cases rule: read_some_cases) (auto simp del: returned.simps simp: returned_none)

lemma read_resume_at_most:
  assumes "sys_inv K written room rest s" "st_read_sink (sys_stream s) = Some sink"
    and "room (sink_bp sink) + sink_copied sink = k" "0 < k" "e = None \<or> e = Some Error_canceled"
    and "read_some_resume K e sink (sys_stream s) = (out, st', effs)"
  shows "length (returned written out) \<le> k"
  using assms by (cases rule: read_resume_cases) (auto simp del: returned.simps simp: returned_none)

lemma echo_own_holds:
  assumes "echo_own_step K W written rest buf rq s t" "echo_inv K W view written room rest buf s" "echo_holds room buf s"
  shows "echo_holds room buf t"
  using assms
proof (induction rule: echo_own_step.induct)
  case (echo_call_read x submitted s out st' effs sub)
  note I = echo_invD [OF echo_call_read.prems(1)]
  have "sys_delivered s = sys_reported s" "st_read_sink (sys_stream s) = None"
    using I(6) echo_call_read.hyps(1,2) by (auto simp: echo_frame_defs split: option.splits)
  moreover have "length (returned written out) \<le> room buf"
    using read_some_at_most [OF I(1,5) _ I(3)] I(4) calculation(2) echo_call_read.hyps(2,3)
    by (simp add: echo_buffer_size_def)
  ultimately show ?case by (simp add: echo_holds_def)
next
  case (echo_wake_read x submitted s sink e out st' effs sub)
  note I = echo_invD [OF echo_wake_read.prems(1)]
  have "sys_delivered s = sys_reported s" "room (sink_bp sink) + sink_copied sink = room buf" "0 < room buf"
    using I(4,6) echo_wake_read.hyps(1-3) by (auto simp: echo_frame_defs echo_buffer_size_def split: option.splits)
  moreover have "e = None \<or> e = Some Error_canceled" using echo_wake_read.hyps(4) by (simp add: wait_ends_def)
  ultimately have "length (returned written out) \<le> room buf"
    using read_resume_at_most [of K written room rest s sink "room buf" e out st' effs] I(5) echo_wake_read.hyps(2,3,5)
    by blast
  with \<open>sys_delivered s = sys_reported s\<close> show ?case by (simp add: echo_holds_def)
qed (auto simp: echo_holds_def)

text \<open>What holds of the sessions of both sides.\<close>

definition sides_ok :: "('b \<Rightarrow> nat) \<Rightarrow> 'b \<Rightarrow> nat \<Rightarrow> ('e, 'b, 'c, 'w) metered \<Rightarrow> bool" where
  "sides_ok room buf win x \<longleftrightarrow>
     side_ok win (bs_stream (mt_body x)) (mt_client x) \<and> side_ok win (es_stream (mt_echo x)) (mt_server x) \<and>
     flow_ok win (mt_client x) (bs_sys (mt_body x)) (es_sys (mt_echo x)) (mt_server x) \<and>
     flow_ok win (mt_server x) (es_sys (mt_echo x)) (bs_sys (mt_body x)) (mt_client x) \<and>
     echo_holds room buf (mt_echo x)"

definition metered_inv ::
  "('e, 'b, 'c) capy \<Rightarrow> 'w composed_write \<Rightarrow> ('w \<Rightarrow> write_view) \<Rightarrow> ('b \<Rightarrow> byte list) \<Rightarrow> ('b \<Rightarrow> nat)
    \<Rightarrow> ('c \<Rightarrow> byte list) \<Rightarrow> 'b \<Rightarrow> nat \<Rightarrow> byte list list \<Rightarrow> ('e, 'b, 'c, 'w) metered \<Rightarrow> bool" where
  "metered_inv K W view written room rest buf win bufs x \<longleftrightarrow>
     0 < win \<and> exchange_inv K W view written room rest buf bufs (mt_exchange x) \<and> sides_ok room buf win x"

lemma metered_invD:
  assumes "metered_inv K W view written room rest buf win bufs x"
  shows "0 < win" "exchange_inv K W view written room rest buf bufs (mt_exchange x)" "sides_ok room buf win x"
    "body_inv K W view written room rest (mt_body x)" "echo_inv K W view written room rest buf (mt_echo x)"
    "source_ok K rest"
  using assms by (auto simp: metered_inv_def exchange_inv_def echo_full_inv_def body_inv_def library_ok_def)

lemma sides_okD:
  assumes "sides_ok room buf win x"
  shows "side_ok win (bs_stream (mt_body x)) (mt_client x)" "side_ok win (es_stream (mt_echo x)) (mt_server x)"
    "flow_ok win (mt_client x) (bs_sys (mt_body x)) (es_sys (mt_echo x)) (mt_server x)"
    "flow_ok win (mt_server x) (es_sys (mt_echo x)) (bs_sys (mt_body x)) (mt_client x)"
    "echo_holds room buf (mt_echo x)"
  using assms by (simp_all add: sides_ok_def)

lemma metered_starts_inv:
  assumes "metered_starts K W view written room rest buf win bufs x"
  shows "metered_inv K W view written room rest buf win bufs x"
proof -
  have "exchange_inv K W view written room rest buf bufs (mt_exchange x)"
    using assms exchange_starts_inv by (auto simp: metered_starts_def)
  with assms show ?thesis
    by (auto simp: metered_inv_def sides_ok_def metered_starts_def exchange_starts_def side_ok_def flow_ok_def
        echo_holds_def new_side_def init_sys_def new_stream_def)
qed

lemma sides_client:
  assumes "sides_ok room buf win x" "mt_echo y = mt_echo x" "mt_server y = mt_server x"
    and "write_side (bs_stream (mt_body y)) = write_side (bs_stream (mt_body x))"
    and "sys_pulled (bs_sys (mt_body y)) = sys_pulled (bs_sys (mt_body x))"
    and "sys_consumed (bs_sys (mt_body y)) = sys_consumed (bs_sys (mt_body x))"
    and "mt_client y = mt_client x \<or> mt_client y = woken (mt_client x)"
  shows "sides_ok room buf win y"
proof -
  have "side_ok win (bs_stream (mt_body y)) (mt_client y)"
    using assms(7) side_ok_frame [OF sides_okD(1) [OF assms(1)] assms(4)] side_ok_woken by fastforce
  with assms(1-3,5-7) show ?thesis by (auto simp: sides_ok_def flow_ok_def)
qed

lemma sides_server:
  assumes "sides_ok room buf win x" "mt_body y = mt_body x" "mt_client y = mt_client x"
    and "write_side (es_stream (mt_echo y)) = write_side (es_stream (mt_echo x))"
    and "sys_pulled (es_sys (mt_echo y)) = sys_pulled (es_sys (mt_echo x))"
    and "sys_consumed (es_sys (mt_echo y)) = sys_consumed (es_sys (mt_echo x))"
    and "sys_delivered (es_sys (mt_echo y)) = sys_delivered (es_sys (mt_echo x))"
    and "sys_reported (es_sys (mt_echo y)) = sys_reported (es_sys (mt_echo x))"
    and "mt_server y = mt_server x \<or> mt_server y = woken (mt_server x)"
  shows "sides_ok room buf win y"
proof -
  have "side_ok win (es_stream (mt_echo y)) (mt_server y)"
    using assms(9) side_ok_frame [OF sides_okD(2) [OF assms(1)] assms(4)] side_ok_woken by fastforce
  with assms(1-3,5-9) show ?thesis by (auto simp: sides_ok_def flow_ok_def echo_holds_def)
qed

lemma write_side_on_close:
  "st_write_deferred (on_close K st) = st_write_deferred st" "st_write_pending (on_close K st) = st_write_pending st"
  by (simp_all add: on_close_def)

lemma metered_step_sides:
  assumes "metered_step K W written rest buf rq win x y" "metered_inv K W view written room rest buf win bufs x"
  shows "sides_ok room buf win y"
proof -
  note I = metered_invD [OF assms(2)] and S = sides_okD [OF metered_invD(3) [OF assms(2)]]
  from assms(1) show ?thesis
  proof cases
    case (metered_client_writes c)
    with body_own_asks [OF metered_client_writes(2) S(1)] body_own_step_keeps [OF metered_client_writes(2)] S show ?thesis
      by (simp add: sides_ok_def flow_ok_def)
  next
    case (metered_client_reads bp out st' effs)
    with read_asks [OF S(1) metered_client_reads(4,4)] S show ?thesis
      by (simp add: sides_ok_def flow_ok_def body_read_def)
  next
    case (metered_client_read_wakes sink e out st' effs)
    with resume_asks [OF S(1) metered_client_read_wakes(4,4)] S show ?thesis
      by (simp add: sides_ok_def flow_ok_def body_read_def)
  next
    case (metered_client_other t)
    then show ?thesis
      by (intro sides_client [OF I(3)]) (auto simp: client_other_def write_history_def)
  next
    case (metered_request_leaves len s res eof st')
    with pull_asks [OF _ S(1) I(6) metered_request_leaves(2)] S show ?thesis
      by (simp add: sides_ok_def flow_ok_def)
  next
    case (metered_request_arrives d later s)
    then show ?thesis by (intro sides_server [OF I(3)]) auto
  next
    case (metered_request_ends s)
    then show ?thesis by (intro sides_server [OF I(3)]) auto
  next
    case (metered_server_echoes s submits)
    with echo_own_asks [OF metered_server_echoes(2) S(2)] echo_own_step_keeps [OF metered_server_echoes(2)]
      echo_own_holds [OF metered_server_echoes(2) I(5) S(5)] S show ?thesis
      by (auto simp: sides_ok_def flow_ok_def side_ok_woken)
  next
    case (metered_response_leaves len s res eof st')
    with pull_asks [OF _ S(2) I(6) metered_response_leaves(2)] S show ?thesis
      by (simp add: sides_ok_def flow_ok_def echo_holds_def)
  next
    case (metered_response_arrives d later s)
    then show ?thesis by (intro sides_client [OF I(3)]) auto
  next
    case (metered_response_ends s)
    then show ?thesis by (intro sides_client [OF I(3)]) auto
  next
    case (metered_request_window v)
    with I(1) S show ?thesis by (auto simp: sides_ok_def flow_ok_def side_ok_def)
  next
    case (metered_response_window v)
    with I(1) S show ?thesis by (auto simp: sides_ok_def flow_ok_def side_ok_def)
  next
    case metered_client_sleeps
    have "\<not> (st_write_pending (bs_stream (mt_body x)) \<and> 0 < ng_window (mt_client x))"
      using metered_client_sleeps(2) S(1) I(4)
      by (auto simp: may_sleep_def side_ok_def body_inv_def body_ending_def sys_inv_def write_inv_def Let_def)
    with metered_client_sleeps S show ?thesis by (auto simp: sides_ok_def flow_ok_def side_ok_def may_sleep_def)
  next
    case metered_server_sleeps
    have "\<not> (st_write_pending (es_stream (mt_echo x)) \<and> 0 < ng_window (mt_server x))"
      using metered_server_sleeps(2) S(2) I(5)
      by (auto simp: may_sleep_def side_ok_def echo_inv_defs sys_inv_def write_inv_def Let_def)
    with metered_server_sleeps S show ?thesis by (auto simp: sides_ok_def flow_ok_def side_ok_def may_sleep_def)
  next
    case (metered_client_closes s)
    with S show ?thesis by (simp add: sides_ok_def flow_ok_def side_ok_def write_side_on_close)
  next
    case (metered_server_closes s)
    with S show ?thesis by (simp add: sides_ok_def flow_ok_def side_ok_def write_side_on_close echo_holds_def)
  qed
qed

lemma metered_step_inv:
  assumes "metered_step K W written rest buf rq win x y" "metered_inv K W view written room rest buf win bufs x"
  shows "metered_inv K W view written room rest buf win bufs y"
proof -
  have "exchange_inv K W view written room rest buf bufs (mt_exchange y)"
    using metered_exchange [OF assms(1)] exchange_step_inv metered_invD(2) [OF assms(2)] by metis
  with metered_step_sides [OF assms] metered_invD(1) [OF assms(2)] show ?thesis by (simp add: metered_inv_def)
qed

interpretation metered_reach: step_invariant "metered_starts K W view written room rest buf win bufs"
  "metered_step K W written rest buf rq win" "metered_inv K W view written room rest buf win bufs"
  for K :: "('e, 'b, 'c) capy" and W :: "'w composed_write" and view written room rest buf win bufs rq
  by unfold_locales (auto intro: metered_starts_inv metered_step_inv)

section \<open>Properties\<close>

text \<open>
  C2. Backpressure: at every moment nghttp2 has taken at most two windows and one buffer of the handler
  more of the client's body than the client has read back of the response. So a client that sends a
  larger body without reading the response comes to a stop, as the comments of the tests say it
  must, and neither side buffers without bound.
\<close>

theorem echo_backpressure:
  assumes "reachable (metered_starts K W view written room rest buf win bufs) (metered_step K W written rest buf rq win) x"
  shows "length (sys_pulled (bs_sys (mt_body x))) \<le>
    length (sys_delivered (bs_sys (mt_body x))) + 2 * win + echo_buffer_size"
proof -
  note inv = metered_reach.inv_reachable [OF assms]
  note I = metered_invD [OF inv] and S = sides_okD [OF metered_invD(3) [OF inv]]
  note J = echo_invD [OF I(5)] and B = body_invD(3) [OF I(4)]
  have consumed: "sys_consumed (es_sys (mt_echo x)) = length (sys_delivered (es_sys (mt_echo x)))"
    "sys_consumed (bs_sys (mt_body x)) = length (sys_delivered (bs_sys (mt_body x)))"
    using J(5) B by (simp_all add: sys_inv_def read_sys_inv_def)
  have "length (sys_reported (es_sys (mt_echo x))) \<le> length (sys_pulled (es_sys (mt_echo x)))"
    using J(5) by (cases "sys_writing (es_sys (mt_echo x))") (auto simp: sys_inv_def write_inv_def Let_def)
  with S(3-5) consumed J(4) show ?thesis by (simp add: flow_ok_def echo_holds_def)
qed

text \<open>A client that has written two bytes, which nghttp2 has taken.\<close>

type_synonym demo_metered = "(bool, byte list \<times> nat, nat \<times> byte list, write_view) metered"

abbreviation demo_metered_step :: "demo_metered \<Rightarrow> demo_metered \<Rightarrow> bool" where
  "demo_metered_step \<equiv> metered_step flat_capy plain_write fst snd ([], echo_buffer_size) demo_request 4"

abbreviation demo_metered_reach :: "byte list list \<Rightarrow> demo_metered \<Rightarrow> bool" where
  "demo_metered_reach bufs \<equiv>
     reachable (metered_starts flat_capy plain_write (\<lambda>w. w) fst snd snd ([], echo_buffer_size) 4 bufs) demo_metered_step"

definition metered_init :: "byte list list \<Rightarrow> demo_metered" where
  "metered_init bufs = \<lparr>mt_exchange = exchange_init bufs, mt_client = new_side 4, mt_server = new_side 4\<rparr>"

lemma metered_init_reach: "demo_metered_reach bufs (metered_init bufs)"
  by (rule reachable_init)
    (auto simp: metered_starts_def metered_init_def exchange_starts_def echo_ok_demo exchange_init_def)

definition metered_wrote :: demo_metered where
  "metered_wrote =
     (let x = metered_init [[7, 8]]
      in (put_body (the (body_next flat_capy plain_write snd (mt_body x))) x)
           \<lparr>mt_client := ng_effects (body_asks flat_capy plain_write (mt_body x)) (mt_client x)\<rparr>)"

definition metered_sent :: demo_metered where
  "metered_sent =
     (let x = metered_wrote; s = bs_sys (mt_body x)
      in case producer_callback flat_capy 2 (sys_stream s) of
           (res, eof, st') \<Rightarrow>
             x\<lparr>mt_exchange := (mt_exchange x)\<lparr>
                  xc_client := (mt_body x)\<lparr>bs_sys := s\<lparr>sys_stream := st', sys_pulled := sys_pulled s @ pulled_bytes res\<rparr>,
                                           bs_ended := (bs_ended (mt_body x) \<or> eof)\<rparr>,
                  xc_request := xc_request (mt_exchange x) @ pulled_bytes res\<rparr>,
                mt_client := after_pull res (mt_client x)\<rparr>)"

lemmas metered_run_defs = metered_init_def metered_wrote_def metered_sent_def new_side_def body_asks_def
  after_pull_def woken_def exchange_run_defs

lemma metered_wrote_reach: "demo_metered_reach [[7, 8]] metered_wrote"
proof -
  let ?x = "metered_init [[7, 8]]"
  obtain c where c: "body_next flat_capy plain_write snd (mt_body ?x) = Some c" by (simp add: metered_run_defs)
  from reachable_step [OF metered_init_reach metered_client_writes [OF body_next_step [OF c]]] show ?thesis
    by (simp add: metered_wrote_def c Let_def)
qed

lemma metered_sent_reach: "demo_metered_reach [[7, 8]] metered_sent"
proof -
  let ?x = metered_wrote
  obtain res eof st' where p: "producer_callback flat_capy 2 (sys_stream (bs_sys (mt_body ?x))) = (res, eof, st')"
    by (cases "producer_callback flat_capy 2 (sys_stream (bs_sys (mt_body ?x)))")
  have "may_pull 2 (mt_client ?x)" "\<not> bs_ended (mt_body ?x)"
    by (simp_all add: metered_run_defs may_pull_def)
  from reachable_step [OF metered_wrote_reach metered_request_leaves [OF this refl p]] show ?thesis
    by (simp add: metered_sent_def p Let_def)
qed

theorem echo_backpressure_witness:
  "length (sys_pulled (bs_sys (mt_body metered_sent))) = 2 \<and>
   length (sys_pulled (bs_sys (mt_body metered_sent))) \<le>
     length (sys_delivered (bs_sys (mt_body metered_sent))) + 2 * 4 + echo_buffer_size"
  using echo_backpressure [OF metered_sent_reach] by (simp add: metered_run_defs)

end
