(* ===== verification/Echo_Completion.thy ===== *)
theory Echo_Completion
  imports Echo_Flow
begin

text \<open>
  The exchange of theory \<open>Echo_Flow\<close> can always be completed. As long as neither stream was closed, no
  wait was cancelled, no submission failed and the client does not wait in a read without a buffer,
  there is from every state it can get into a way to its end: the client's write and the handler
  return without an error, and the client has read the whole echo. The streams ask nghttp2 to resume
  their data, wake the send loops and give back the windows; without one of these the way would not
  exist, since nghttp2 does nothing on its own.

  A measure of what is left to do decreases: bytes move on, a coroutine comes closer to its next
  wait, or a closed window opens.
\<close>

section \<open>The client\<close>











section \<open>The server\<close>














section \<open>The way to the end\<close>

















subsection \<open>The response drains\<close>






subsection \<open>The server advances\<close>




subsection \<open>The request\<close>




subsection \<open>The client advances\<close>




subsection \<open>The end\<close>







end
