(* ===== verification/Spec2Isabelle.thy ===== *)
theory Spec2Isabelle
  imports Session_Ownership Session_Ending Session_Closure Session_Api Body_Read Echo_Completion
begin

text \<open>
  A verification library for nghttp2-corosio, an HTTP/2 library that lets C++ coroutines read and
  write the bodies of HTTP/2 streams on top of the callback-driven C library nghttp2.

  \<^bold>\<open>The program.\<close> A connection is a \<open>Session\<close> (\<open>src/session.cpp\<close>, \<open>src/session_impl.hpp\<close>). It runs two
  loops: \<open>recv_loop\<close> feeds nghttp2 with the bytes of the transport, and nghttp2 calls back with
  header fields, data, ends of streams and closes; \<open>send_loop\<close> asks nghttp2 for bytes and writes
  them to the transport, and nghttp2 calls back for the bodies of outgoing messages. The callbacks
  find the \<open>Stream\<close> (\<open>src/stream_impl.hpp\<close>, \<open>src/stream.cpp\<close>) they concern in a table. A stream is
  the bridge between these synchronous callbacks and the coroutines of the user: \<open>read_some\<close>,
  \<open>write_some\<close>, \<open>write_eof\<close> and \<open>status\<close> suspend on events that the callbacks set. Sessions come
  from the accept loop of a \<open>Server\<close> or from \<open>Client::connect\<close> and are counted in a \<open>TaskGroup\<close>,
  which the destructor of the server drains. Request handlers get a \<open>Request\<close> and a \<open>Response\<close>.

  \<^bold>\<open>The theories.\<close>
  \<^item> \<open>Prelude\<close>: names of types, error codes, decimal text (\<open>std::to_string\<close>, \<open>std::from_chars\<close>),
    reachability, the interfaces \<open>step_invariant\<close> and \<open>codec\<close>.
  \<^item> \<open>Http2_Stream\<close>: class \<open>Stream\<close>, one definition per member function. A coroutine is cut at its
    suspension point: \<open>f\<close> runs to the first wait, \<open>f_resume\<close> from there on. What a stream asks of
    its session is a list of effects. \<open>Stream_Read\<close>: the chunk queue as a \<open>byte_queue\<close>.
    \<open>Stream_System\<close>: a stream with its callbacks and coroutines as a step relation and its
    invariant. \<open>Stream_Properties\<close>: order, flow control, wakeups, accounting of writes, the
    contract of every operation, and how much memory a flow-control window lets a stream use.
  \<^item> \<open>Nghttp2\<close>: the library nghttp2 as a parameter. A library call is a finite tree of callbacks whose
    continuation may depend on everything, so theorems hold for every behaviour of the library and
    the peer. \<open>Session\<close>: class \<open>Session::Impl\<close> with a heap of stream objects.
    \<open>Session_Streams\<close>: the table (locale \<open>stream_table\<close>), its invariant, and what callbacks do to
    one stream (locale \<open>callback_relation\<close> lifts facts on callbacks to library calls).
    \<open>Session_System\<close>: a session with its users as a step relation; it refines one stream system
    per object. \<open>Session_Properties\<close>: demultiplexing, streams that left the table.
    \<open>Session_Messages\<close>: header fields of requests and responses, submission, teardown.
    \<open>Session_Loops\<close>: the two loops and the whole connection. \<open>Session_Lifetime\<close>: what happens after
    \<open>run\<close> has returned, and the raw pointers to streams that nghttp2 keeps as data providers; a
    library call whose callbacks keep to what nghttp2 promises is a sequence of its steps.
    \<open>Session_Closure\<close>: when \<open>run\<close> of a server's session has returned, all its streams are closed and
    nobody hangs on one. \<open>Session_Ending\<close>: the send loop follows the receive loop to its end, within
    three steps for every byte that is still to be sent.
  \<^item> \<open>Handlers\<close>: what the request handlers ask for, in order, given the answers: the echo handler
    (\<open>echo_handler.cpp\<close>), the handlers and helpers of \<open>test/request_handlers.cpp\<close>, the TCP echo of
    \<open>main.cpp\<close>. \<open>Session_Api\<close>: the classes \<open>Request\<close>, \<open>Response\<close>, \<open>ClientRequest\<close> and \<open>ClientResponse\<close>
    (\<open>include/nghttp2-corosio/session.hpp\<close>) as operations on a session, up to their first suspension;
    what a handler puts into a response is what \<open>get_response\<close> reports, and \<open>write_eof()\<close> ends a body.
  \<^item> Coroutines on a stream: \<open>Composed_Write\<close> has \<open>capy::write\<close> as a parameter with its contract.
    \<open>Body_Write\<close>: \<open>write_eof(buffers)\<close>, suspended and resumed while nghttp2 pulls and closes; the
    number it reports is what was taken, and the end of a body is signalled after its last byte.
    \<open>Body_Read\<close>: \<open>Request::read\<close> over \<open>capy::read\<close> the same way; it returns the next bytes of the body,
    reports its end only when everything was read, and ends with the body.
    \<open>Echo_Stream\<close>, \<open>Echo_Properties\<close>: the echo handler the same way, with its reads; the response is a
    prefix of the request at every moment and the whole of it at the end, no wakeup is lost, and the
    handler ends soon after its stream was closed. \<open>Echo_Exchange\<close> joins a client that sends a body and
    a server that echoes it, each on its own stream, with the bytes in transit between them: the
    client reads back its own body and, at a clean end of a handler that was not cancelled, all of it.
    In these theories nghttp2 may pull and deliver at any moment, which is what safety needs, and what
    the calls ask of the session is dropped. \<open>Echo_Flow\<close> carries it out: nghttp2 pulls only into an open
    window, from a data provider that is not deferred, by a send loop that is awake, and a window opens
    only with what was consumed. It bounds how far a client can run ahead of its reads.
    \<open>Echo_Completion\<close>: as long as nothing fails, this exchange can be completed from every state it can
    get into.
  \<^item> \<open>Task_Group\<close>, \<open>Server_Client\<close>: \<open>src/task_group.hpp\<close>, \<open>src/server.cpp\<close>, \<open>src/client.cpp\<close> and the
    main programs. \<open>Server_System\<close>: the server with its accept loop, all its sessions and their
    handlers; every session is a connection of \<open>Session_Loops\<close>, and a drained server has no coroutine
    left. \<open>Session_Ownership\<close>: the \<open>shared_ptr\<close>s between sessions and streams and the destructor
    \<open>~Impl\<close>; a drained server has destroyed all its sessions, a request submitted too late leaks its
    session. \<open>Logging\<close>: log levels, formatters, \<open>run_io_context\<close>.

  \<^bold>\<open>Parameters.\<close> The capy library (events, buffer sequences) is the record \<open>capy\<close>; what theorems
  assume of it is stated by \<open>event_ok\<close>, \<open>sink_ok\<close>, \<open>sink_full\<close> and \<open>source_ok\<close>; \<open>capy::write\<close> and
  \<open>capy::read\<close> are the records \<open>composed_write\<close> and \<open>composed_read\<close> with \<open>composed_write_ok\<close> and
  \<open>composed_read_ok\<close>. nghttp2 is the record \<open>nghttp2\<close>, of which nothing
  is assumed except in \<open>Session_Lifetime\<close>, whose steps say that a new stream has a fresh identifier
  other than zero and that only the data provider of an open stream is called, in \<open>Session_Ending\<close>,
  where a terminated session with nothing left to send wants nothing more, and in the systems
  of the echo handler and of \<open>Request::read\<close>, where no data follows the end of a body. In \<open>Echo_Exchange\<close> the data of a body
  arrives in order and before its end; when and in which pieces is left open. \<open>Echo_Flow\<close> adds the flow
  control of nghttp2 as it is documented: one window for each direction, announced again when half of
  it has been consumed, deferred data providers, and \<open>nghttp2_session_mem_send2\<close> called only by a send
  loop that is awake; the window of the connection, which the callback for data gives back at once, is left
  out. The transport, TLS, sockets and the scheduler
  answer through arguments of the definitions. Small instances of each (\<open>flat_capy\<close>, \<open>demo_ng\<close> and
  others) show that the hypotheses can hold. \<open>sink_full\<close> says that one copy can fill a destination: it
  holds for destinations of at most \<open>max_iovec_\<close> buffers, of which \<open>buffer_param\<close> shows all at once, and
  the properties of reads are about these; \<open>windowed_reads_reorder\<close> shows what happens with more. That a
  waiter of a set event is resumed is a property of the scheduler; the theorems on wakeups say that the
  event is set.

  \<^bold>\<open>Loops and bounds.\<close> The drain loop of \<open>read_some\<close>, the drain loop of the server and the
  stepping event loop are partial functions, and their termination is proved from what the library
  promises. The send loop from its top to its next suspension is a total function: each round adds
  bytes to an accumulator of bounded capacity. Ranks bound the steps of the echo handler after a
  close, those of \<open>Request::read\<close> after the end of the body and those of the send loop after the end of
  the receive loop, and a measure of the bytes still to be moved and of the steps between them leads an
  exchange to its end. Sizes that the code keeps in \<open>std::size_t\<close> and that
  are passed on or printed (content lengths, counters) are words of 64 bits; sizes of byte
  sequences in memory are natural numbers.

  \<^bold>\<open>Not modelled.\<close> Printing of log lines and clocks, the construction of sockets and TLS
  contexts, the moment at which a stream is destroyed while its session runs (an object stays in the
  heap of a session once it was created; that nghttp2 uses only objects the table keeps is proved, and
  \<open>Session_Ownership\<close> has what is destroyed after the end; the object of a request that nghttp2 rejects
  stays in the heap, unreferenced, where the code frees it), the test programs, and calls of nghttp2 on
  a null session, for which definitions return \<open>None\<close>. The server system counts a handler in the task
  group in the step that dispatches it; client sessions that share a task group with a server are left
  out. \<open>atoi\<close> is defined for values that fit, as in C.

  The theorem of this theory follows a request and its body from the wire to the reads of the handler.
\<close>

section \<open>A request and its body\<close>

text \<open>The handler reads into one destination after the other.\<close>

fun read_requests ::
  "('e, 'b, 'c) capy \<Rightarrow> 'ng nghttp2 \<Rightarrow> 'b list \<Rightarrow> request \<Rightarrow> ('ng, 'e, 'b, 'c) session
    \<Rightarrow> ('b read_outcome list \<times> ('ng, 'e, 'b, 'c) session) option" where
  "read_requests K N [] rq s = Some ([], s)"
| "read_requests K N (bp # bps) rq s =
     (case Request_read_some K N bp rq s of
        None \<Rightarrow> None
      | Some (out, s1) \<Rightarrow> map_option (\<lambda>(outs, s2). (out # outs, s2)) (read_requests K N bps rq s1))"

text \<open>One read on a stream whose body has arrived with its end.\<close>

definition body_there :: "byte list \<Rightarrow> ('e, 'b, 'c) stream \<Rightarrow> bool" where
  "body_there q st \<longleftrightarrow> chunks_wf (st_chunks st) (st_front_offset st) \<and>
     buffered (st_chunks st) (st_front_offset st) = q \<and> st_read_eof st \<and> st_read_sink st = None"

lemma read_some_there:
  assumes "sink_ok K written room" "body_there q st" "written bp = []" "0 < room bp"
  shows "\<exists>out st' effs. read_some K bp st = Some (out, st', effs) \<and> returned written out = take (room bp) q \<and>
    body_there (drop (room bp) q) st' \<and> (q = [] \<longrightarrow> out = Read_done (Some Error_eof, 0) bp)"
proof (cases "q = []")
  case True
  with assms read_some_no_data [of K written room st bp] show ?thesis by (auto simp: body_there_def eof_error_def)
next
  case False
  define n where "n = min (room bp) (length q)"
  then have n: "n = min (room bp) (length (buffered (st_chunks st) (st_front_offset st)))" "0 < n"
    using assms(2,4) False by (simp_all add: body_there_def)
  have wf: "chunks_wf (st_chunks st) (st_front_offset st)" using assms(2) by (simp add: body_there_def)
  from read_some_data [OF assms(1) wf n] obtain chunks front bp' where
    "read_some K bp st = Some (Read_done (None, n) bp', st\<lparr>st_chunks := chunks, st_front_offset := front\<rparr>,
       [Consume_stream (st_id st) n, Start_write])"
    "written bp' = written bp @ take n (buffered (st_chunks st) (st_front_offset st))"
    "buffered chunks front = drop n (buffered (st_chunks st) (st_front_offset st))" "chunks_wf chunks front" .
  moreover have "take n q = take (room bp) q" "drop n q = drop (room bp) q" by (simp_all add: n_def min_def)
  ultimately show ?thesis using assms(2,3) False n_def by (auto simp: body_there_def)
qed

lemma read_requests_there:
  assumes "sink_ok K written room" "a < length (ss_objects s)" "body_there q (ss_objects s ! a)" "rq_reader rq = a"
    and "\<forall>bp \<in> set bps. written bp = [] \<and> 0 < room bp"
  shows "\<exists>outs t. read_requests K N bps rq s = Some (outs, t) \<and> a < length (ss_objects t) \<and>
    concat (map (returned written) outs) = take (sum_list (map room bps)) q \<and>
    body_there (drop (sum_list (map room bps)) q) (ss_objects t ! a)"
  using assms
proof (induction bps arbitrary: s q)
  case (Cons bp bps)
  from read_some_there [OF Cons.prems(1,3), of bp] Cons.prems(5) obtain out st' effs where
    rd: "read_some K bp (ss_objects s ! a) = Some (out, st', effs)" "returned written out = take (room bp) q"
      "body_there (drop (room bp) q) st'" by auto
  let ?s = "stream_result K N a st' effs s"
  have "a < length (ss_objects ?s)" "ss_objects ?s ! a = st'"
    using Cons.prems(2) by (simp_all add: stream_result_def update_object_def)
  with Cons.IH [OF Cons.prems(1), of ?s "drop (room bp) q"] rd(3) Cons.prems(4,5) obtain outs t where
    "read_requests K N bps rq ?s = Some (outs, t)" "a < length (ss_objects t)"
    "concat (map (returned written) outs) = take (sum_list (map room bps)) (drop (room bp) q)"
    "body_there (drop (sum_list (map room bps)) (drop (room bp) q)) (ss_objects t ! a)" by auto
  with rd Cons.prems(4) show ?case
    by (simp add: Request_read_some_def StreamReader_read_some_def take_add add.commute)
qed simp

text \<open>The data of a body, chunk by chunk, and the frame that ends it.\<close>

lemma data_callbacks:
  assumes "find_stream s sid = Some a" "a < length (ss_objects s)" "st_read_sink (ss_objects s ! a) = None"
  shows "let t = run_callbacks K N (map (Cb_data_chunk_recv sid) ds) s in
    find_stream t sid = Some a \<and> a < length (ss_objects t) \<and> ss_spawned t = ss_spawned s \<and> ss_handler t = ss_handler s \<and>
    (\<exists>ev. ss_objects t ! a =
       (ss_objects s ! a)\<lparr>st_chunks := st_chunks (ss_objects s ! a) @ filter (\<lambda>d. d \<noteq> []) ds, st_read_ready := ev\<rparr>)"
  using assms
proof (induction ds arbitrary: s)
  case Nil
  have "\<exists>ev. ss_objects s ! a = (ss_objects s ! a)\<lparr>st_read_ready := ev\<rparr>"
    by (rule exI [of _ "st_read_ready (ss_objects s ! a)"]) simp
  with Nil show ?case by simp
next
  case (Cons d ds)
  let ?s = "on_data_chunk_recv_callback K N sid d s"
  have s: "find_stream ?s sid = Some a" "a < length (ss_objects ?s)" "ss_spawned ?s = ss_spawned s" "ss_handler ?s = ss_handler s"
    "ss_objects ?s ! a = on_data K d (ss_objects s ! a)"
    using Cons.prems(1,2)
    by (simp_all add: on_data_chunk_recv_callback_def with_stream_def update_object_def with_native_def find_stream_def)
  have obj: "ss_objects ?s ! a = (ss_objects s ! a)\<lparr>st_chunks := st_chunks (ss_objects s ! a) @ pieces d,
      st_read_ready := ev_set K (st_read_ready (ss_objects s ! a))\<rparr>"
    using Cons.prems(3) s(5) by (simp add: on_data_no_sink)
  then have "st_read_sink (ss_objects ?s ! a) = None" using Cons.prems(3) by simp
  from Cons.IH [OF s(1,2) this] obtain ev where
    "ss_objects (run_callbacks K N (map (Cb_data_chunk_recv sid) ds) ?s) ! a =
      (ss_objects ?s ! a)\<lparr>st_chunks := st_chunks (ss_objects ?s ! a) @ filter (\<lambda>d. d \<noteq> []) ds, st_read_ready := ev\<rparr>"
    unfolding Let_def by blast
  then have "ss_objects (run_callbacks K N (map (Cb_data_chunk_recv sid) ds) ?s) ! a =
      (ss_objects s ! a)\<lparr>st_chunks := st_chunks (ss_objects s ! a) @ filter (\<lambda>d. d \<noteq> []) (d # ds), st_read_ready := ev\<rparr>"
    by (simp add: obj pieces_def)
  with Cons.IH [OF s(1,2) \<open>st_read_sink (ss_objects ?s ! a) = None\<close>] s(3,4) show ?case
    unfolding Let_def by (simp only: list.map run_callbacks_simps run_callback.simps snd_conv) blast
qed

text \<open>
  C22. From the wire to the handler: the fields a client submits for a path, a content length
  and headers arrive as the HEADERS frame of a new stream of a server session, its body arrives in any
  pieces, and a DATA frame ends it. Then exactly one handler was dispatched, and it is called with that
  path, content length and list of headers; its reads, one after the other into destinations of any
  sizes, return the body byte by byte in its order, as much as the destinations have room for; and
  once they had room for all of it the next read reports the end.
\<close>

theorem request_and_body_reach_handler:
  assumes "sink_ok K written room" "plain_fields hs" "ss_handler s" "find_stream s sid = None"
    and "f = \<lparr>fr_type = NGHTTP2_HEADERS, fr_stream_id = sid, fr_end_stream = False, fr_cat = HCAT_REQUEST\<rparr>"
    and "fr_type e = NGHTTP2_DATA" "fr_stream_id e = sid" "fr_end_stream e"
    and "t = run_callbacks K N (headers_callbacks f (request_nva path cl hs) @ map (Cb_data_chunk_recv sid) ds
      @ [Cb_frame_recv e]) s"
    and "\<forall>bp \<in> set (end_bp # bps). written bp = [] \<and> 0 < room bp"
  shows "\<exists>a rq outs u. ss_spawned t = ss_spawned s @ [a] \<and> handle_request K N a t = Some (Handler_called rq a, t) \<and>
    rq = \<lparr>rq_path = path, rq_content_length = cl,
      rq_headers = (case cl of None \<Rightarrow> [] | Some n \<Rightarrow> [(''content-length'', to_string (unat n))]) @ hs, rq_reader = a\<rparr> \<and>
    read_requests K N bps rq t = Some (outs, u) \<and>
    concat (map (returned written) outs) = take (sum_list (map room bps)) (concat ds) \<and>
    (length (concat ds) \<le> sum_list (map room bps) \<longrightarrow>
       map_option fst (Request_read_some K N end_bp rq u) = Some (Read_done (Some Error_eof, 0) end_bp))"
proof -
  let ?a = "length (ss_objects s)"
  let ?cl = "case cl of None \<Rightarrow> [] | Some n \<Rightarrow> [(''content-length'', to_string (unat n))]"
  let ?rq = "\<lparr>rq_path = path, rq_content_length = cl, rq_headers = ?cl @ hs, rq_reader = ?a\<rparr>"
  define s1 where "s1 = run_callbacks K N (headers_callbacks f (request_nva path cl hs)) s"
  define s2 where "s2 = run_callbacks K N (map (Cb_data_chunk_recv sid) ds) s1"
  have "fr_type f = NGHTTP2_HEADERS" "fr_cat f = HCAT_REQUEST" "find_stream s (fr_stream_id f) = None" using assms(4,5) by simp_all
  note recv = request_headers_received [OF this s1_def [symmetric]]
  have s1: "find_stream s1 sid = Some ?a" "?a < length (ss_objects s1)" "ss_spawned s1 = ss_spawned s @ [?a]" "ss_handler s1"
    "ss_objects s1 ! ?a = (new_stream K sid (log_prefix (ss_role s) sid))
      \<lparr>st_path := path, st_content_length := cl, st_headers := ?cl @ hs\<rparr>"
    using recv assms(3,5) by (simp_all add: request_fields [OF assms(2)] new_stream_def split: option.split)
  then have "st_read_sink (ss_objects s1 ! ?a) = None" by (simp add: new_stream_def)
  from data_callbacks [OF s1(1,2) this, of K N ds] s1 obtain ev where
    s2: "find_stream s2 sid = Some ?a" "?a < length (ss_objects s2)" "ss_spawned s2 = ss_spawned s @ [?a]" "ss_handler s2"
      "ss_objects s2 ! ?a = (new_stream K sid (log_prefix (ss_role s) sid))\<lparr>st_path := path, st_content_length := cl,
         st_headers := ?cl @ hs, st_chunks := filter (\<lambda>d. d \<noteq> []) ds, st_read_ready := ev\<rparr>"
    by (auto simp: Let_def s2_def new_stream_def)
  have "t = on_frame_recv_callback K e s2" by (simp add: assms(9) s1_def s2_def)
  then have t: "?a < length (ss_objects t)" "ss_spawned t = ss_spawned s @ [?a]" "ss_handler t"
    "ss_objects t ! ?a = on_read_eof K (ss_objects s2 ! ?a)"
    using s2 assms(6-8)
    by (simp_all add: on_frame_recv_callback_def is_request_headers_def with_stream_def update_object_def)
  have "handle_request K N ?a t = Some (Handler_called ?rq ?a, t)"
    using t(3) by (simp add: handle_request_def t(4) s2(5) on_read_eof_def)
  moreover have "concat (filter (\<lambda>d. d \<noteq> []) ds) = concat ds" by (induction ds) simp_all
  then have "body_there (concat ds) (ss_objects t ! ?a)"
    by (simp add: t(4) s2(5) on_read_eof_def new_stream_def body_there_def buffered_def chunks_wf_0)
  with read_requests_there [OF assms(1) t(1) this, of ?rq bps N] assms(10) obtain outs u where
    u: "read_requests K N bps ?rq t = Some (outs, u)" "?a < length (ss_objects u)"
      "concat (map (returned written) outs) = take (sum_list (map room bps)) (concat ds)"
      "body_there (drop (sum_list (map room bps)) (concat ds)) (ss_objects u ! ?a)" by auto
  moreover have "map_option fst (Request_read_some K N end_bp ?rq u) = Some (Read_done (Some Error_eof, 0) end_bp)"
    if "length (concat ds) \<le> sum_list (map room bps)"
    using read_some_there [OF assms(1) u(4), of end_bp] assms(10) that
    by (auto simp: Request_read_some_def StreamReader_read_some_def)
  ultimately show ?thesis using t(2) by (intro exI [of _ ?a] exI [of _ ?rq] exI [of _ outs] exI [of _ u]) blast
qed

definition demo_body_callbacks :: "callback list" where
  "demo_body_callbacks =
     headers_callbacks (request_frame 1 False) (request_nva ''/echo'' (Some 3) []) @
     map (Cb_data_chunk_recv 1) [[1, 2], [3]] @
     [Cb_frame_recv \<lparr>fr_type = NGHTTP2_DATA, fr_stream_id = 1, fr_end_stream = True, fr_cat = HCAT_HEADERS\<rparr>]"

theorem request_and_body_reach_handler_witness:
  "\<exists>a rq outs u t. t = run_callbacks flat_capy demo_N demo_body_callbacks demo_ready \<and>
     handle_request flat_capy demo_N a t = Some (Handler_called rq a, t) \<and>
     rq_path rq = ''/echo'' \<and> rq_content_length rq = Some 3 \<and>
     read_requests flat_capy demo_N [([], 2), ([], 5)] rq t = Some (outs, u) \<and>
     concat (map (returned fst) outs) = [1, 2, 3] \<and>
     map_option fst (Request_read_some flat_capy demo_N ([], 1) rq u) = Some (Read_done (Some Error_eof, 0) ([], 1))"
proof -
  have "plain_fields []" "ss_handler demo_ready" "find_stream demo_ready 1 = None"
    by (simp_all add: plain_fields_def demo_ready_def new_session_def find_stream_def)
  from request_and_body_reach_handler [OF library_okD(2) [OF flat_capy_ok] this _ _ _ _ refl,
      of "request_frame 1 False" "\<lparr>fr_type = NGHTTP2_DATA, fr_stream_id = 1, fr_end_stream = True, fr_cat = HCAT_HEADERS\<rparr>"
        "([], 1)" "[([], 2), ([], 5)]" demo_N "''/echo''" "Some 3" "[[1, 2], [3]]"]
  obtain a rq outs u where
    "handle_request flat_capy demo_N a (run_callbacks flat_capy demo_N demo_body_callbacks demo_ready) =
       Some (Handler_called rq a, run_callbacks flat_capy demo_N demo_body_callbacks demo_ready)"
    "rq_path rq = ''/echo''" "rq_content_length rq = Some 3"
    "read_requests flat_capy demo_N [([], 2), ([], 5)] rq (run_callbacks flat_capy demo_N demo_body_callbacks demo_ready)
       = Some (outs, u)"
    "concat (map (returned fst) outs) = [1, 2, 3]"
    "map_option fst (Request_read_some flat_capy demo_N ([], 1) rq u) = Some (Read_done (Some Error_eof, 0) ([], 1))"
    by (auto simp: request_frame_def demo_body_callbacks_def)
  then show ?thesis by blast
qed

end
